(* ===== verification/Prelude.thy ===== *)
theory Prelude
  imports Main "HOL-Library.Word" "HOL-Library.List_Lexorder" "HOL-Library.While_Combinator"
begin

text \<open>
  Shared vocabulary of the development.

  \<^item> Go strings and byte slices are lists of 8-bit words; \<^verbatim>\<open><\<close> on them is Go's bytewise
    lexicographic string comparison (theory List\_Lexorder).
  \<^item> A Go panic is a value: a computation that may panic returns \<open>go_panic + 'a\<close> and
    \<open>bindE\<close> sequences such computations, stopping at the first panic.
  \<^item> Slicing, \<^verbatim>\<open>copy\<close>, array access and \<^verbatim>\<open>sort.Search\<close> follow the Go language and its
    standard library, including the index checks that panic.
  \<^item> Sorted association lists (\<open>al_set\<close>, \<open>al_del\<close>, \<open>al_del_range\<close>, \<open>al_next\<close>,
    \<open>al_prev\<close>) are the abstract specification of an ordered map; the B+ tree component
    implements them.
\<close>

section \<open>Byte strings\<close>

type_synonym byte = "8 word"
type_synonym gostring = "byte list"

definition bytes_of :: "string \<Rightarrow> gostring" where
  "bytes_of s = map (\<lambda>c. word_of_nat (of_char c)) s"

lemma length_bytes_of [simp]: "length (bytes_of s) = length s"
  by (simp add: bytes_of_def)

section \<open>Panics as values\<close>

datatype go_panic =
    PanicMsg string
  | NilPointer
  | IndexRange
  | DivideByZero
  | Diverges

type_synonym 'a res = "go_panic + 'a"

definition bindE :: "'a res \<Rightarrow> ('a \<Rightarrow> 'b res) \<Rightarrow> 'b res" where
  "bindE m f = (case m of Inl e \<Rightarrow> Inl e | Inr x \<Rightarrow> f x)"

named_theorems res_simps \<open>rules that take a result computation apart\<close>

lemma bindE_Inl [simp]: "bindE (Inl e) f = Inl e"
  by (simp add: bindE_def)

lemma bindE_Inr [simp]: "bindE (Inr x) f = f x"
  by (simp add: bindE_def)

lemma bindE_eq_Inr [res_simps]: "bindE m f = Inr y \<longleftrightarrow> (\<exists>x. m = Inr x \<and> f x = Inr y)"
  by (cases m) simp_all

lemma bindE_eq_Inl [res_simps]:
  "bindE m f = Inl e \<longleftrightarrow> (m = Inl e \<or> (\<exists>x. m = Inr x \<and> f x = Inl e))"
  by (cases m) simp_all

lemma bindE_cong [fundef_cong]:
  assumes "m = m'" and "\<And>x. m' = Inr x \<Longrightarrow> f x = g x"
  shows "bindE m f = bindE m' g"
  using assms by (cases m') simp_all

lemma bindE_assoc: "bindE (bindE m f) g = bindE m (\<lambda>x. bindE (f x) g)"
  by (cases m) simp_all

text \<open>A nil pointer that is dereferenced panics.\<close>

definition deref :: "'a option \<Rightarrow> 'a res" where
  "deref p = (case p of None \<Rightarrow> Inl NilPointer | Some x \<Rightarrow> Inr x)"

lemma deref_simps [simp]: "deref None = Inl NilPointer" "deref (Some x) = Inr x"
  by (simp_all add: deref_def)

lemma deref_eq_Inr [res_simps]: "deref p = Inr x \<longleftrightarrow> p = Some x"
  by (cases p) simp_all

text \<open>\<open>okE P m\<close> says that \<open>m\<close> panics or its result satisfies \<open>P\<close>.\<close>

definition okE :: "('a \<Rightarrow> bool) \<Rightarrow> 'a res \<Rightarrow> bool" where
  "okE P m \<longleftrightarrow> (\<forall>x. m = Inr x \<longrightarrow> P x)"

lemma okE_Inl: "okE P (Inl e)"
  by (simp add: okE_def)

lemma okE_Inr: "P x \<Longrightarrow> okE P (Inr x)"
  by (simp add: okE_def)

lemma okE_D: "okE P m \<Longrightarrow> m = Inr x \<Longrightarrow> P x"
  by (simp add: okE_def)

lemma okE_mono: "okE P m \<Longrightarrow> (\<And>x. P x \<Longrightarrow> Q x) \<Longrightarrow> okE Q m"
  by (simp add: okE_def)

lemma okE_bind: "okE Q m \<Longrightarrow> (\<And>x. Q x \<Longrightarrow> okE P (f x)) \<Longrightarrow> okE P (bindE m f)"
  by (auto simp: okE_def res_simps)

lemma okE_bind_eq: "(\<And>x. m = Inr x \<Longrightarrow> okE P (f x)) \<Longrightarrow> okE P (bindE m f)"
  by (auto simp: okE_def res_simps)

lemma okE_deref: "(\<And>x. p = Some x \<Longrightarrow> okE P (f x)) \<Longrightarrow> okE P (bindE (deref p) f)"
  by (auto simp: okE_def res_simps)

lemma okE_if: "(b \<Longrightarrow> okE P x) \<Longrightarrow> (\<not> b \<Longrightarrow> okE P y) \<Longrightarrow> okE P (if b then x else y)"
  by simp

text \<open>A loop over a list that updates a state and stops at the first panic.\<close>

primrec foldE :: "('a \<Rightarrow> 's \<Rightarrow> 's res) \<Rightarrow> 'a list \<Rightarrow> 's \<Rightarrow> 's res" where
  "foldE f [] s = Inr s"
| "foldE f (x # xs) s = bindE (f x s) (foldE f xs)"

lemma okE_fold:
  assumes "P s" "\<And>x s. x \<in> set xs \<Longrightarrow> P s \<Longrightarrow> okE P (f x s)"
  shows "okE P (foldE f xs s)"
  using assms by (induction xs arbitrary: s) (auto intro: okE_Inr okE_bind)

section \<open>Arrays and slices\<close>

definition arr_get :: "'a list \<Rightarrow> nat \<Rightarrow> 'a res" where
  "arr_get xs i = (if i < length xs then Inr (xs ! i) else Inl IndexRange)"

definition arr_set :: "'a list \<Rightarrow> nat \<Rightarrow> 'a \<Rightarrow> 'a list res" where
  "arr_set xs i v = (if i < length xs then Inr (xs[i := v]) else Inl IndexRange)"

lemma arr_get_ok [simp]: "i < length xs \<Longrightarrow> arr_get xs i = Inr (xs ! i)"
  by (simp add: arr_get_def)

lemma arr_set_ok [simp]: "i < length xs \<Longrightarrow> arr_set xs i v = Inr (xs[i := v])"
  by (simp add: arr_set_def)

lemma arr_get_eq_Inr [res_simps]: "arr_get xs i = Inr v \<longleftrightarrow> i < length xs \<and> v = xs ! i"
  by (auto simp: arr_get_def)

lemma arr_set_eq_Inr [res_simps]: "arr_set xs i v = Inr ys \<longleftrightarrow> i < length xs \<and> ys = xs[i := v]"
  by (auto simp: arr_set_def)

text \<open>\<^verbatim>\<open>xs[:i]\<close> and \<^verbatim>\<open>xs[i:]\<close>; the index is an \<^verbatim>\<open>int\<close> and may be out of range.\<close>

definition slice_upto :: "'a list \<Rightarrow> int \<Rightarrow> 'a list res" where
  "slice_upto xs i =
     (if 0 \<le> i \<and> i \<le> int (length xs) then Inr (take (nat i) xs) else Inl IndexRange)"

definition slice_from :: "'a list \<Rightarrow> int \<Rightarrow> 'a list res" where
  "slice_from xs i =
     (if 0 \<le> i \<and> i \<le> int (length xs) then Inr (drop (nat i) xs) else Inl IndexRange)"

text \<open>\<^verbatim>\<open>copy(dst[i:], src)\<close>: as many elements as fit are overwritten.\<close>

definition copy_at :: "'a list \<Rightarrow> int \<Rightarrow> 'a list \<Rightarrow> 'a list res" where
  "copy_at dst i src =
     (if 0 \<le> i \<and> i \<le> int (length dst)
      then Inr (take (nat i) dst @ take (length dst - nat i) src
                @ drop (nat i + length src) dst)
      else Inl IndexRange)"

definition elem_set :: "'a list \<Rightarrow> int \<Rightarrow> 'a \<Rightarrow> 'a list res" where
  "elem_set xs i v =
     (if 0 \<le> i \<and> i < int (length xs) then Inr (xs[nat i := v]) else Inl IndexRange)"

definition elem_get :: "'a list \<Rightarrow> int \<Rightarrow> 'a res" where
  "elem_get xs i =
     (if 0 \<le> i \<and> i < int (length xs) then Inr (xs ! nat i) else Inl IndexRange)"

text \<open>A loop over a list that stops at the first panic.\<close>

primrec mapE :: "('a \<Rightarrow> 'b res) \<Rightarrow> 'a list \<Rightarrow> 'b list res" where
  "mapE f [] = Inr []"
| "mapE f (x # xs) = bindE (f x) (\<lambda>y. bindE (mapE f xs) (\<lambda>ys. Inr (y # ys)))"

lemma mapE_Inr: "(\<And>x. x \<in> set xs \<Longrightarrow> f x = Inr (g x)) \<Longrightarrow> mapE f xs = Inr (map g xs)"
  by (induction xs) simp_all

text \<open>\<^verbatim>\<open>make([]T, n)\<close> for a pointer type \<^verbatim>\<open>T\<close>: \<^verbatim>\<open>n\<close> nil pointers, a panic on a negative
  length.\<close>

definition make_nil :: "int \<Rightarrow> 'a option list res" where
  "make_nil n = (if 0 \<le> n then Inr (replicate (nat n) None) else Inl IndexRange)"

lemma length_copy_at: "copy_at dst i src = Inr r \<Longrightarrow> length r = length dst"
  by (auto simp: copy_at_def split: if_splits)

lemma copy_at_fits:
  assumes "length dst = n + length src + m" "i = int n"
  shows "copy_at dst i src = Inr (take n dst @ src @ drop (n + length src) dst)"
  using assms by (simp add: copy_at_def)

lemma last_index:
  assumes "xs \<noteq> []"
  obtains l where "int (length xs) - 1 = int l" "l < length xs" "Suc l = length xs"
proof
  show "Suc (length xs - 1) = length xs" "length xs - 1 < length xs" using assms by simp_all
  then show "int (length xs) - 1 = int (length xs - 1)" by linarith
qed

lemma two_snoc:
  assumes "2 \<le> length xs"
  obtains S x where "xs = S @ [x]" "S \<noteq> []"
  using assms by (cases xs rule: rev_cases) (auto simp: Suc_le_eq)

lemma two_cons:
  assumes "2 \<le> length xs"
  obtains x S where "xs = x # S" "S \<noteq> []"
  using assms by (cases xs) (auto simp: Suc_le_eq)

section \<open>sort.Search\<close>

text \<open>
  The binary search of Go's package \<^verbatim>\<open>sort\<close>: the smallest index in \<open>[i, j)\<close> at which
  the (monotone) predicate holds, \<open>j\<close> if there is none.
\<close>

function sortSearch :: "(nat \<Rightarrow> bool) \<Rightarrow> nat \<Rightarrow> nat \<Rightarrow> nat" where
  "sortSearch f i j =
     (if i < j then
        let h = (i + j) div 2
        in if f h then sortSearch f i h else sortSearch f (Suc h) j
      else i)"
  by pat_completeness auto
termination
  by (relation "measure (\<lambda>(f, i, j). j - i)") auto

declare sortSearch.simps [simp del]

lemma sortSearch_stop [simp]: "\<not> i < j \<Longrightarrow> sortSearch f i j = i"
  by (simp add: sortSearch.simps)

lemma sortSearch_bounds: "i \<le> j \<Longrightarrow> i \<le> sortSearch f i j \<and> sortSearch f i j \<le> j"
proof (induction f i j rule: sortSearch.induct)
  case (1 f i j)
  show ?case
  proof (cases "i < j")
    case True
    then have "i \<le> (i + j) div 2" "(i + j) div 2 \<le> j" "Suc ((i + j) div 2) \<le> j" by auto
    then show ?thesis
      using 1 True by (fastforce simp: sortSearch.simps [of f i j] Let_def)
  next
    case False
    then show ?thesis using 1 by simp
  qed
qed

lemma sortSearch_spec:
  assumes "i \<le> j" and "\<And>a b. a \<le> b \<Longrightarrow> b < n \<Longrightarrow> f a \<Longrightarrow> f b" and "j \<le> n"
    and "\<And>a. a < i \<Longrightarrow> \<not> f a" and "\<And>a. j \<le> a \<Longrightarrow> a < n \<Longrightarrow> f a"
  shows "(\<forall>a < sortSearch f i j. \<not> f a) \<and> (\<forall>a. sortSearch f i j \<le> a \<and> a < n \<longrightarrow> f a)"
  using assms
proof (induction f i j rule: sortSearch.induct)
  case (1 f i j)
  let ?h = "(i + j) div 2"
  note mono = "1.prems"(2)
  consider (yes) "i < j" "f ?h" | (no) "i < j" "\<not> f ?h" | (stop) "\<not> i < j" by blast
  then show ?case
  proof cases
    case yes
    have "\<And>a. ?h \<le> a \<Longrightarrow> a < n \<Longrightarrow> f a"
      using mono yes by blast
    moreover have "i \<le> ?h" "?h \<le> n" using yes "1.prems"(3) by auto
    ultimately have "(\<forall>a < sortSearch f i ?h. \<not> f a) \<and> (\<forall>a. sortSearch f i ?h \<le> a \<and> a < n \<longrightarrow> f a)"
      using "1.IH"(1) [OF yes(1) refl yes(2)] mono "1.prems"(4) by blast
    then show ?thesis using yes by (simp add: sortSearch.simps [of f i j] Let_def)
  next
    case no
    have hn: "?h < n" "Suc ?h \<le> j" using no "1.prems"(3) by auto
    have "\<not> f a" if "a < Suc ?h" for a
      using mono [of a ?h] hn no that by auto
    then have "(\<forall>a < sortSearch f (Suc ?h) j. \<not> f a) \<and>
        (\<forall>a. sortSearch f (Suc ?h) j \<le> a \<and> a < n \<longrightarrow> f a)"
      using "1.IH"(2) [OF no(1) refl no(2)] mono "1.prems"(3,5) hn by blast
    then show ?thesis using no by (simp add: sortSearch.simps [of f i j] Let_def)
  next
    case stop
    then have "i = j" using "1.prems"(1) by simp
    then show ?thesis using "1.prems" by auto
  qed
qed

corollary sortSearch_least:
  assumes "\<forall>a b. a \<le> b \<longrightarrow> b < n \<longrightarrow> f a \<longrightarrow> f b"
  shows "a < sortSearch f 0 n \<Longrightarrow> \<not> f a"
    and "sortSearch f 0 n \<le> a \<Longrightarrow> a < n \<Longrightarrow> f a"
    and "sortSearch f 0 n \<le> n"
  using sortSearch_spec [of 0 n n f] sortSearch_bounds [of 0 n f] assms by auto

section \<open>Sorted association lists: the abstract ordered map\<close>

type_synonym kv = "gostring \<times> gostring"

text \<open>Strictly increasing keys, none of them empty.\<close>

definition ordered :: "kv list \<Rightarrow> bool" where
  "ordered kvs \<longleftrightarrow> sorted_wrt (<) (map fst kvs) \<and> [] \<notin> fst ` set kvs"

definition al_set :: "gostring \<Rightarrow> gostring \<Rightarrow> kv list \<Rightarrow> kv list" where
  "al_set k v kvs = filter (\<lambda>p. fst p < k) kvs @ [(k, v)] @ filter (\<lambda>p. k < fst p) kvs"

definition al_del :: "gostring \<Rightarrow> kv list \<Rightarrow> kv list" where
  "al_del k kvs = filter (\<lambda>p. fst p \<noteq> k) kvs"

definition al_del_range :: "gostring \<Rightarrow> gostring \<Rightarrow> kv list \<Rightarrow> kv list" where
  "al_del_range k1 k2 kvs = filter (\<lambda>p. fst p < k1 \<or> k2 < fst p) kvs"

definition al_next :: "gostring \<Rightarrow> kv list \<Rightarrow> gostring option" where
  "al_next k kvs = (case filter (\<lambda>p. k < fst p) kvs of [] \<Rightarrow> None | p # _ \<Rightarrow> Some (fst p))"

definition al_prev :: "gostring \<Rightarrow> kv list \<Rightarrow> gostring option" where
  "al_prev k kvs = (case rev (filter (\<lambda>p. fst p < k) kvs) of [] \<Rightarrow> None | p # _ \<Rightarrow> Some (fst p))"

lemma ordered_Nil [simp]: "ordered []"
  by (simp add: ordered_def)

lemma ordered_Cons:
  "ordered (p # ps) \<longleftrightarrow> fst p \<noteq> [] \<and> (\<forall>q \<in> set ps. fst p < fst q) \<and> ordered ps"
  by (auto simp: ordered_def)

lemma ordered_append:
  "ordered (ps @ qs) \<longleftrightarrow> ordered ps \<and> ordered qs \<and> (\<forall>p \<in> set ps. \<forall>q \<in> set qs. fst p < fst q)"
  by (auto simp: ordered_def sorted_wrt_append)

lemma ordered_filter: "ordered ps \<Longrightarrow> ordered (filter P ps)"
  by (induction ps) (auto simp: ordered_Cons)

lemma ordered_distinct: "ordered ps \<Longrightarrow> distinct (map fst ps)"
  by (induction ps) (auto simp: ordered_Cons)

lemma ordered_take_drop: "ordered ps \<Longrightarrow> ordered (take i ps) \<and> ordered (drop i ps)"
  by (metis append_take_drop_id ordered_append)

text \<open>A list cut at a key: everything before the cut is smaller, everything after it is not.\<close>

lemma al_set_cut_insert:
  assumes "\<forall>p \<in> set L. fst p < k" "\<forall>p \<in> set R. k < fst p"
  shows "al_set k v (L @ R) = L @ (k, v) # R"
proof -
  have "filter (\<lambda>p. fst p < k) (L @ R) = L"
    using assms by (auto simp: filter_empty_conv intro!: filter_True)
  moreover have "filter (\<lambda>p. k < fst p) (L @ R) = R"
    using assms by (auto simp: filter_empty_conv intro!: filter_True)
  ultimately show ?thesis by (simp add: al_set_def)
qed

lemma al_set_cut_replace:
  assumes "\<forall>p \<in> set L. fst p < k" "\<forall>p \<in> set R. k < fst p"
  shows "al_set k v (L @ (k, u) # R) = L @ (k, v) # R"
  using al_set_cut_insert [OF assms] by (simp add: al_set_def)

lemma al_del_cut:
  assumes "\<forall>p \<in> set L. fst p < k" "\<forall>p \<in> set R. k < fst p"
  shows "al_del k (L @ (k, u) # R) = L @ R"
proof -
  have "filter (\<lambda>p. fst p \<noteq> k) L = L" "filter (\<lambda>p. fst p \<noteq> k) R = R"
    using assms by (auto intro!: filter_True)
  then show ?thesis by (simp add: al_del_def)
qed

lemma map_of_cut_None:
  assumes "\<forall>p \<in> set L. fst p < (k :: gostring)" "\<forall>p \<in> set R. k < fst p"
  shows "map_of (L @ R) k = None"
proof -
  have "k \<notin> fst ` set (L @ R)" using assms by auto
  then show ?thesis by (simp only: map_of_eq_None_iff not_False_eq_True)
qed

lemma map_of_cut_Some:
  assumes "\<forall>p \<in> set L. fst p < (k :: gostring)"
  shows "map_of (L @ (k, u) # R) k = Some u"
proof -
  have "k \<notin> fst ` set L" using assms by auto
  then have "map_of L k = None" by (simp only: map_of_eq_None_iff not_False_eq_True)
  then show ?thesis by (simp add: map_add_Some_iff)
qed

lemma ordered_al_set: "ordered kvs \<Longrightarrow> k \<noteq> [] \<Longrightarrow> ordered (al_set k v kvs)"
  unfolding al_set_def ordered_append ordered_Cons
  by (simp add: ordered_filter) (blast intro: order_less_trans)

lemma ordered_al_del: "ordered kvs \<Longrightarrow> ordered (al_del k kvs)"
  by (simp add: al_del_def ordered_filter)

lemma ordered_al_del_range: "ordered kvs \<Longrightarrow> ordered (al_del_range a b kvs)"
  by (simp add: al_del_range_def ordered_filter)

lemma map_of_al_set: "ordered kvs \<Longrightarrow> map_of (al_set k v kvs) = (map_of kvs)(k \<mapsto> v)"
proof (rule ext)
  fix x assume o: "ordered kvs"
  have "map_of (filter (\<lambda>p. fst p < k) kvs) x = (if x < k then map_of kvs x else None)"
    "map_of (filter (\<lambda>p. k < fst p) kvs) x = (if k < x then map_of kvs x else None)"
    by (induction kvs) auto
  then show "map_of (al_set k v kvs) x = ((map_of kvs)(k \<mapsto> v)) x"
    by (auto simp: al_set_def map_add_def split: option.splits)
qed

lemma map_of_al_del: "map_of (al_del k kvs) = (map_of kvs)(k := None)"
  by (induction kvs) (auto simp: al_del_def)

lemma map_of_al_del_range:
  "map_of (al_del_range a b kvs) x = (if a \<le> x \<and> x \<le> b then None else map_of kvs x)"
  by (induction kvs) (auto simp: al_del_range_def)

lemma al_next_least:
  assumes "ordered kvs"
  shows "al_next k kvs = Some n \<longleftrightarrow>
    n \<in> fst ` set kvs \<and> k < n \<and> (\<forall>x \<in> fst ` set kvs. k < x \<longrightarrow> n \<le> x)"
  using assms
proof (induction kvs)
  case (Cons p ps)
  show ?case
  proof (cases "k < fst p")
    case True
    then have "al_next k (p # ps) = Some (fst p)" by (simp add: al_next_def)
    moreover have "\<forall>x \<in> fst ` set ps. fst p < x" using Cons.prems by (auto simp: ordered_Cons)
    ultimately show ?thesis using True by (auto simp: order_le_less)
  next
    case False
    then have "al_next k (p # ps) = al_next k ps" by (simp add: al_next_def)
    with Cons False show ?thesis by (auto simp: ordered_Cons)
  qed
qed (simp add: al_next_def)

lemma al_prev_snoc: "al_prev k (ps @ [p]) = (if fst p < k then Some (fst p) else al_prev k ps)"
  by (simp add: al_prev_def)

lemma al_prev_greatest:
  assumes "ordered kvs"
  shows "al_prev k kvs = Some n \<longleftrightarrow>
    n \<in> fst ` set kvs \<and> n < k \<and> (\<forall>x \<in> fst ` set kvs. x < k \<longrightarrow> x \<le> n)"
  using assms
proof (induction kvs rule: rev_induct)
  case (snoc p ps)
  show ?case
  proof (cases "fst p < k")
    case True
    moreover have "\<forall>x \<in> fst ` set ps. x < fst p" using snoc.prems by (auto simp: ordered_append)
    ultimately show ?thesis by (auto simp: al_prev_snoc order_le_less)
  next
    case False
    with snoc show ?thesis by (auto simp: ordered_append al_prev_snoc)
  qed
qed (simp add: al_prev_def)

lemma al_next_cut:
  assumes "\<forall>p \<in> set L. \<not> k < fst p" "\<forall>p \<in> set R. k < fst p"
  shows "al_next k (L @ R) = (case R of [] \<Rightarrow> None | p # _ \<Rightarrow> Some (fst p))"
proof -
  have "filter (\<lambda>p. k < fst p) (L @ R) = R"
    using assms by (auto simp: filter_empty_conv intro!: filter_True)
  then show ?thesis by (simp add: al_next_def)
qed

lemma al_prev_cut:
  assumes "\<forall>p \<in> set L. fst p < k" "\<forall>p \<in> set R. \<not> fst p < k"
  shows "al_prev k (L @ R) = (case rev L of [] \<Rightarrow> None | p # _ \<Rightarrow> Some (fst p))"
proof -
  have "filter (\<lambda>p. fst p < k) (L @ R) = L"
    using assms by (auto simp: filter_empty_conv intro!: filter_True)
  then show ?thesis by (simp add: al_prev_def)
qed


lemma length_filter_mono: "(\<And>x. P x \<Longrightarrow> Q x) \<Longrightarrow> length (filter P xs) \<le> length (filter Q xs)"
  by (induction xs) (auto intro: le_SucI)

lemma al_del_range_cut:
  assumes "L1 @ R1 = L2 @ R2" "\<forall>p \<in> set L1. fst p < k1" "\<forall>p \<in> set R1. k1 \<le> fst p"
    "\<forall>p \<in> set L2. \<not> k2 < fst p" "\<forall>p \<in> set R2. k2 < fst p" "k1 \<le> k2"
  shows "al_del_range k1 k2 (L1 @ R1) = L1 @ R2" "length L1 \<le> length L2"
proof -
  have f1: "filter (\<lambda>p. fst p < k1) (L1 @ R1) = L1"
    using assms(2,3) by (auto simp: filter_empty_conv not_less intro!: filter_True)
  have f2: "filter (\<lambda>p. k2 < fst p) (L2 @ R2) = R2" "filter (\<lambda>p. \<not> k2 < fst p) (L2 @ R2) = L2"
    using assms(4,5) by (auto simp: filter_empty_conv intro!: filter_True)
  have lt: "\<not> k2 < fst p" if "fst p < k1" for p :: kv
    using that assms(6) by (meson order_less_le_trans order_less_asym)
  have "filter (\<lambda>p. k2 < fst p) L1 = []" using assms(2) lt by (auto simp: filter_empty_conv)
  then have r2: "filter (\<lambda>p. k2 < fst p) R1 = R2" using f2(1) assms(1) by (metis filter_append append_Nil)
  have "filter (\<lambda>p. fst p < k1 \<or> k2 < fst p) L1 = L1" using assms(2) by (auto intro!: filter_True)
  moreover have "filter (\<lambda>p. fst p < k1 \<or> k2 < fst p) R1 = filter (\<lambda>p. k2 < fst p) R1"
    using assms(3) by (auto intro!: filter_cong simp: not_less [symmetric])
  ultimately show "al_del_range k1 k2 (L1 @ R1) = L1 @ R2"
    using r2 by (simp add: al_del_range_def)
  have "length (filter (\<lambda>p. fst p < k1) (L1 @ R1)) \<le> length (filter (\<lambda>p. \<not> k2 < fst p) (L1 @ R1))"
    by (rule length_filter_mono) (rule lt)
  then show "length L1 \<le> length L2" by (simp only: f1 f2(2) [folded assms(1)])
qed

section \<open>Computations that may not end\<close>

text \<open>A computation of type \<open>'a res option\<close> may also not end; then it is \<open>None\<close>.\<close>

definition bindO :: "'a res option \<Rightarrow> ('a \<Rightarrow> 'b res option) \<Rightarrow> 'b res option" where
  "bindO m f = Option.bind m (\<lambda>r. case r of Inl e \<Rightarrow> Some (Inl e) | Inr x \<Rightarrow> f x)"

lemma bindO_mono [partial_function_mono]:
  assumes "mono_option B" "\<And>y. mono_option (\<lambda>f. C y f)"
  shows "mono_option (\<lambda>f. bindO (B f) (\<lambda>y. C y f))"
  unfolding bindO_def
proof (rule bind_mono [OF assms(1)])
  show "mono_option (\<lambda>f. case y of Inl e \<Rightarrow> Some (Inl e) | Inr x \<Rightarrow> C x f)" for y
    using assms(2) by (cases y) (simp_all add: option.const_mono)
qed

lemma bindO_simps [simp]: "bindO None f = None" "bindO (Some (Inl e)) f = Some (Inl e)" "bindO (Some (Inr x)) f = f x"
  by (simp_all add: bindO_def)

lemma bindO_eq_Some [res_simps]:
  "bindO m f = Some r \<longleftrightarrow> (\<exists>e. m = Some (Inl e) \<and> r = Inl e) \<or> (\<exists>x. m = Some (Inr x) \<and> f x = Some r)"
proof (cases m)
  case (Some x)
  then show ?thesis by (cases x) auto
qed simp

end
