(* ===== verification/Util.thy ===== *)
theory Util
  imports Prelude
begin

text \<open>
  Package \<^verbatim>\<open>util\<close> (src/util/util.go): byte concatenation, the big-endian integer encodings
  every key of the system is built from, and the variadic integer and string helpers.
  A variadic parameter is a list. The fixed-width encodings come from Go's package
  \<^verbatim>\<open>encoding/binary\<close> and are written out digit by digit.
\<close>

section \<open>Definitions\<close>

text \<open>\<^verbatim>\<open>encoding/binary\<close>: the big-endian digits, most significant byte first, and their value.\<close>

primrec be_bytes :: "nat \<Rightarrow> nat \<Rightarrow> gostring" where
  "be_bytes 0 n = []"
| "be_bytes (Suc k) n = be_bytes k (n div 256) @ [word_of_nat n]"

definition be_nat :: "gostring \<Rightarrow> nat" where
  "be_nat bs = foldl (\<lambda>acc b. acc * 256 + unat b) 0 bs"

definition ConcatBytes :: "gostring list \<Rightarrow> gostring" where
  "ConcatBytes bs = foldl (\<lambda>r b. r @ b) [] bs"

definition Uint32Bytes :: "32 word \<Rightarrow> gostring" where
  "Uint32Bytes n = be_bytes 4 (unat n)"

definition Uint64Bytes :: "64 word \<Rightarrow> gostring" where
  "Uint64Bytes n = be_bytes 8 (unat n)"

text \<open>\<^verbatim>\<open>binary.BigEndian.Uint64\<close> reads the first eight bytes and panics on a shorter slice.\<close>

definition BigEndian_Uint64 :: "gostring \<Rightarrow> (64 word) res" where
  "BigEndian_Uint64 b =
     (if length b < 8 then Inl IndexRange else Inr (word_of_nat (be_nat (take 8 b))))"

definition IMin :: "int \<Rightarrow> int list \<Rightarrow> int" where
  "IMin i ints = foldl (\<lambda>i v. if v < i then v else i) i ints"

definition IMax :: "int \<Rightarrow> int list \<Rightarrow> int" where
  "IMax i ints = foldl (\<lambda>i v. if v > i then v else i) i ints"

text \<open>\<^verbatim>\<open>IOr\<close> and \<^verbatim>\<open>SOr\<close> loop over the variadic arguments only; the first parameter is never
  looked at.\<close>

fun IOr_loop :: "int list \<Rightarrow> int" where
  "IOr_loop [] = 0"
| "IOr_loop (v # vs) = (if v \<noteq> 0 then v else IOr_loop vs)"

definition IOr :: "int \<Rightarrow> int list \<Rightarrow> int" where
  "IOr i ints = IOr_loop ints"

fun SOr_loop :: "gostring list \<Rightarrow> gostring" where
  "SOr_loop [] = []"
| "SOr_loop (v # vs) = (if v \<noteq> [] then v else SOr_loop vs)"

definition SOr :: "gostring \<Rightarrow> gostring list \<Rightarrow> gostring" where
  "SOr i strings = SOr_loop strings"

section \<open>Lemmas\<close>

lemma ConcatBytes_concat [simp]: "ConcatBytes bs = concat bs"
proof -
  have "foldl (\<lambda>r b. r @ b) acc bs = acc @ concat bs" for acc :: gostring
    by (induction bs arbitrary: acc) simp_all
  from this [of "[]"] show ?thesis by (simp add: ConcatBytes_def)
qed

lemma length_be_bytes [simp]: "length (be_bytes k n) = k"
  by (induction k arbitrary: n) simp_all

lemma length_Uint64Bytes [simp]: "length (Uint64Bytes n) = 8"
  by (simp add: Uint64Bytes_def)

lemma length_Uint32Bytes [simp]: "length (Uint32Bytes n) = 4"
  by (simp add: Uint32Bytes_def)

lemma be_nat_snoc: "be_nat (bs @ [b]) = be_nat bs * 256 + unat b"
  by (simp add: be_nat_def)

lemma be_nat_Nil [simp]: "be_nat [] = 0"
  by (simp add: be_nat_def)

lemma be_nat_Cons: "be_nat (b # bs) = unat b * 256 ^ length bs + be_nat bs"
proof (induction bs rule: rev_induct)
  case (snoc x xs)
  have "be_nat (b # xs @ [x]) = be_nat (b # xs) * 256 + unat x"
    using be_nat_snoc [of "b # xs" x] by simp
  with snoc show ?case by (simp add: be_nat_snoc algebra_simps)
qed (simp add: be_nat_def)

lemma be_nat_bound: "be_nat bs < 256 ^ length bs"
proof (induction bs)
  case (Cons b bs)
  have "unat b < 256" using unsigned_less [of b] by simp
  then have "unat b * 256 ^ length bs + be_nat bs < (unat b + 1) * 256 ^ length bs"
    using Cons by simp
  also have "\<dots> \<le> 256 * 256 ^ length bs"
    using \<open>unat b < 256\<close> by (intro mult_le_mono1) simp
  finally show ?case by (simp add: be_nat_Cons)
qed simp

lemma be_nat_be_bytes: "be_nat (be_bytes k n) = n mod 256 ^ k"
proof (induction k arbitrary: n)
  case (Suc k)
  have "be_nat (be_bytes (Suc k) n) = (n div 256) mod 256 ^ k * 256 + n mod 256"
    by (simp add: be_nat_snoc Suc unat_of_nat)
  also have "\<dots> = n mod (256 * 256 ^ k)"
    by (simp add: mod_mult2_eq)
  finally show ?case by simp
qed simp

lemma be_nat_Uint64Bytes [simp]: "be_nat (Uint64Bytes n) = unat n"
  using unsigned_less [of n, where 'a = nat] by (simp add: Uint64Bytes_def be_nat_be_bytes)

lemma be_nat_less_iff:
  "length xs = length ys \<Longrightarrow> xs < ys \<longleftrightarrow> be_nat xs < be_nat ys"
proof (induction xs ys rule: list_induct2)
  case (Cons x xs y ys)
  have bx: "be_nat xs < 256 ^ length ys" and by': "be_nat ys < 256 ^ length ys"
    using be_nat_bound [of xs] be_nat_bound [of ys] Cons by simp_all
  consider "x < y" | "x = y" | "y < x" by force
  then show ?case
  proof cases
    case 1
    then have "Suc (unat x) * 256 ^ length ys \<le> unat y * 256 ^ length ys"
      by (intro mult_le_mono1) (simp add: word_less_nat_alt)
    then have "be_nat (x # xs) < be_nat (y # ys)"
      using bx Cons by (simp add: be_nat_Cons)
    with 1 show ?thesis by simp
  next
    case 2
    with Cons show ?thesis by (simp add: be_nat_Cons)
  next
    case 3
    then have "Suc (unat y) * 256 ^ length ys \<le> unat x * 256 ^ length ys"
      by (intro mult_le_mono1) (simp add: word_less_nat_alt)
    then have "be_nat (y # ys) < be_nat (x # xs)"
      using by' Cons by (simp add: be_nat_Cons)
    with 3 show ?thesis by auto
  qed
qed simp

lemma Uint64Bytes_less_iff [simp]: "Uint64Bytes a < Uint64Bytes b \<longleftrightarrow> a < b"
  by (simp add: be_nat_less_iff word_less_nat_alt)

lemma Uint64Bytes_inject [simp]: "Uint64Bytes a = Uint64Bytes b \<longleftrightarrow> a = b"
  by (metis be_nat_Uint64Bytes unsigned_word_eqI)

lemma BigEndian_Uint64_Uint64Bytes [simp]:
  "BigEndian_Uint64 (Uint64Bytes n @ rest) = Inr n"
  by (simp add: BigEndian_Uint64_def)

lemma append_less_same_length:
  "length xs = length ys \<Longrightarrow> xs @ us < ys @ vs \<longleftrightarrow> xs < ys \<or> xs = ys \<and> us < (vs :: 'a::order list)"
  by (induction xs ys rule: list_induct2) auto

lemma IMin_le: "IMin i vs \<le> i \<and> (\<forall>v \<in> set vs. IMin i vs \<le> v)"
  by (induction vs arbitrary: i) (fastforce simp: IMin_def)+

lemma IMax_ge: "i \<le> IMax i vs \<and> (\<forall>v \<in> set vs. v \<le> IMax i vs)"
  by (induction vs arbitrary: i) (fastforce simp: IMax_def)+

lemma IMin_pair [simp]: "IMin a [b] = min a b"
  by (simp add: IMin_def min_def)

lemma IMax_pair [simp]: "IMax a [b] = max a b"
  by (simp add: IMax_def max_def)

section \<open>Properties\<close>

text \<open>C14: \<^verbatim>\<open>Uint64Bytes\<close> encodes 64-bit numbers as eight bytes whose string order is the order of
  the numbers, so that numbers can be used as parts of keys of the tree; \<^verbatim>\<open>BigEndian.Uint64\<close>
  reads the number back, whatever follows it.\<close>

theorem Uint64Bytes_order:
  "(Uint64Bytes a < Uint64Bytes b) = (a < b) \<and> length (Uint64Bytes a) = 8 \<and>
   BigEndian_Uint64 (Uint64Bytes a @ rest) = Inr a"
  by simp

text \<open>C15: \<^verbatim>\<open>IOr\<close> and \<^verbatim>\<open>SOr\<close> return the first non-zero (non-empty) argument after the first one,
  and zero (empty) if there is none; their first argument has no effect.\<close>

theorem Or_ignores_first:
  "IOr i vs = (case dropWhile (\<lambda>v. v = 0) vs of [] \<Rightarrow> 0 | v # _ \<Rightarrow> v) \<and>
   SOr s ws = (case dropWhile (\<lambda>w. w = []) ws of [] \<Rightarrow> [] | w # _ \<Rightarrow> w)"
proof -
  have "IOr_loop vs = (case dropWhile (\<lambda>v. v = 0) vs of [] \<Rightarrow> 0 | v # _ \<Rightarrow> v)" by (induction vs) auto
  moreover have "SOr_loop ws = (case dropWhile (\<lambda>w. w = []) ws of [] \<Rightarrow> [] | w # _ \<Rightarrow> w)" by (induction ws) auto
  ultimately show ?thesis by (simp add: IOr_def SOr_def)
qed

end
