(* ===== verification/Greenpack.thy ===== *)
theory Greenpack
  imports Util
begin

text \<open>
  The interface of the serialisation package \<^verbatim>\<open>msgp\<close> (github.com/glycerine/greenpack) that the
  generated files *\_greenpack\_gen.go call. The package is not part of the repository: it is
  a record of its functions, an argument of every definition that uses it, and what the
  generated code relies on is the predicate \<open>msgp_ok\<close>: each \<^verbatim>\<open>Append\<close> function adds a
  self-delimiting encoding that the matching \<^verbatim>\<open>Read..Bytes\<close> method reads back, of at most
  the size the package's constant promises, that never starts with the byte of a nil, and a
  header byte \<^verbatim>\<open>0x90+n\<close> is an array header of a small length, and there is no array header in
  an empty input.

  A \<^verbatim>\<open>NilBitsStack\<close> is the state \<open>'n\<close>; a method that takes the rest of the input and returns
  what follows maps a pair of that state and the input to an error or to a value and a new
  pair. \<open>wire\<close> is the MessagePack format with fixed-size headers, an instance on which the
  properties of the generated code can be evaluated.
\<close>

section \<open>Reading\<close>

type_synonym msg_err = string

type_synonym ('n, 'a) rd = "'n \<times> gostring \<Rightarrow> msg_err + 'a \<times> 'n \<times> gostring"

definition rret :: "'a \<Rightarrow> ('n, 'a) rd" where
  "rret x s = Inr (x, s)"

definition rfail :: "msg_err \<Rightarrow> ('n, 'a) rd" where
  "rfail e s = Inl e"

definition rbind :: "('n, 'a) rd \<Rightarrow> ('a \<Rightarrow> ('n, 'b) rd) \<Rightarrow> ('n, 'b) rd" where
  "rbind m f s = (case m s of Inl e \<Rightarrow> Inl e | Inr (x, s') \<Rightarrow> f x s')"

text \<open>A loop that reads a given number of items.\<close>

primrec rtimes :: "nat \<Rightarrow> ('n, 'a) rd \<Rightarrow> ('n, 'a list) rd" where
  "rtimes 0 m = rret []"
| "rtimes (Suc k) m = rbind m (\<lambda>x. rbind (rtimes k m) (\<lambda>xs. rret (x # xs)))"

section \<open>The package\<close>

record msgp_sizes =
  BoolSize :: int
  ArrayHeaderSize :: int
  StringPrefixSize :: int
  BytesPrefixSize :: int
  ByteSize :: int
  Int32Size :: int
  Uint32Size :: int
  Uint64Size :: int
  MapHeaderSize :: int
  NilSize :: int

record 'n msgp_lib =
  sizes :: msgp_sizes
  AppendBool :: "gostring \<Rightarrow> bool \<Rightarrow> gostring"
  AppendArrayHeader :: "gostring \<Rightarrow> 32 word \<Rightarrow> gostring"
  AppendMapHeader :: "gostring \<Rightarrow> 32 word \<Rightarrow> gostring"
  AppendString :: "gostring \<Rightarrow> gostring \<Rightarrow> gostring"
  AppendBytes :: "gostring \<Rightarrow> gostring \<Rightarrow> gostring"
  AppendByte :: "gostring \<Rightarrow> 8 word \<Rightarrow> gostring"
  AppendInt32 :: "gostring \<Rightarrow> 32 word \<Rightarrow> gostring"
  AppendUint32 :: "gostring \<Rightarrow> 32 word \<Rightarrow> gostring"
  AppendUint64 :: "gostring \<Rightarrow> 64 word \<Rightarrow> gostring"
  IsNil :: "gostring \<Rightarrow> bool"
  nbs_Init :: 'n
  PushAlwaysNil :: "'n \<times> gostring \<Rightarrow> 'n \<times> gostring"
  PopAlwaysNil :: "'n \<Rightarrow> gostring"
  AlwaysNil :: "'n \<Rightarrow> bool"
  PeekNil :: "'n \<Rightarrow> gostring \<Rightarrow> bool"
  ReadNilBytes :: "('n, unit) rd"
  ReadBoolBytes :: "('n, bool) rd"
  ReadArrayHeaderBytes :: "('n, 32 word) rd"
  ReadMapHeaderBytes :: "('n, 32 word) rd"
  ReadStringBytes :: "('n, gostring) rd"
  ReadBytesBytes :: "('n, gostring) rd"
  ReadByteBytes :: "('n, 8 word) rd"
  ReadInt32Bytes :: "('n, 32 word) rd"
  ReadUint32Bytes :: "('n, 32 word) rd"
  ReadUint64Bytes :: "('n, 64 word) rd"

text \<open>The frame every generated \<^verbatim>\<open>UnmarshalMsgWithCfg\<close> has around its body: a leading nil puts
  the reader into the state in which every read returns a zero value.\<close>

definition unmarshal_top :: "'n msgp_lib \<Rightarrow> ('n, 'a) rd \<Rightarrow> gostring \<Rightarrow> msg_err + 'a \<times> gostring" where
  "unmarshal_top L body bts =
     (if IsNil L bts
      then (case body (PushAlwaysNil L (nbs_Init L, tl bts)) of
              Inl e \<Rightarrow> Inl e | Inr (z, n, r) \<Rightarrow> Inr (z, PopAlwaysNil L n))
      else (case body (nbs_Init L, bts) of Inl e \<Rightarrow> Inl e | Inr (z, n, r) \<Rightarrow> Inr (z, r)))"

text \<open>The check of the number of fields of a struct.\<close>

definition expect_array :: "'n msgp_lib \<Rightarrow> 32 word \<Rightarrow> ('n, unit) rd" where
  "expect_array L k =
     rbind (ReadArrayHeaderBytes L) (\<lambda>got. if got \<noteq> k then rfail ''ArrayError'' else rret ())"

text \<open>A byte slice field of a fresh struct; a nil on the wire is an empty slice.\<close>

definition read_bytes_field :: "'n msgp_lib \<Rightarrow> ('n, gostring) rd" where
  "read_bytes_field L = (\<lambda>(n, bts).
     if AlwaysNil L n \<or> IsNil L bts
     then Inr ([], n, if AlwaysNil L n then bts else tl bts)
     else ReadBytesBytes L (n, bts))"

text \<open>A field whose type has its own \<^verbatim>\<open>UnmarshalMsg\<close>, and a slice field: a reader in the state of a
  leading nil reads no elements.\<close>

definition nested :: "(gostring \<Rightarrow> msg_err + 'a \<times> gostring) \<Rightarrow> ('n, 'a) rd" where
  "nested f = (\<lambda>(n, bts). case f bts of Inl e \<Rightarrow> Inl e | Inr (z, r) \<Rightarrow> Inr (z, n, r))"

definition read_slice :: "'n msgp_lib \<Rightarrow> ('n, 'a) rd \<Rightarrow> ('n, 'a list) rd" where
  "read_slice L elem = (\<lambda>(n, bts).
     if AlwaysNil L n then Inr ([], n, bts)
     else rbind (ReadArrayHeaderBytes L) (\<lambda>k. rtimes (unat k) elem) (n, bts))"

text \<open>\<^verbatim>\<open>uint32(len(x))\<close>.\<close>

definition len32 :: "'a list \<Rightarrow> 32 word" where
  "len32 xs = word_of_nat (length xs)"

section \<open>What the generated code relies on\<close>

definition nil_byte :: "gostring \<Rightarrow> bool" where
  "nil_byte b \<longleftrightarrow> take 1 b = [0xc0]"

definition prim_ok ::
  "'n msgp_lib \<Rightarrow> (gostring \<Rightarrow> 'a \<Rightarrow> gostring) \<Rightarrow> ('n, 'a) rd \<Rightarrow> ('a \<Rightarrow> int) \<Rightarrow> ('a \<Rightarrow> bool) \<Rightarrow> bool" where
  "prim_ok L app rd bound P \<longleftrightarrow>
     (\<forall>b x. app b x = b @ app [] x) \<and>
     (\<forall>x. P x \<longrightarrow> app [] x \<noteq> [] \<and> \<not> nil_byte (app [] x) \<and> int (length (app [] x)) \<le> bound x) \<and>
     (\<forall>n x r. P x \<and> \<not> AlwaysNil L n \<longrightarrow> rd (n, app [] x @ r) = Inr (x, n, r))"

definition short :: "'a list \<Rightarrow> bool" where
  "short xs \<longleftrightarrow> length xs < 2 ^ 32"

definition msgp_ok :: "'n msgp_lib \<Rightarrow> bool" where
  "msgp_ok L \<longleftrightarrow>
     prim_ok L (AppendBool L) (ReadBoolBytes L) (\<lambda>_. BoolSize (sizes L)) (\<lambda>_. True) \<and>
     prim_ok L (AppendArrayHeader L) (ReadArrayHeaderBytes L) (\<lambda>_. ArrayHeaderSize (sizes L)) (\<lambda>_. True) \<and>
     prim_ok L (AppendMapHeader L) (ReadMapHeaderBytes L) (\<lambda>_. MapHeaderSize (sizes L)) (\<lambda>_. True) \<and>
     prim_ok L (AppendString L) (ReadStringBytes L) (\<lambda>s. StringPrefixSize (sizes L) + int (length s)) short \<and>
     prim_ok L (AppendBytes L) (ReadBytesBytes L) (\<lambda>s. BytesPrefixSize (sizes L) + int (length s)) short \<and>
     prim_ok L (AppendByte L) (ReadByteBytes L) (\<lambda>_. ByteSize (sizes L)) (\<lambda>_. True) \<and>
     prim_ok L (AppendInt32 L) (ReadInt32Bytes L) (\<lambda>_. Int32Size (sizes L)) (\<lambda>_. True) \<and>
     prim_ok L (AppendUint32 L) (ReadUint32Bytes L) (\<lambda>_. Uint32Size (sizes L)) (\<lambda>_. True) \<and>
     prim_ok L (AppendUint64 L) (ReadUint64Bytes L) (\<lambda>_. Uint64Size (sizes L)) (\<lambda>_. True) \<and>
     (\<forall>n k r. k < 16 \<and> \<not> AlwaysNil L n \<longrightarrow>
        ReadArrayHeaderBytes L (n, word_of_nat (0x90 + k) # r) = Inr (word_of_nat k, n, r)) \<and>
     (\<forall>n. \<not> AlwaysNil L n \<longrightarrow> isl (ReadArrayHeaderBytes L (n, []))) \<and>
     (\<forall>b. IsNil L b = nil_byte b) \<and>
     (\<forall>n b. \<not> AlwaysNil L n \<longrightarrow> PeekNil L n b = nil_byte b) \<and>
     \<not> AlwaysNil L (nbs_Init L)"

section \<open>An instance\<close>

text \<open>Fixed-size headers, followed by big-endian numbers. The state keeps the input behind a
  leading nil.\<close>

definition tagged :: "8 word \<Rightarrow> nat \<Rightarrow> (nat \<Rightarrow> 'a) \<Rightarrow> 'a \<Rightarrow> (gostring option, 'a) rd" where
  "tagged tag w f zero = (\<lambda>(n, b).
     if n \<noteq> None then Inr (zero, n, b)
     else if length b \<le> w \<or> hd b \<noteq> tag then Inl ''TypeError''
     else Inr (f (be_nat (take w (tl b))), n, drop w (tl b)))"

definition tagged_bytes :: "8 word \<Rightarrow> (gostring option, gostring) rd" where
  "tagged_bytes tag = rbind (tagged tag 4 id 0) (\<lambda>k. \<lambda>(n, b).
     if n \<noteq> None then Inr ([], n, b)
     else if length b < k then Inl ''ErrShortBytes'' else Inr (take k b, n, drop k b))"

definition wire_sizes :: msgp_sizes where
  "wire_sizes = \<lparr>BoolSize = 1, ArrayHeaderSize = 5, StringPrefixSize = 5, BytesPrefixSize = 5, ByteSize = 2,
     Int32Size = 5, Uint32Size = 5, Uint64Size = 9, MapHeaderSize = 5, NilSize = 1\<rparr>"

definition wire :: "(gostring option) msgp_lib" where
  "wire =
    \<lparr>sizes = wire_sizes,
     AppendBool = (\<lambda>b x. b @ [if x then 0xc3 else 0xc2]),
     AppendArrayHeader = (\<lambda>b x. b @ (if unat x < 16 then [word_of_nat (0x90 + unat x)] else 0xdd # be_bytes 4 (unat x))),
     AppendMapHeader = (\<lambda>b x. b @ 0xdf # be_bytes 4 (unat x)),
     AppendString = (\<lambda>b s. b @ 0xdb # be_bytes 4 (length s) @ s),
     AppendBytes = (\<lambda>b s. b @ 0xc6 # be_bytes 4 (length s) @ s),
     AppendByte = (\<lambda>b x. b @ 0xcc # be_bytes 1 (unat x)),
     AppendInt32 = (\<lambda>b x. b @ 0xd2 # be_bytes 4 (unat x)),
     AppendUint32 = (\<lambda>b x. b @ 0xce # be_bytes 4 (unat x)),
     AppendUint64 = (\<lambda>b x. b @ 0xcf # be_bytes 8 (unat x)),
     IsNil = nil_byte,
     nbs_Init = None,
     PushAlwaysNil = (\<lambda>(n, b). (Some b, [])),
     PopAlwaysNil = (\<lambda>n. case n of None \<Rightarrow> [] | Some b \<Rightarrow> b),
     AlwaysNil = (\<lambda>n. n \<noteq> None),
     PeekNil = (\<lambda>n b. n \<noteq> None \<or> nil_byte b),
     ReadNilBytes = (\<lambda>(n, b). if n \<noteq> None then Inr ((), n, b) else if nil_byte b then Inr ((), n, tl b) else Inl ''TypeError''),
     ReadBoolBytes = (\<lambda>(n, b). if n \<noteq> None then Inr (False, n, b) else
        case b of [] \<Rightarrow> Inl ''ErrShortBytes''
        | c # r \<Rightarrow> if c = 0xc3 then Inr (True, n, r) else if c = 0xc2 then Inr (False, n, r) else Inl ''TypeError''),
     ReadArrayHeaderBytes = (\<lambda>(n, b). if n \<noteq> None then Inr (0, n, b) else
        case b of [] \<Rightarrow> Inl ''ErrShortBytes''
        | c # r \<Rightarrow> if 0x90 \<le> unat c \<and> unat c < 0xa0 then Inr (word_of_nat (unat c - 0x90), n, r) else tagged 0xdd 4 word_of_nat 0 (n, b)),
     ReadMapHeaderBytes = tagged 0xdf 4 word_of_nat 0,
     ReadStringBytes = tagged_bytes 0xdb,
     ReadBytesBytes = tagged_bytes 0xc6,
     ReadByteBytes = tagged 0xcc 1 word_of_nat 0,
     ReadInt32Bytes = tagged 0xd2 4 word_of_nat 0,
     ReadUint32Bytes = tagged 0xce 4 word_of_nat 0,
     ReadUint64Bytes = tagged 0xcf 8 word_of_nat 0\<rparr>"

section \<open>Lemmas\<close>

lemma rbind_Inr [simp]: "m s = Inr (x, s') \<Longrightarrow> rbind m f s = f x s'"
  by (simp add: rbind_def)

lemma rbind_Inl [simp]: "m s = Inl e \<Longrightarrow> rbind m f s = Inl e"
  by (simp add: rbind_def)

lemma rret_apply [simp]: "rret x s = Inr (x, s)"
  by (simp add: rret_def)

lemma rfail_apply [simp]: "rfail e s = Inl e"
  by (simp add: rfail_def)

lemma unat_len32: "short xs \<Longrightarrow> unat (len32 xs) = length xs"
  by (simp add: len32_def short_def unsigned_of_nat take_bit_nat_eq_self)

lemma nil_byte_append: "b \<noteq> [] \<Longrightarrow> nil_byte (b @ r) = nil_byte b"
  by (cases b) (simp_all add: nil_byte_def)

lemma nil_byte_Cons [simp]: "nil_byte (x # b) \<longleftrightarrow> x = 0xc0"
  by (simp add: nil_byte_def)

lemma prim_okD:
  assumes "prim_ok L app rd bound P"
  shows "app b x = b @ app [] x"
    "P x \<Longrightarrow> int (length (app [] x)) \<le> bound x"
    "P x \<Longrightarrow> app [] x \<noteq> []"
    "P x \<Longrightarrow> \<not> nil_byte (app [] x @ r)"
    "P x \<Longrightarrow> \<not> AlwaysNil L n \<Longrightarrow> rd (n, app [] x @ r) = Inr (x, n, r)"
    "P x \<Longrightarrow> \<not> AlwaysNil L n \<Longrightarrow> rd (n, app [] x) = Inr (x, n, [])"
proof -
  note a = assms [unfolded prim_ok_def, THEN conjunct2, THEN conjunct1, rule_format]
  note b = assms [unfolded prim_ok_def, THEN conjunct2, THEN conjunct2, rule_format]
  show "app b x = b @ app [] x" by (rule assms [unfolded prim_ok_def, THEN conjunct1, rule_format])
  assume P: "P x"
  then show "int (length (app [] x)) \<le> bound x" "app [] x \<noteq> []" using a by blast+
  then show "\<not> nil_byte (app [] x @ r)" using a [OF P] nil_byte_append by blast
  assume "\<not> AlwaysNil L n"
  with P have r: "rd (n, app [] x @ r) = Inr (x, n, r)" for r by (blast intro: b)
  show "rd (n, app [] x @ r) = Inr (x, n, r)" by (rule r)
  show "rd (n, app [] x) = Inr (x, n, [])" using r [of "[]"] by simp
qed

lemma msgp_prims:
  assumes "msgp_ok L"
  shows "prim_ok L (AppendBool L) (ReadBoolBytes L) (\<lambda>_. BoolSize (sizes L)) (\<lambda>_. True)"
    "prim_ok L (AppendArrayHeader L) (ReadArrayHeaderBytes L) (\<lambda>_. ArrayHeaderSize (sizes L)) (\<lambda>_. True)"
    "prim_ok L (AppendMapHeader L) (ReadMapHeaderBytes L) (\<lambda>_. MapHeaderSize (sizes L)) (\<lambda>_. True)"
    "prim_ok L (AppendString L) (ReadStringBytes L) (\<lambda>s. StringPrefixSize (sizes L) + int (length s)) short"
    "prim_ok L (AppendBytes L) (ReadBytesBytes L) (\<lambda>s. BytesPrefixSize (sizes L) + int (length s)) short"
    "prim_ok L (AppendByte L) (ReadByteBytes L) (\<lambda>_. ByteSize (sizes L)) (\<lambda>_. True)"
    "prim_ok L (AppendInt32 L) (ReadInt32Bytes L) (\<lambda>_. Int32Size (sizes L)) (\<lambda>_. True)"
    "prim_ok L (AppendUint32 L) (ReadUint32Bytes L) (\<lambda>_. Uint32Size (sizes L)) (\<lambda>_. True)"
    "prim_ok L (AppendUint64 L) (ReadUint64Bytes L) (\<lambda>_. Uint64Size (sizes L)) (\<lambda>_. True)"
  using assms unfolding msgp_ok_def by - (elim conjE, assumption)+

lemma expect_array_empty: "msgp_ok L \<Longrightarrow> \<not> AlwaysNil L n \<Longrightarrow> isl (expect_array L k (n, []))"
  by (auto simp: msgp_ok_def expect_array_def rbind_def isl_def split: sum.split)

lemma msgp_nil:
  assumes "msgp_ok L"
  shows "IsNil L b = nil_byte b" "\<not> AlwaysNil L n \<Longrightarrow> PeekNil L n b = nil_byte b" "\<not> AlwaysNil L (nbs_Init L)"
  using assms by (simp_all add: msgp_ok_def)

text \<open>A small array header reads as its length.\<close>

lemma expect_array_ok:
  assumes "msgp_ok L" "\<not> AlwaysNil L n"
  shows "expect_array L 1 (n, 0x91 # r) = Inr ((), n, r)" "expect_array L 2 (n, 0x92 # r) = Inr ((), n, r)"
    "expect_array L 3 (n, 0x93 # r) = Inr ((), n, r)" "expect_array L 10 (n, 0x9a # r) = Inr ((), n, r)"
    "expect_array L 11 (n, 0x9b # r) = Inr ((), n, r)" "expect_array L 6 (n, 0x96 # r) = Inr ((), n, r)"
proof -
  have "ReadArrayHeaderBytes L (n, word_of_nat (0x90 + k) # r) = Inr (word_of_nat k, n, r)" if "k < 16" for k
    using assms that by (simp add: msgp_ok_def)
  from this [of 1] this [of 2] this [of 3] this [of 10] this [of 11] this [of 6] show
    "expect_array L 1 (n, 0x91 # r) = Inr ((), n, r)" "expect_array L 2 (n, 0x92 # r) = Inr ((), n, r)"
    "expect_array L 3 (n, 0x93 # r) = Inr ((), n, r)" "expect_array L 10 (n, 0x9a # r) = Inr ((), n, r)"
    "expect_array L 11 (n, 0x9b # r) = Inr ((), n, r)" "expect_array L 6 (n, 0x96 # r) = Inr ((), n, r)"
    by (simp_all add: expect_array_def)
qed

text \<open>The encodings are appended one after the other: with the accumulator split off, every
  \<^verbatim>\<open>Append\<close> is a concatenation.\<close>

lemma msgp_append:
  assumes "msgp_ok L" "b \<noteq> []"
  shows "AppendBool L b x = b @ AppendBool L [] x"
    "AppendArrayHeader L b h = b @ AppendArrayHeader L [] h"
    "AppendMapHeader L b h = b @ AppendMapHeader L [] h"
    "AppendString L b s = b @ AppendString L [] s"
    "AppendBytes L b s = b @ AppendBytes L [] s"
    "AppendByte L b c = b @ AppendByte L [] c"
    "AppendInt32 L b h = b @ AppendInt32 L [] h"
    "AppendUint32 L b h = b @ AppendUint32 L [] h"
    "AppendUint64 L b w = b @ AppendUint64 L [] w"
  by (rule msgp_prims [OF assms(1), THEN prim_okD(1)])+

lemma msgp_read:
  assumes "msgp_ok L" "\<not> AlwaysNil L n"
  shows "ReadBoolBytes L (n, AppendBool L [] x @ r) = Inr (x, n, r)"
    "ReadArrayHeaderBytes L (n, AppendArrayHeader L [] h @ r) = Inr (h, n, r)"
    "ReadMapHeaderBytes L (n, AppendMapHeader L [] h @ r) = Inr (h, n, r)"
    "short s \<Longrightarrow> ReadStringBytes L (n, AppendString L [] s @ r) = Inr (s, n, r)"
    "short s \<Longrightarrow> ReadBytesBytes L (n, AppendBytes L [] s @ r) = Inr (s, n, r)"
    "ReadByteBytes L (n, AppendByte L [] c @ r) = Inr (c, n, r)"
    "ReadInt32Bytes L (n, AppendInt32 L [] h @ r) = Inr (h, n, r)"
    "ReadUint32Bytes L (n, AppendUint32 L [] h @ r) = Inr (h, n, r)"
    "ReadUint64Bytes L (n, AppendUint64 L [] w @ r) = Inr (w, n, r)"
  using prim_okD(5) [OF msgp_prims(1) [OF assms(1)] _ assms(2)] prim_okD(5) [OF msgp_prims(2) [OF assms(1)] _ assms(2)]
    prim_okD(5) [OF msgp_prims(3) [OF assms(1)] _ assms(2)] prim_okD(5) [OF msgp_prims(4) [OF assms(1)] _ assms(2)]
    prim_okD(5) [OF msgp_prims(5) [OF assms(1)] _ assms(2)] prim_okD(5) [OF msgp_prims(6) [OF assms(1)] _ assms(2)]
    prim_okD(5) [OF msgp_prims(7) [OF assms(1)] _ assms(2)] prim_okD(5) [OF msgp_prims(8) [OF assms(1)] _ assms(2)]
    prim_okD(5) [OF msgp_prims(9) [OF assms(1)] _ assms(2)]
  by simp_all

lemma read_bytes_field_ok:
  assumes "msgp_ok L" "\<not> AlwaysNil L n" "short s"
  shows "read_bytes_field L (n, AppendBytes L [] s @ r) = Inr (s, n, r)"
  using assms prim_okD(4) [OF msgp_prims(5) [OF assms(1)] assms(3)]
  by (simp add: read_bytes_field_def msgp_nil [OF assms(1)] msgp_read)

lemma msgp_bound:
  assumes "msgp_ok L"
  shows "int (length (AppendBool L [] x)) \<le> BoolSize (sizes L)"
    "int (length (AppendArrayHeader L [] h)) \<le> ArrayHeaderSize (sizes L)"
    "int (length (AppendMapHeader L [] h)) \<le> MapHeaderSize (sizes L)"
    "short s \<Longrightarrow> int (length (AppendString L [] s)) \<le> StringPrefixSize (sizes L) + int (length s)"
    "short s \<Longrightarrow> int (length (AppendBytes L [] s)) \<le> BytesPrefixSize (sizes L) + int (length s)"
    "int (length (AppendByte L [] c)) \<le> ByteSize (sizes L)"
    "int (length (AppendInt32 L [] h)) \<le> Int32Size (sizes L)"
    "int (length (AppendUint32 L [] h)) \<le> Uint32Size (sizes L)"
    "int (length (AppendUint64 L [] w)) \<le> Uint64Size (sizes L)"
  using prim_okD(2) [OF msgp_prims(1) [OF assms]] prim_okD(2) [OF msgp_prims(2) [OF assms]]
    prim_okD(2) [OF msgp_prims(3) [OF assms]] prim_okD(2) [OF msgp_prims(4) [OF assms]]
    prim_okD(2) [OF msgp_prims(5) [OF assms]] prim_okD(2) [OF msgp_prims(6) [OF assms]]
    prim_okD(2) [OF msgp_prims(7) [OF assms]] prim_okD(2) [OF msgp_prims(8) [OF assms]]
    prim_okD(2) [OF msgp_prims(9) [OF assms]]
  by simp_all

text \<open>A loop reads back a concatenation of encodings.\<close>

lemma rtimes_ok:
  assumes "\<And>x r. x \<in> set xs \<Longrightarrow> m (n, enc x @ r) = Inr (g x, n, r)"
  shows "rtimes (length xs) m (n, concat (map enc xs) @ r) = Inr (map g xs, n, r)"
  using assms by (induction xs) simp_all

lemma nested_ok: "f b = Inr (z, r) \<Longrightarrow> nested f (n, b) = Inr (z, n, r)"
  by (simp add: nested_def)

lemma read_slice_ok:
  assumes "msgp_ok L" "\<not> AlwaysNil L n" "short xs" "\<And>x r. x \<in> set xs \<Longrightarrow> elem (n, enc x @ r) = Inr (x, n, r)"
  shows "read_slice L elem (n, AppendArrayHeader L [] (len32 xs) @ concat (map enc xs) @ r) = Inr (xs, n, r)"
  using rtimes_ok [of xs elem n enc id r] assms by (simp add: read_slice_def msgp_read unat_len32)

lemma foldl_append:
  assumes "\<And>b x. b \<noteq> [] \<Longrightarrow> f b x = b @ enc x" "b \<noteq> []"
  shows "foldl f b xs = b @ concat (map enc xs)"
  using assms(2) by (induction xs arbitrary: b) (simp_all add: assms(1))

lemma unmarshal_top_ok:
  assumes "msgp_ok L" "\<not> nil_byte bts" "body (nbs_Init L, bts) = Inr (z, n, r)"
  shows "unmarshal_top L body bts = Inr (z, r)"
  using assms by (simp add: unmarshal_top_def msgp_nil)

section \<open>The instance keeps the promises\<close>

lemma tagged_ok:
  "tagged tag w f zero (None, tag # be_bytes w k @ r) = Inr (f (k mod 256 ^ w), None, r)"
  by (simp add: tagged_def be_nat_be_bytes)

lemma tagged_bytes_ok:
  "short s \<Longrightarrow> tagged_bytes tag (None, tag # be_bytes 4 (length s) @ s @ r) = Inr (s, None, r)"
  by (simp add: tagged_bytes_def tagged_ok [where r = "s @ r"] short_def)

lemma unat_mod_256: "unat (x :: 8 word) mod 256 ^ 1 = unat x" "unat (y :: 32 word) mod 256 ^ 4 = unat y"
  "unat (z :: 64 word) mod 256 ^ 8 = unat z"
  using unsigned_less [of x, where 'a = nat] unsigned_less [of y, where 'a = nat] unsigned_less [of z, where 'a = nat]
  by simp_all

lemma unat_mod_256_simp: "unat (x :: 8 word) mod 256 = unat x" "unat (y :: 32 word) mod 4294967296 = unat y"
  "unat (z :: 64 word) mod 18446744073709551616 = unat z"
  using unat_mod_256(1) [of x] unat_mod_256(2) [of y] unat_mod_256(3) [of z] by simp_all

lemma wire_num_ok:
  assumes "tag \<noteq> 0xc0" "\<And>x. f (g x mod 256 ^ w) = x"
  shows "prim_ok wire (\<lambda>b x. b @ tag # be_bytes w (g x)) (tagged tag w f zero) (\<lambda>_. int (Suc w)) (\<lambda>_. True)"
  using assms by (auto simp: prim_ok_def tagged_ok wire_def)

lemma wire_bytes_ok:
  assumes "tag \<noteq> 0xc0"
  shows "prim_ok wire (\<lambda>b s. b @ tag # be_bytes 4 (length s) @ s) (tagged_bytes tag) (\<lambda>s. 5 + int (length s)) short"
  using assms by (auto simp: prim_ok_def tagged_bytes_ok wire_def)

lemma fixarray_byte: "k < 16 \<Longrightarrow> unat (word_of_nat (0x90 + k) :: 8 word) = 0x90 + k"
  by (simp only: unsigned_of_nat) (simp add: take_bit_nat_eq_self)

lemma wire_array_ok:
  "prim_ok wire (AppendArrayHeader wire) (ReadArrayHeaderBytes wire) (\<lambda>_. 5) (\<lambda>_. True)"
proof -
  have c0: "(word_of_nat (0x90 + k) :: 8 word) \<noteq> 0xc0" if "k < 16" for k
    using fixarray_byte [OF that] that by auto
  show ?thesis
    unfolding prim_ok_def
    by (auto simp: wire_def tagged_ok unat_mod_256_simp fixarray_byte c0 simp del: of_nat_add)
qed

lemma wire_bool_ok: "prim_ok wire (AppendBool wire) (ReadBoolBytes wire) (\<lambda>_. 1) (\<lambda>_. True)"
  by (simp add: prim_ok_def wire_def)

theorem wire_ok: "msgp_ok wire"
proof -
  have sz: "sizes wire = wire_sizes" by (simp add: wire_def)
  note num = wire_num_ok [where w = 4 and f = word_of_nat and g = unat and zero = "0 :: 32 word"]
    and num8 = wire_num_ok [where w = 8 and f = word_of_nat and g = unat and zero = "0 :: 64 word"]
    and num1 = wire_num_ok [where w = 1 and f = word_of_nat and g = unat and zero = "0 :: 8 word"]
  have fields: "AppendMapHeader wire = (\<lambda>b x. b @ 0xdf # be_bytes 4 (unat x))"
    "AppendByte wire = (\<lambda>b x. b @ 0xcc # be_bytes 1 (unat x))" "AppendInt32 wire = (\<lambda>b x. b @ 0xd2 # be_bytes 4 (unat x))"
    "AppendUint32 wire = (\<lambda>b x. b @ 0xce # be_bytes 4 (unat x))" "AppendUint64 wire = (\<lambda>b x. b @ 0xcf # be_bytes 8 (unat x))"
    "ReadMapHeaderBytes wire = tagged 0xdf 4 word_of_nat 0" "ReadByteBytes wire = tagged 0xcc 1 word_of_nat 0"
    "ReadInt32Bytes wire = tagged 0xd2 4 word_of_nat 0" "ReadUint32Bytes wire = tagged 0xce 4 word_of_nat 0"
    "ReadUint64Bytes wire = tagged 0xcf 8 word_of_nat 0"
    by (simp_all add: wire_def)
  show ?thesis
    unfolding msgp_ok_def sz
  proof (intro conjI)
    show "prim_ok wire (AppendBool wire) (ReadBoolBytes wire) (\<lambda>_. BoolSize wire_sizes) (\<lambda>_. True)"
      using wire_bool_ok by (simp add: wire_sizes_def)
    show "prim_ok wire (AppendArrayHeader wire) (ReadArrayHeaderBytes wire) (\<lambda>_. ArrayHeaderSize wire_sizes) (\<lambda>_. True)"
      using wire_array_ok by (simp add: wire_sizes_def)
    show "prim_ok wire (AppendString wire) (ReadStringBytes wire) (\<lambda>s. StringPrefixSize wire_sizes + int (length s)) short"
      using wire_bytes_ok [of "0xdb"] by (simp add: wire_sizes_def) (simp add: wire_def)
    show "prim_ok wire (AppendBytes wire) (ReadBytesBytes wire) (\<lambda>s. BytesPrefixSize wire_sizes + int (length s)) short"
      using wire_bytes_ok [of "0xc6"] by (simp add: wire_sizes_def) (simp add: wire_def)
    show "\<forall>n k r. k < 16 \<and> \<not> AlwaysNil wire n \<longrightarrow>
        ReadArrayHeaderBytes wire (n, word_of_nat (144 + k) # r) = Inr (word_of_nat k, n, r)"
      by (auto simp: wire_def fixarray_byte simp del: of_nat_add)
    show "prim_ok wire (AppendMapHeader wire) (ReadMapHeaderBytes wire) (\<lambda>_. MapHeaderSize wire_sizes) (\<lambda>_. True)"
      using num [of "0xdf"] unfolding fields wire_sizes_def by (simp add: unat_mod_256_simp)
    show "prim_ok wire (AppendByte wire) (ReadByteBytes wire) (\<lambda>_. ByteSize wire_sizes) (\<lambda>_. True)"
      using num1 [of "0xcc"] unfolding fields wire_sizes_def by (simp add: unat_mod_256_simp)
    show "prim_ok wire (AppendInt32 wire) (ReadInt32Bytes wire) (\<lambda>_. Int32Size wire_sizes) (\<lambda>_. True)"
      using num [of "0xd2"] unfolding fields wire_sizes_def by (simp add: unat_mod_256_simp)
    show "prim_ok wire (AppendUint32 wire) (ReadUint32Bytes wire) (\<lambda>_. Uint32Size wire_sizes) (\<lambda>_. True)"
      using num [of "0xce"] unfolding fields wire_sizes_def by (simp add: unat_mod_256_simp)
    show "prim_ok wire (AppendUint64 wire) (ReadUint64Bytes wire) (\<lambda>_. Uint64Size wire_sizes) (\<lambda>_. True)"
      using num8 [of "0xcf"] unfolding fields wire_sizes_def by (simp add: unat_mod_256_simp)
  qed (auto simp: wire_def)
qed

end
