(* ===== verification/IbNode.thy ===== *)
theory IbNode
  imports Greenpack
begin

text \<open>
  The nodes of the copy-on-write B+ tree (src/ibtree/ibtree\_greenpack.go,
  src/ibtree/ibtree.go, src/ibtree/nodedata.go).

  A \<^verbatim>\<open>Node\<close> embeds its \<^verbatim>\<open>NodeData\<close>; here the two structs are one datatype. Every pointer the
  code follows is immutable once published, so a pointer to a node is the node, and a nil
  pointer is \<open>None\<close>. The \<^verbatim>\<open>tree\<close> pointer every node carries is the parameter \<open>t\<close> of the
  operations. The storage behind the tree is an interface (\<^verbatim>\<open>TreeBackend\<close>): its current
  \<^verbatim>\<open>LoadNode\<close> is the field \<open>backend\<close> of the tree, \<open>None\<close> where the code has a nil
  backend. The size constants of the serialisation package are a field of the tree too.

  The second half is the specification side: \<open>contents\<close> reads a node of a given height as
  the list of its entries, loading what is not in memory, and \<open>wfn\<close> says that the node is
  the root of a subtree of that height whose separator keys are the first keys below them.
  The value of a child above the leaves is a block id or the placeholder, which has the
  length of one.
\<close>

section \<open>Data\<close>

datatype node = Node (Leafy: bool) (Children: "ndchild list") (blockId: "gostring option")
  and ndchild = NodeDataChild (Key: gostring) (Value: gostring) (childNode: "node option")

type_synonym nodedata = "bool \<times> ndchild list"

record tree =
  NodeMaximumSize :: int
  halfSize :: int
  smallSize :: int
  placeholderValue :: gostring
  backend :: "(gostring \<Rightarrow> nodedata option) option"
  msgp :: msgp_sizes

definition hashSize :: nat where "hashSize = 32"
definition minimumNodeMaximumSize :: int where "minimumNodeMaximumSize = 512"
definition maximumTreeDepth :: nat where "maximumTreeDepth = 10"

section \<open>Operations\<close>

definition setNodeMaximumSize :: "int \<Rightarrow> tree \<Rightarrow> tree" where
  "setNodeMaximumSize maximumSize t =
     (let h = maximumSize div 2
      in t\<lparr>NodeMaximumSize := maximumSize, halfSize := h, smallSize := h div 2\<rparr>)"

definition Tree_Init :: "tree \<Rightarrow> (gostring \<Rightarrow> nodedata option) option \<Rightarrow> tree" where
  "Tree_Init t be =
     (let maximumSize = (if NodeMaximumSize t < minimumNodeMaximumSize
                         then minimumNodeMaximumSize else NodeMaximumSize t)
      in (setNodeMaximumSize maximumSize t)
           \<lparr>backend := be,
            placeholderValue := bytes_of ''hash-'' @ replicate (hashSize - 5) 0x78\<rparr>)"

definition LoadRoot :: "tree \<Rightarrow> gostring \<Rightarrow> node option res" where
  "LoadRoot t bid =
     (case backend t of
        None \<Rightarrow> Inl NilPointer
      | Some load \<Rightarrow>
          (case load bid of
             None \<Rightarrow> Inr None
           | Some (leafy, cs) \<Rightarrow> Inr (Some (Node leafy cs (Some bid)))))"

definition NewRoot :: "tree \<Rightarrow> node" where
  "NewRoot t = Node True [] None"

definition NodeDataChild_Msgsize :: "msgp_sizes \<Rightarrow> ndchild \<Rightarrow> int" where
  "NodeDataChild_Msgsize sz z =
     1 + StringPrefixSize sz + int (length (Key z)) + StringPrefixSize sz + int (length (Value z))"

definition NodeData_Msgsize :: "msgp_sizes \<Rightarrow> nodedata \<Rightarrow> int" where
  "NodeData_Msgsize sz z =
     foldl (\<lambda>s c. s + (1 + StringPrefixSize sz + int (length (Key c)) + StringPrefixSize sz + int (length (Value c))))
       (1 + BoolSize sz + ArrayHeaderSize sz) (snd z)"

text \<open>A node has the methods of the \<^verbatim>\<open>NodeData\<close> it embeds.\<close>

definition Msgsize :: "tree \<Rightarrow> node \<Rightarrow> int" where
  "Msgsize t n = NodeData_Msgsize (msgp t) (Leafy n, Children n)"

abbreviation Child_Msgsize :: "tree \<Rightarrow> ndchild \<Rightarrow> int" where
  "Child_Msgsize t c \<equiv> NodeDataChild_Msgsize (msgp t) c"

text \<open>The loop of \<^verbatim>\<open>CheckNodeStructure\<close>, with the key of the previous child. A nil child
  cannot occur in a \<^verbatim>\<open>Children\<close> list of the model; the code that builds one from nil
  pointers is \<open>rewriteNodeChildren\<close>, which makes that check.\<close>

fun CheckNodeStructure_loop :: "gostring option \<Rightarrow> ndchild list \<Rightarrow> unit res" where
  "CheckNodeStructure_loop prev [] = Inr ()"
| "CheckNodeStructure_loop prev (c # cs) =
     (if Key c = [] then Inl (PanicMsg ''tree broke: empty key'')
      else case prev of
        None \<Rightarrow> CheckNodeStructure_loop (Some (Key c)) cs
      | Some k0 \<Rightarrow>
          (if k0 \<ge> Key c then Inl (PanicMsg ''tree broke: order'')
           else CheckNodeStructure_loop (Some (Key c)) cs))"

definition CheckNodeStructure :: "node \<Rightarrow> unit res" where
  "CheckNodeStructure n = CheckNodeStructure_loop None (Children n)"

definition Node_childNode :: "tree \<Rightarrow> node \<Rightarrow> nat \<Rightarrow> node option res" where
  "Node_childNode t n idx =
     bindE (arr_get (Children n) idx) (\<lambda>c.
       case childNode c of
         Some m \<Rightarrow> Inr (Some m)
       | None \<Rightarrow>
           (case backend t of
              None \<Rightarrow> Inr None
            | Some load \<Rightarrow>
                (case load (Value c) of
                   None \<Rightarrow> Inl (PanicMsg ''childNode - backend LoadNode failed'')
                 | Some (leafy, cs) \<Rightarrow> Inr (Some (Node leafy cs (Some (Value c)))))))"

section \<open>Specification: contents and well-formedness\<close>

definition resolve :: "tree \<Rightarrow> ndchild \<Rightarrow> node option" where
  "resolve t c =
     (case childNode c of
        Some m \<Rightarrow> Some m
      | None \<Rightarrow>
          (case backend t of
             None \<Rightarrow> None
           | Some load \<Rightarrow>
               map_option (\<lambda>(leafy, cs). Node leafy cs (Some (Value c))) (load (Value c))))"

definition entry :: "ndchild \<Rightarrow> kv" where
  "entry c = (Key c, Value c)"

primrec contents :: "tree \<Rightarrow> nat \<Rightarrow> node \<Rightarrow> kv list" where
  "contents t 0 n = map entry (Children n)"
| "contents t (Suc d) n =
     concat (map (\<lambda>c. case resolve t c of None \<Rightarrow> [] | Some m \<Rightarrow> contents t d m) (Children n))"

text \<open>The entries below one child, whose node (if any) has height \<open>d - 1\<close>; at height 0 the
  child is an entry itself.\<close>

definition ccont :: "tree \<Rightarrow> nat \<Rightarrow> ndchild \<Rightarrow> kv list" where
  "ccont t d c =
     (case d of 0 \<Rightarrow> [entry c]
      | Suc d' \<Rightarrow> (case resolve t c of None \<Rightarrow> [] | Some m \<Rightarrow> contents t d' m))"

primrec wfn :: "tree \<Rightarrow> nat \<Rightarrow> node \<Rightarrow> bool" where
  "wfn t 0 n \<longleftrightarrow> Leafy n \<and> (\<forall>c \<in> set (Children n). childNode c = None)"
| "wfn t (Suc d) n \<longleftrightarrow>
     \<not> Leafy n \<and>
     (\<forall>c \<in> set (Children n). length (Value c) \<le> length (placeholderValue t) \<and>
        (\<exists>m. resolve t c = Some m \<and> wfn t d m \<and> Children m \<noteq> [] \<and> Key c = Key (hd (Children m))))"

definition wfc :: "tree \<Rightarrow> nat \<Rightarrow> ndchild \<Rightarrow> bool" where
  "wfc t d c \<longleftrightarrow>
     (case d of 0 \<Rightarrow> childNode c = None
      | Suc d' \<Rightarrow> length (Value c) \<le> length (placeholderValue t) \<and>
          (\<exists>m. resolve t c = Some m \<and> wfn t d' m \<and> Children m \<noteq> [] \<and> Key c = Key (hd (Children m))))"

text \<open>A whole tree: a well-formed root of some height, non-empty above the leaves, whose
  entries are in strictly increasing order of non-empty keys.\<close>

definition wf_tree :: "tree \<Rightarrow> nat \<Rightarrow> node \<Rightarrow> bool" where
  "wf_tree t d n \<longleftrightarrow>
     wfn t d n \<and> (0 < d \<longrightarrow> Children n \<noteq> []) \<and> ordered (contents t d n)"

section \<open>Lemmas\<close>

lemma contents_eq: "contents t d n = concat (map (ccont t d) (Children n))"
proof (cases d)
  case 0
  have "concat (map (\<lambda>c. [entry c]) cs) = map entry cs" for cs
    by (induction cs) simp_all
  with 0 show ?thesis by (simp add: ccont_def [abs_def])
next
  case (Suc d')
  then show ?thesis by (simp add: ccont_def [abs_def])
qed

lemma wfn_eq: "wfn t d n \<longleftrightarrow> (Leafy n \<longleftrightarrow> d = 0) \<and> (\<forall>c \<in> set (Children n). wfc t d c)"
  by (cases d) (auto simp: wfc_def)

lemma wfn_Leafy: "wfn t d n \<Longrightarrow> Leafy n \<longleftrightarrow> d = 0"
  by (simp add: wfn_eq)

lemma wfc_Suc_obtain:
  assumes "wfc t (Suc d) c"
  obtains m where "resolve t c = Some m" "wfn t d m" "Children m \<noteq> []"
    "Key c = Key (hd (Children m))" "ccont t (Suc d) c = contents t d m"
  using assms by (auto simp: wfc_def ccont_def)

lemma contents_hd:
  "wfn t d n \<Longrightarrow> Children n \<noteq> [] \<Longrightarrow>
     contents t d n \<noteq> [] \<and> fst (hd (contents t d n)) = Key (hd (Children n))"
proof (induction d arbitrary: n)
  case 0
  then show ?case by (simp add: hd_map entry_def)
next
  case (Suc d)
  then obtain c cs where cs: "Children n = c # cs" by (cases "Children n") auto
  with Suc.prems obtain m where m: "resolve t c = Some m" "wfn t d m" "Children m \<noteq> []"
    "Key c = Key (hd (Children m))" by auto
  have "contents t d m \<noteq> [] \<and> fst (hd (contents t d m)) = Key (hd (Children m))"
    by (rule Suc.IH [OF m(2,3)])
  with cs m show ?case by simp
qed

lemma ccont_hd: "wfc t d c \<Longrightarrow> ccont t d c \<noteq> [] \<and> fst (hd (ccont t d c)) = Key c"
proof (cases d)
  case 0
  then show ?thesis by (simp add: ccont_def entry_def)
next
  case (Suc d')
  assume "wfc t d c"
  with Suc show ?thesis
    by (auto elim!: wfc_Suc_obtain dest: contents_hd)
qed

lemma ccont_key_mem: "wfc t d c \<Longrightarrow> Key c \<in> fst ` set (ccont t d c)"
  using ccont_hd [of t d c] by (metis hd_in_set image_eqI)

lemma ccont_key_le:
  assumes "wfc t d c" "ordered (ccont t d c)" "p \<in> set (ccont t d c)"
  shows "Key c \<le> fst p"
proof -
  obtain q qs where "ccont t d c = q # qs" "fst q = Key c"
    using ccont_hd [OF assms(1)] by (cases "ccont t d c") auto
  with assms(2,3) show ?thesis by (auto simp: ordered_Cons)
qed

text \<open>Separator keys of a list of well-formed children are in order when the entries are.\<close>

lemma ordered_keys:
  assumes "\<forall>c \<in> set cs. wfc t d c" "ordered (concat (map (ccont t d) cs))"
  shows "sorted_wrt (<) (map Key cs)" "[] \<notin> Key ` set cs"
proof -
  have "sorted_wrt (<) (map Key cs) \<and> [] \<notin> Key ` set cs"
    using assms
  proof (induction cs)
    case (Cons c cs)
    obtain p where p: "p \<in> set (ccont t d c)" "Key c = fst p"
      using Cons.prems ccont_key_mem [of t d c] by auto
    have ord: "ordered (ccont t d c)" "ordered (concat (map (ccont t d) cs))"
      and sep: "\<forall>p \<in> set (ccont t d c). \<forall>q \<in> set (concat (map (ccont t d) cs)). fst p < fst q"
      using Cons.prems(2) by (simp_all add: ordered_append)
    have "Key c \<noteq> []" using p ord(1) by (metis ordered_def imageI)
    have "Key c < Key x" if "x \<in> set cs" for x
    proof -
      have "Key x \<in> fst ` set (ccont t d x)"
        by (rule ccont_key_mem) (use Cons.prems(1) that in simp)
      then obtain q where q: "q \<in> set (ccont t d x)" "Key x = fst q" by (rule imageE)
      then have "q \<in> set (concat (map (ccont t d) cs))" using that by auto
      with sep p(1) have "fst p < fst q" by blast
      with p q show ?thesis by simp
    qed
    with Cons.IH Cons.prems(1) ord \<open>Key c \<noteq> []\<close> show ?case by auto
  qed simp
  then show "sorted_wrt (<) (map Key cs)" "[] \<notin> Key ` set cs" by auto
qed

lemma CheckNodeStructure_loop_ok:
  assumes "sorted_wrt (<) (map Key cs)" "[] \<notin> Key ` set cs"
    and "\<forall>k. prev = Some k \<longrightarrow> (\<forall>c \<in> set cs. k < Key c)"
  shows "CheckNodeStructure_loop prev cs = Inr ()"
  using assms
proof (induction cs arbitrary: prev)
  case (Cons c cs)
  then have "CheckNodeStructure_loop (Some (Key c)) cs = Inr ()" by simp
  moreover have "\<not> Key c \<le> k" if "prev = Some k" for k
    using Cons.prems(3) that by (simp add: not_le)
  moreover have "Key c \<noteq> []" using Cons.prems(2) by auto
  ultimately show ?case by (cases prev) simp_all
qed simp

lemma CheckNodeStructure_ok:
  assumes "\<forall>c \<in> set cs. wfc t d c" "ordered (concat (map (ccont t d) cs))"
  shows "CheckNodeStructure_loop None cs = Inr ()"
  using ordered_keys [OF assms] by (intro CheckNodeStructure_loop_ok) auto

lemma Node_childNode_resolve:
  assumes "idx < length (Children n)" "resolve t (Children n ! idx) = Some m"
  shows "Node_childNode t n idx = Inr (Some m)"
  using assms
  by (auto simp: Node_childNode_def resolve_def split: option.splits)

lemma wfc_nth_resolve:
  assumes "wfn t (Suc d) n" "i < length (Children n)"
  obtains m where "resolve t (Children n ! i) = Some m" "wfn t d m" "Children m \<noteq> []"
    "Key (Children n ! i) = Key (hd (Children m))"
    "ccont t (Suc d) (Children n ! i) = contents t d m"
proof -
  have "wfc t (Suc d) (Children n ! i)" using assms by (simp add: wfn_eq)
  then show ?thesis by (elim wfc_Suc_obtain) (rule that)
qed

lemma NodeData_Msgsize_sum:
  "NodeData_Msgsize sz z = 1 + BoolSize sz + ArrayHeaderSize sz + (\<Sum>c \<leftarrow> snd z. NodeDataChild_Msgsize sz c)"
proof -
  have "foldl (\<lambda>s c. s + (1 + StringPrefixSize sz + int (length (Key c)) + StringPrefixSize sz + int (length (Value c)))) a cs
      = a + (\<Sum>c \<leftarrow> cs. NodeDataChild_Msgsize sz c)" for a cs
    by (induction cs arbitrary: a) (simp_all add: NodeDataChild_Msgsize_def)
  then show ?thesis by (simp add: NodeData_Msgsize_def)
qed

lemma Msgsize_sum:
  "Msgsize t n = 1 + BoolSize (msgp t) + ArrayHeaderSize (msgp t)
     + (\<Sum>c \<leftarrow> Children n. Child_Msgsize t c)"
  by (simp add: Msgsize_def NodeData_Msgsize_sum)

end
