(* ===== verification/IbStack.thy ===== *)
theory IbStack
  imports IbNode
begin

text \<open>
  The \<^verbatim>\<open>Stack\<close> of src/ibtree/ibstack.go: the path from the root to the place an operation
  works at, and every step the tree operations are made of. The two fixed-size arrays of the
  struct are lists of length \<open>maximumTreeDepth\<close>; \<open>push\<close> is the only operation that raises
  \<open>top\<close> and panics (index out of range) when the arrays are full, so \<open>top\<close> is always a
  valid index. Entries of \<open>nodes\<close> above \<open>top\<close> cache the nodes below the current one.

  A loop of the source is a recursive function whose measure is the height of the stack or
  the room left in it. The one loop with no such bound, the rebalancing pass of \<^verbatim>\<open>commit\<close>,
  is a \<open>while_option\<close> whose value \<open>None\<close> (the loop does not end) becomes the result
  \<open>Inl Diverges\<close>.
\<close>

section \<open>State\<close>

record stack =
  nodes :: "node option list"
  indexes :: "int list"
  top :: nat
  maxtop :: nat
  smallCount :: nat

definition emptyStack :: stack where
  "emptyStack = \<lparr>nodes = replicate maximumTreeDepth None,
     indexes = replicate maximumTreeDepth 0, top = 0, maxtop = 0, smallCount = 0\<rparr>"

section \<open>Elementary steps\<close>

definition index :: "stack \<Rightarrow> int" where
  "index st = indexes st ! top st"

definition node :: "stack \<Rightarrow> node res" where
  "node st = deref (nodes st ! top st)"

definition invalidateSubNodes :: "stack \<Rightarrow> stack" where
  "invalidateSubNodes st =
     st\<lparr>nodes := map (\<lambda>i. if top st < i \<and> i \<le> maxtop st then None else nodes st ! i)
                   [0..<length (nodes st)],
        maxtop := top st\<rparr>"

definition setIndex :: "int \<Rightarrow> stack \<Rightarrow> stack" where
  "setIndex idx st =
     (if idx = indexes st ! top st then st
      else invalidateSubNodes (st\<lparr>indexes := (indexes st)[top st := idx]\<rparr>))"

definition nextIndex :: "stack \<Rightarrow> stack" where
  "nextIndex st = setIndex (indexes st ! top st + 1) st"

definition Reset :: "stack \<Rightarrow> stack res" where
  "Reset st =
     (if nodes st ! 0 = None then Inl (PanicMsg ''Reset() on uninitialized Stack'')
      else if top st > 0 then Inl (PanicMsg ''uncommitted state in reset'')
      else Inr (setIndex 0 st))"

definition rewriteNodeChildren :: "tree \<Rightarrow> ndchild option list \<Rightarrow> stack \<Rightarrow> stack res" where
  "rewriteNodeChildren t children st =
     bindE (node st) (\<lambda>n0.
       case those children of
         None \<Rightarrow> Inl (PanicMsg ''tree broke: nil child'')
       | Some cs \<Rightarrow>
           (let n = Node (Leafy n0) cs None;
                st1 = invalidateSubNodes (st\<lparr>nodes := (nodes st)[top st := Some n]\<rparr>);
                st2 = (if Leafy n \<and> Msgsize t n \<le> smallSize t
                       then st1\<lparr>smallCount := smallCount st1 + 1\<rparr> else st1)
            in bindE (CheckNodeStructure n) (\<lambda>_. Inr st2)))"

definition rewriteNodeChildrenWithCopyOf :: "tree \<Rightarrow> ndchild list \<Rightarrow> stack \<Rightarrow> stack res" where
  "rewriteNodeChildrenWithCopyOf t ochildren st =
     bindE (make_nil (int (length ochildren))) (\<lambda>c0.
     bindE (copy_at c0 0 (map Some ochildren)) (\<lambda>children.
     rewriteNodeChildren t children st))"

definition rewriteAtIndex :: "tree \<Rightarrow> bool \<Rightarrow> ndchild option \<Rightarrow> stack \<Rightarrow> stack res" where
  "rewriteAtIndex t replace child st =
     bindE (node st) (\<lambda>n.
       let cs = Children n;
           idx = index st;
           len = int (length cs);
           (nl, oidx, nidx) =
             (if replace
              then (if child = None then (len - 1, idx + 1, idx) else (len, idx + 1, idx + 1))
              else (len + 1, idx, idx + 1))
       in if \<not> replace \<and> child = None
          then Inl (PanicMsg ''nonsense argument - non-replace with nil?'')
          else
            bindE (make_nil nl) (\<lambda>c0.
            bindE (if idx > 0 then bindE (slice_upto cs idx) (\<lambda>s. copy_at c0 0 (map Some s))
                   else Inr c0) (\<lambda>c1.
            bindE (case child of None \<Rightarrow> Inr c1 | Some x \<Rightarrow> elem_set c1 idx (Some x)) (\<lambda>c2.
            bindE (slice_from cs oidx) (\<lambda>s.
            bindE (copy_at c2 nidx (map Some s)) (\<lambda>c3.
            rewriteNodeChildren t c3 st))))))"

definition child :: "stack \<Rightarrow> ndchild option res" where
  "child st =
     bindE (node st) (\<lambda>n.
       let cl = Children n; idx = index st
       in if idx < 0 \<or> idx \<ge> int (length cl) then Inr None else Inr (Some (cl ! nat idx)))"

definition Stack_childNode :: "tree \<Rightarrow> int \<Rightarrow> stack \<Rightarrow> node option res" where
  "Stack_childNode t idx st =
     bindE (node st) (\<lambda>n.
       if idx < 0 \<or> idx \<ge> int (length (Children n)) then Inr None
       else if indexes st ! top st = idx then
         bindE (arr_get (nodes st) (top st + 1)) (\<lambda>p.
           case p of Some m \<Rightarrow> Inr (Some m) | None \<Rightarrow> Node_childNode t n (nat idx))
       else Node_childNode t n (nat idx))"

definition popNode :: "stack \<Rightarrow> (node option \<times> stack) res" where
  "popNode st =
     (if top st = 0 then Inl (PanicMsg ''popped beyond top! madness!'')
      else Inr (nodes st ! top st, st\<lparr>top := top st - 1\<rparr>))"

definition pop :: "tree \<Rightarrow> stack \<Rightarrow> stack res" where
  "pop t st =
     bindE (popNode st) (\<lambda>(p, st').
     bindE (deref p) (\<lambda>n.
       case Children n of
         c0 # _ \<Rightarrow>
           rewriteAtIndex t True
             (Some (NodeDataChild (Key c0) (placeholderValue t) (Some n))) st'
       | [] \<Rightarrow> rewriteAtIndex t True None st'))"

definition push :: "int \<Rightarrow> node option \<Rightarrow> stack \<Rightarrow> stack res" where
  "push idx p st =
     (let st1 = setIndex idx st;
          st2 = st1\<lparr>top := top st1 + 1\<rparr>;
          st3 = (if maxtop st2 < top st2 then st2\<lparr>maxtop := top st2\<rparr> else st2)
      in bindE (arr_set (nodes st3) (top st3) p) (\<lambda>ns.
         Inr (setIndex 0 (st3\<lparr>nodes := ns\<rparr>))))"

definition pushIndex :: "tree \<Rightarrow> int \<Rightarrow> stack \<Rightarrow> stack res" where
  "pushIndex t idx st = bindE (Stack_childNode t idx st) (\<lambda>n. push idx n st)"

definition pushCurrentIndex :: "tree \<Rightarrow> stack \<Rightarrow> stack res" where
  "pushCurrentIndex t st = pushIndex t (index st) st"

section \<open>What the elementary steps do to the height of the stack\<close>

lemma invalidateSubNodes_fields [simp]:
  "top (invalidateSubNodes st) = top st"
  "indexes (invalidateSubNodes st) = indexes st"
  "length (nodes (invalidateSubNodes st)) = length (nodes st)"
  "maxtop (invalidateSubNodes st) = top st"
  "smallCount (invalidateSubNodes st) = smallCount st"
  by (simp_all add: invalidateSubNodes_def)

lemma invalidateSubNodes_nth [simp]:
  "i < length (nodes st) \<Longrightarrow>
     nodes (invalidateSubNodes st) ! i = (if top st < i \<and> i \<le> maxtop st then None else nodes st ! i)"
  by (simp add: invalidateSubNodes_def)

lemma setIndex_fields [simp]:
  "top (setIndex idx st) = top st"
  "length (nodes (setIndex idx st)) = length (nodes st)"
  "length (indexes (setIndex idx st)) = length (indexes st)"
  "smallCount (setIndex idx st) = smallCount st"
  by (simp_all add: setIndex_def)

lemma nextIndex_top [simp]: "top (nextIndex st) = top st"
  by (simp add: nextIndex_def)

lemma rewriteNodeChildren_top:
  "rewriteNodeChildren t cs st = Inr st' \<Longrightarrow>
     top st' = top st \<and> length (nodes st') = length (nodes st)"
  by (auto simp: rewriteNodeChildren_def Let_def res_simps split: option.splits if_splits)

lemma rewriteAtIndex_rewrites:
  "rewriteAtIndex t r c st = Inr st' \<Longrightarrow> \<exists>cs. rewriteNodeChildren t cs st = Inr st'"
  by (simp add: rewriteAtIndex_def Let_def res_simps split: if_splits) blast+

lemma rewriteAtIndex_top:
  "rewriteAtIndex t r c st = Inr st' \<Longrightarrow>
     top st' = top st \<and> length (nodes st') = length (nodes st)"
  using rewriteAtIndex_rewrites rewriteNodeChildren_top by blast

lemma popNode_top:
  "popNode st = Inr (p, st') \<Longrightarrow> top st = Suc (top st') \<and> length (nodes st') = length (nodes st)"
  by (auto simp: popNode_def split: if_splits)

lemma pop_top:
  assumes "pop t st = Inr st'"
  shows "top st = Suc (top st') \<and> length (nodes st') = length (nodes st)"
proof -
  from assms obtain p st1 n where "popNode st = Inr (p, st1)"
    and "(case Children n of c0 # _ \<Rightarrow>
           rewriteAtIndex t True (Some (NodeDataChild (Key c0) (placeholderValue t) (Some n))) st1
         | [] \<Rightarrow> rewriteAtIndex t True None st1) = Inr st'"
    by (auto simp: pop_def res_simps)
  then show ?thesis
    by (cases "Children n") (auto dest!: popNode_top rewriteAtIndex_top)
qed

lemma push_top:
  "push idx p st = Inr st' \<Longrightarrow>
     top st' = Suc (top st) \<and> top st' < length (nodes st') \<and> length (nodes st') = length (nodes st)"
  by (auto simp: push_def Let_def res_simps split: if_splits)

lemma pushIndex_top:
  "pushIndex t idx st = Inr st' \<Longrightarrow>
     top st' = Suc (top st) \<and> top st' < length (nodes st') \<and> length (nodes st') = length (nodes st)"
  by (auto simp: pushIndex_def res_simps dest!: push_top)

section \<open>Searching and walking\<close>

text \<open>The loop of \<^verbatim>\<open>search\<close>; its loop variable \<^verbatim>\<open>n\<close> is always the node on top of the stack.\<close>

function search_loop :: "tree \<Rightarrow> gostring \<Rightarrow> stack \<Rightarrow> stack res" where
  "search_loop t key st =
     bindE (node st) (\<lambda>n.
       let cs = Children n; cn = length cs
       in if Leafy n
          then Inr (setIndex (int (sortSearch (\<lambda>i. Key (cs ! i) \<ge> key) 0 cn)) st)
          else
            (let idx0 = int (sortSearch (\<lambda>i. Key (cs ! i) > key) 0 cn) - 1;
                 idx = (if idx0 < 0 then 0 else idx0)
             in bindE (Stack_childNode t idx st) (\<lambda>p.
                  case p of
                    None \<Rightarrow> Inl (PanicMsg ''nil child node'')
                  | Some m \<Rightarrow> bindE (push idx (Some m) st) (\<lambda>st'. search_loop t key st'))))"
  by pat_completeness auto
termination
  by (relation "measure (\<lambda>(t, key, st). length (nodes st) - top st)") (auto dest: push_top)

declare search_loop.simps [simp del]

definition Stack_search :: "tree \<Rightarrow> gostring \<Rightarrow> stack \<Rightarrow> stack res" where
  "Stack_search t key st = search_loop t key (st\<lparr>top := 0\<rparr>)"

text \<open>The index of the first child at or after position \<open>i\<close> that is in memory and
  satisfies \<open>P\<close>.\<close>

fun first_dirty :: "(node \<Rightarrow> bool) \<Rightarrow> ndchild list \<Rightarrow> nat \<Rightarrow> nat \<Rightarrow> (nat \<times> node) option" where
  "first_dirty P [] pos i = None"
| "first_dirty P (c # cs) pos i =
     (case childNode c of
        Some cn \<Rightarrow> if i \<le> pos \<and> P cn then Some (pos, cn) else first_dirty P cs (Suc pos) i
      | None \<Rightarrow> first_dirty P cs (Suc pos) i)"

function goDownLeft :: "stack \<Rightarrow> stack res" where
  "goDownLeft st =
     bindE (node st) (\<lambda>n.
       case first_dirty (\<lambda>cn. \<not> Leafy cn) (Children n) 0 0 of
         None \<Rightarrow> Inr st
       | Some (i, cn) \<Rightarrow> bindE (push (int i) (Some cn) st) (\<lambda>st'. goDownLeft st'))"
  by pat_completeness auto
termination
  by (relation "measure (\<lambda>st. length (nodes st) - top st)") (auto dest: push_top)

declare goDownLeft.simps [simp del]

text \<open>The loop of \<^verbatim>\<open>goDownLeftAny\<close>, which is also the inner loop of \<^verbatim>\<open>goNextLeaf\<close>: from
  child \<open>idx\<close> downwards, always to the first child below.\<close>

function goDownLeftAny_loop :: "tree \<Rightarrow> int \<Rightarrow> stack \<Rightarrow> stack res" where
  "goDownLeftAny_loop t idx st =
     bindE (node st) (\<lambda>n.
       if Leafy n then Inr st
       else bindE (pushIndex t idx st) (\<lambda>st'. goDownLeftAny_loop t 0 st'))"
  by pat_completeness auto
termination
  by (relation "measure (\<lambda>(t, idx, st). length (nodes st) - top st)") (auto dest: pushIndex_top)

declare goDownLeftAny_loop.simps [simp del]

definition goDownLeftAny :: "tree \<Rightarrow> stack \<Rightarrow> stack res" where
  "goDownLeftAny t st = goDownLeftAny_loop t (index st) st"

text \<open>The inner loop of \<^verbatim>\<open>goPreviousLeaf\<close>, ending with its \<^verbatim>\<open>setIndex\<close>.\<close>

function goDownRight_loop :: "tree \<Rightarrow> int \<Rightarrow> stack \<Rightarrow> stack res" where
  "goDownRight_loop t idx st =
     bindE (node st) (\<lambda>n.
       if Leafy n then Inr (setIndex idx st)
       else
         bindE (pushIndex t idx st) (\<lambda>st'.
         bindE (node st') (\<lambda>n'.
           goDownRight_loop t (int (length (Children n')) - 1) st')))"
  by pat_completeness auto
termination
  by (relation "measure (\<lambda>(t, idx, st). length (nodes st) - top st)") (auto dest: pushIndex_top)

declare goDownRight_loop.simps [simp del]

function goPreviousLeaf :: "tree \<Rightarrow> stack \<Rightarrow> (bool \<times> stack) res" where
  "goPreviousLeaf t st =
     bindE (node st) (\<lambda>n.
       let idx = index st - 1
       in if idx \<ge> 0 then bindE (goDownRight_loop t idx st) (\<lambda>st'. Inr (True, st'))
          else if top st = 0 then
            (if indexes st ! top st = 0 then Inr (True, setIndex (-1) st) else Inr (False, st))
          else bindE (popNode st) (\<lambda>p. goPreviousLeaf t (snd p)))"
  by pat_completeness auto
termination
  by (relation "measure (\<lambda>(t, st). top st)") (auto dest: popNode_top)

declare goPreviousLeaf.simps [simp del]

function goNextLeaf :: "tree \<Rightarrow> stack \<Rightarrow> (bool \<times> stack) res" where
  "goNextLeaf t st =
     bindE (node st) (\<lambda>n.
       let idx = index st + 1
       in if idx < int (length (Children n)) then
            bindE (if \<not> Leafy n then goDownLeftAny_loop t idx st else Inr (setIndex idx st))
              (\<lambda>st'. Inr (True, invalidateSubNodes st'))
          else if top st = 0 then
            (let lidx = int (length (Children n))
             in if indexes st ! top st \<noteq> lidx then Inr (True, setIndex lidx st)
                else Inr (False, st))
          else bindE (popNode st) (\<lambda>p. goNextLeaf t (snd p)))"
  by pat_completeness auto
termination
  by (relation "measure (\<lambda>(t, st). top st)") (auto dest: popNode_top)

declare goNextLeaf.simps [simp del]

section \<open>Inserting with splits\<close>

function addChildAt :: "tree \<Rightarrow> ndchild \<Rightarrow> stack \<Rightarrow> stack res" where
  "addChildAt t c st =
     bindE (rewriteAtIndex t False (Some c) st) (\<lambda>st1.
     bindE (node st1) (\<lambda>nd.
       if Msgsize t nd \<le> NodeMaximumSize t then Inr st1
       else
         (let i = length (Children nd) div 2;
              nodec = take i (Children nd);
              nextc = drop i (Children nd)
          in bindE (rewriteNodeChildren t (map Some nodec) st1) (\<lambda>st2.
             bindE (elem_get nextc 0) (\<lambda>nc0.
               let nextchild = NodeDataChild (Key nc0) (placeholderValue t)
                                 (Some (Node (Leafy nd) nextc None))
               in if top st2 > 0
                  then bindE (pop t st2) (\<lambda>st3. addChildAt t nextchild (nextIndex st3))
                  else
                    bindE (node st2) (\<lambda>nd2.
                    bindE (elem_get nodec 0) (\<lambda>mc0.
                      let mechild = NodeDataChild (Key mc0) (placeholderValue t) (Some nd2)
                      in Inr (invalidateSubNodes
                           (st2\<lparr>nodes := (nodes st2)
                              [0 := Some (Node False [mechild, nextchild] None)]\<rparr>)))))))))"
  by pat_completeness auto
termination
  by (relation "measure (\<lambda>(t, c, st). top st)")
    (auto dest!: pop_top rewriteAtIndex_top rewriteNodeChildren_top)

declare addChildAt.simps [simp del]

section \<open>Rebalancing\<close>

definition moveFrom :: "tree \<Rightarrow> int \<Rightarrow> node \<Rightarrow> stack \<Rightarrow> stack res" where
  "moveFrom t ofs sib st =
     bindE (child st) (\<lambda>cp.
     bindE (deref cp) (\<lambda>c0.
       let nd = childNode c0; oi = index st; si = ofs + oi;
           scl = Children sib; cofs = int (length scl) - 1
       in bindE (if ofs = -1
                 then bindE (slice_upto scl cofs) (\<lambda>cl.
                      bindE (elem_get scl cofs) (\<lambda>c. Inr (cl, c)))
                 else bindE (slice_from scl 1) (\<lambda>cl.
                      bindE (elem_get scl 0) (\<lambda>c. Inr (cl, c)))) (\<lambda>(cl, c).
          bindE (push si (Some sib) st) (\<lambda>st1.
          bindE (rewriteNodeChildrenWithCopyOf t cl st1) (\<lambda>st2.
          bindE (pop t st2) (\<lambda>st3.
          bindE (push oi nd st3) (\<lambda>st4.
          bindE (if ofs = -1 then Inr (setIndex 0 st4)
                 else bindE (deref nd) (\<lambda>n. Inr (setIndex (int (length (Children n))) st4))) (\<lambda>st5.
          bindE (rewriteAtIndex t False (Some c) st5) (\<lambda>st6.
          pop t st6)))))))))"

definition mergeTo :: "tree \<Rightarrow> int \<Rightarrow> node \<Rightarrow> stack \<Rightarrow> stack res" where
  "mergeTo t ofs sib st =
     bindE (node st) (\<lambda>n.
       let clen1 = length (Children n); oi = index st; si = ofs + oi
       in bindE (child st) (\<lambda>cp.
          bindE (deref cp) (\<lambda>c0.
          bindE (deref (childNode c0)) (\<lambda>me.
            let mycl = Children me; cl = Children sib
            in bindE (rewriteAtIndex t True None st) (\<lambda>st1.
               bindE (node st1) (\<lambda>n1.
                 let clen2 = length (Children n1)
                 in if clen1 \<le> clen2 then Inl (PanicMsg ''broken mergeTo, bad! (p1)'')
                    else
                      bindE (push (if ofs > 0 then si - 1 else si) (Some sib) st1) (\<lambda>st2.
                      bindE (rewriteNodeChildren t
                               (map Some (if ofs = -1 then cl @ mycl else mycl @ cl)) st2) (\<lambda>st3.
                      bindE (pop t st3) (\<lambda>st4.
                      bindE (node st4) (\<lambda>n4.
                        if clen2 \<noteq> length (Children n4)
                        then Inl (PanicMsg ''broken mergeTo, bad!'')
                        else Inr st4))))))))))"

text \<open>The callback of \<^verbatim>\<open>commit\<close>. The boolean says whether the current child was replaced:
  the caller compares the child pointer before and after, and both \<open>moveFrom\<close> and
  \<open>mergeTo\<close> leave a freshly allocated child at the current index.\<close>

definition rebalanceChild :: "tree \<Rightarrow> stack \<Rightarrow> (bool \<times> stack) res" where
  "rebalanceChild t st =
     bindE (child st) (\<lambda>cp.
     bindE (deref cp) (\<lambda>c.
     bindE (deref (childNode c)) (\<lambda>n.
       if Msgsize t n \<ge> smallSize t then Inr (False, st)
       else
         let idx = index st
         in bindE (Stack_childNode t (idx - 1) st) (\<lambda>n1.
            bindE (Stack_childNode t (idx + 1) st) (\<lambda>n2.
              let (ofs, sib) =
                (case (n1, n2) of
                   (Some m1, Some m2) \<Rightarrow>
                     if Msgsize t m1 < Msgsize t m2 then (1, n2) else (-1, n1)
                 | (None, _) \<Rightarrow> (1, n2)
                 | (Some m1, None) \<Rightarrow> (-1, n1))
              in case sib of
                   None \<Rightarrow> Inr (False, st)
                 | Some s \<Rightarrow>
                     if Msgsize t s < halfSize t
                     then bindE (mergeTo t ofs s st) (\<lambda>st'. Inr (True, st'))
                     else bindE (moveFrom t ofs s st) (\<lambda>st'. Inr (True, st')))))))"

definition moveRight :: "tree \<Rightarrow> stack \<Rightarrow> (bool \<times> stack) res" where
  "moveRight t st =
     bindE (node st) (\<lambda>n.
       case first_dirty (\<lambda>cn. True) (Children n) 0 (nat (index st + 1)) of
         Some (i, cn) \<Rightarrow>
           if \<not> Leafy cn
           then bindE (pushIndex t (int i) st) (\<lambda>st1.
                bindE (goDownLeft st1) (\<lambda>st2. Inr (True, st2)))
           else Inr (True, setIndex (int i) st)
       | None \<Rightarrow>
           if top st = 0 then Inr (False, st)
           else bindE (pop t st) (\<lambda>st'. Inr (True, st')))"

function popAll :: "tree \<Rightarrow> stack \<Rightarrow> stack res" where
  "popAll t st = (if top st > 0 then bindE (pop t st) (\<lambda>st'. popAll t st') else Inr st)"
  by pat_completeness auto
termination
  by (relation "measure (\<lambda>(t, st). top st)") (auto dest: pop_top)

declare popAll.simps [simp del]

text \<open>One round of the loop of \<^verbatim>\<open>iterateMutatingChildLeafFirst\<close>; the boolean says whether the
  loop goes on. The sanity check after \<open>moveRight\<close> compares two child pointers: the new
  current child is another child of the node, or the one \<open>pop\<close> has just allocated in the
  parent, so the check cannot fire and has no counterpart here.\<close>

definition iterate_step ::
  "tree \<Rightarrow> (stack \<Rightarrow> (bool \<times> stack) res) \<Rightarrow> stack \<Rightarrow> (stack \<times> bool) res" where
  "iterate_step t fn st =
     bindE (child st) (\<lambda>cp.
     bindE (deref cp) (\<lambda>on.
     bindE (if childNode on \<noteq> None then fn st else Inr (False, st)) (\<lambda>(changed, st1).
       if changed then Inr (st1, True)
       else bindE (moveRight t st1) (\<lambda>(go, st2). Inr (st2, go)))))"

definition iterate_loop ::
  "tree \<Rightarrow> (stack \<Rightarrow> (bool \<times> stack) res) \<Rightarrow> stack \<Rightarrow> stack res" where
  "iterate_loop t fn st =
     (case while_option
             (\<lambda>r. case r of Inl e \<Rightarrow> False | Inr (st, go) \<Rightarrow> go)
             (\<lambda>r. case r of Inl e \<Rightarrow> Inl e | Inr (st, go) \<Rightarrow> iterate_step t fn st)
             (Inr (st, True)) of
        None \<Rightarrow> Inl Diverges
      | Some r \<Rightarrow> bindE r (\<lambda>(st, go). Inr st))"

definition iterateMutatingChildLeafFirst ::
  "tree \<Rightarrow> (stack \<Rightarrow> (bool \<times> stack) res) \<Rightarrow> stack \<Rightarrow> stack res" where
  "iterateMutatingChildLeafFirst t fn st =
     bindE (Reset st) (\<lambda>st1.
     bindE (node st1) (\<lambda>n.
       if Leafy n then Inr st1
       else bindE (goDownLeft st1) (\<lambda>st2.
            bindE (iterate_loop t fn st2) (\<lambda>st3. popAll t st3))))"

text \<open>The end of \<^verbatim>\<open>commit\<close>: a small root whose children fit into one node takes their
  children over.\<close>

definition shrinkRoot :: "tree \<Rightarrow> stack \<Rightarrow> stack res" where
  "shrinkRoot t st =
     bindE (node st) (\<lambda>n.
       if \<not> Leafy n \<and> Msgsize t n < smallSize t then
         bindE (mapE (\<lambda>i. bindE (Stack_childNode t (int i) st) deref) [0..<length (Children n)]) (\<lambda>cns.
           if (\<Sum>cn \<leftarrow> cns. Msgsize t cn) \<le> NodeMaximumSize t then
             bindE (rewriteNodeChildren t (map Some (concat (map Children cns))) st) (\<lambda>st1.
             bindE (node st1) (\<lambda>n1.
               if list_ex Leafy cns
               then Inr (st1\<lparr>nodes := (nodes st1)[top st1 := Some (Node True (Children n1) (blockId n1))]\<rparr>)
               else Inr st1))
           else Inr st)
       else Inr st)"

definition commit :: "tree \<Rightarrow> stack \<Rightarrow> (node \<times> stack) res" where
  "commit t st =
     bindE (popAll t st) (\<lambda>st1.
       if smallCount st1 = 0 then bindE (node st1) (\<lambda>n. Inr (n, st1))
       else
         bindE (iterateMutatingChildLeafFirst t (rebalanceChild t) st1) (\<lambda>st2.
         bindE (shrinkRoot t st2) (\<lambda>st3.
         bindE (node st3) (\<lambda>n. Inr (n, st3\<lparr>smallCount := 0\<rparr>)))))"

end
