(* ===== verification/IbTree.thy ===== *)
theory IbTree
  imports IbStack
begin

text \<open>
  The tree operations of src/ibtree/ibtree.go and the transaction wrappers of
  src/ibtree/ibtransaction.go, as compositions of the stack steps. An operation takes the
  node it is called on and the stack it is given, and returns its result with the changed
  stack. \<^verbatim>\<open>search\<close> refuses a stack that belongs to another root; the code compares pointers,
  the model compares nodes.
\<close>

section \<open>Node operations\<close>

definition Node_search :: "tree \<Rightarrow> node \<Rightarrow> gostring \<Rightarrow> stack \<Rightarrow> stack res" where
  "Node_search t self key st =
     bindE (case nodes st ! 0 of
              None \<Rightarrow> Inr (st\<lparr>nodes := (nodes st)[0 := Some self]\<rparr>)
            | Some r \<Rightarrow> if self \<noteq> r then Inl (PanicMsg ''historic/wrong self'') else Inr st) (\<lambda>st1.
       if top st1 > 0 then Inl (PanicMsg ''leftover stack'') else Stack_search t key st1)"

definition searchLesser :: "tree \<Rightarrow> node \<Rightarrow> gostring \<Rightarrow> stack \<Rightarrow> stack res" where
  "searchLesser t self key st =
     bindE (Node_search t self key st) (\<lambda>st1.
     bindE (child st1) (\<lambda>c.
       if (case c of None \<Rightarrow> True | Some x \<Rightarrow> Key x \<ge> key)
       then bindE (goPreviousLeaf t st1) (\<lambda>(ok, st2). Inr st2)
       else Inr st1))"

definition searchGreater :: "tree \<Rightarrow> node \<Rightarrow> gostring \<Rightarrow> stack \<Rightarrow> stack res" where
  "searchGreater t self key st =
     bindE (Node_search t self key st) (\<lambda>st1.
     bindE (child st1) (\<lambda>c.
       if (case c of None \<Rightarrow> True | Some x \<Rightarrow> Key x = key)
       then bindE (goNextLeaf t st1) (\<lambda>(ok, st2). Inr st2)
       else Inr st1))"

definition Node_Get :: "tree \<Rightarrow> node \<Rightarrow> gostring \<Rightarrow> stack \<Rightarrow> (gostring option \<times> stack) res" where
  "Node_Get t self key st =
     bindE (Node_search t self key st) (\<lambda>st1.
     bindE (child st1) (\<lambda>c.
       let st2 = st1\<lparr>top := 0\<rparr>
       in case c of
            None \<Rightarrow> Inr (None, st2)
          | Some x \<Rightarrow> if Key x \<noteq> key then Inr (None, st2) else Inr (Some (Value x), st2)))"

definition Node_NextKey :: "tree \<Rightarrow> node \<Rightarrow> gostring \<Rightarrow> stack \<Rightarrow> (gostring option \<times> stack) res" where
  "Node_NextKey t self key st =
     bindE (searchGreater t self key st) (\<lambda>st1.
     bindE (child st1) (\<lambda>c. Inr (map_option Key c, st1\<lparr>top := 0\<rparr>)))"

definition Node_PrevKey :: "tree \<Rightarrow> node \<Rightarrow> gostring \<Rightarrow> stack \<Rightarrow> (gostring option \<times> stack) res" where
  "Node_PrevKey t self key st =
     bindE (searchLesser t self key st) (\<lambda>st1.
     bindE (child st1) (\<lambda>c. Inr (map_option Key c, st1\<lparr>top := 0\<rparr>)))"

definition Node_Set :: "tree \<Rightarrow> node \<Rightarrow> gostring \<Rightarrow> gostring \<Rightarrow> stack \<Rightarrow> (node \<times> stack) res" where
  "Node_Set t self key v st =
     bindE (Node_search t self key st) (\<lambda>st1.
     bindE (child st1) (\<lambda>c.
       let nc = NodeDataChild key v None
       in bindE (case c of
                   None \<Rightarrow> addChildAt t nc st1
                 | Some x \<Rightarrow>
                     if Key x \<noteq> key then addChildAt t nc st1
                     else if Value x \<noteq> v then rewriteAtIndex t True (Some nc) st1
                     else Inr st1) (\<lambda>st2. commit t st2)))"

definition Node_Delete :: "tree \<Rightarrow> node \<Rightarrow> gostring \<Rightarrow> stack \<Rightarrow> (node \<times> stack) res" where
  "Node_Delete t self key st =
     bindE (Node_search t self key st) (\<lambda>st1.
     bindE (child st1) (\<lambda>c.
       if (case c of None \<Rightarrow> True | Some x \<Rightarrow> Key x \<noteq> key)
       then Inl (PanicMsg ''ibp.Delete: Key missing'')
       else bindE (rewriteAtIndex t True None st1) (\<lambda>st2. commit t st2)))"

text \<open>The two trimming loops of \<^verbatim>\<open>DeleteRange\<close>: everything left of the path of \<open>st2\<close>, and
  everything right of the path of \<open>st\<close>, below the last node the two paths share.\<close>

function trimLeft :: "tree \<Rightarrow> nat \<Rightarrow> stack \<Rightarrow> stack res" where
  "trimLeft t unique st2 =
     (if top st2 > unique then
        (let idx = index st2
         in bindE (if idx > 0
                   then bindE (node st2) (\<lambda>n.
                        bindE (slice_from (Children n) idx) (\<lambda>cs.
                        rewriteNodeChildrenWithCopyOf t cs st2))
                   else Inr st2) (\<lambda>st3.
            bindE (pop t st3) (\<lambda>st4. trimLeft t unique st4)))
      else Inr st2)"
  by pat_completeness auto
termination
  by (relation "measure (\<lambda>(t, u, st). top st)")
    (auto dest!: pop_top rewriteNodeChildren_top
      simp: rewriteNodeChildrenWithCopyOf_def res_simps split: if_splits)

declare trimLeft.simps [simp del]

function trimRight :: "tree \<Rightarrow> nat \<Rightarrow> stack \<Rightarrow> stack res" where
  "trimRight t unique st =
     (if top st > unique then
        (let idx = index st
         in bindE (node st) (\<lambda>n.
            bindE (if idx < int (length (Children n)) - 1
                   then bindE (slice_upto (Children n) (idx + 1)) (\<lambda>cs.
                        rewriteNodeChildrenWithCopyOf t cs st)
                   else Inr st) (\<lambda>st3.
            bindE (pop t st3) (\<lambda>st4. trimRight t unique st4))))
      else Inr st)"
  by pat_completeness auto
termination
  by (relation "measure (\<lambda>(t, u, st). top st)")
    (auto dest!: pop_top rewriteNodeChildren_top
      simp: rewriteNodeChildrenWithCopyOf_def res_simps split: if_splits)

declare trimRight.simps [simp del]

text \<open>The loop that finds how many leading indexes of the two paths agree.\<close>

function uniqueDepth :: "stack \<Rightarrow> stack \<Rightarrow> nat \<Rightarrow> nat" where
  "uniqueDepth st st2 i =
     (if i < top st \<and> indexes st ! i = indexes st2 ! i then uniqueDepth st st2 (Suc i) else i)"
  by pat_completeness auto
termination
  by (relation "measure (\<lambda>(st, st2, i). top st - i)") auto

declare uniqueDepth.simps [simp del]

definition Node_DeleteRange ::
  "tree \<Rightarrow> node \<Rightarrow> gostring \<Rightarrow> gostring \<Rightarrow> stack \<Rightarrow> (node \<times> stack) res" where
  "Node_DeleteRange t self key1 key2 st0 =
     (if key1 > key2 then Inl (PanicMsg ''ibt.DeleteRange: first key more than second key'')
      else
        bindE (searchLesser t self key1 (st0\<lparr>top := 0\<rparr>)) (\<lambda>st.
        bindE (searchGreater t self key2 (st0\<lparr>top := 0\<rparr>)) (\<lambda>st2.
          if st = st2 then commit t st2
          else if indexes st = indexes st2 then commit t st2
          else
            (let unique = uniqueDepth st st2 0
             in bindE (trimLeft t unique st2) (\<lambda>st2a.
                bindE (trimRight t unique st) (\<lambda>sta.
                bindE (node st2a) (\<lambda>n2.
                  let cl = Children n2;
                      idx1 = indexes sta ! top sta;
                      idx2 = indexes st2a ! top sta
                  in bindE
                       (if idx1 < 0
                        then bindE (make_nil (int (length cl) - idx2)) (\<lambda>ncl.
                             bindE (slice_from cl idx2) (\<lambda>s. copy_at ncl 0 (map Some s)))
                        else bindE (make_nil (int (length cl) - (idx2 - idx1) + 1)) (\<lambda>ncl0.
                             bindE (slice_upto cl idx1) (\<lambda>s.
                             bindE (copy_at ncl0 0 (map Some s)) (\<lambda>ncl1.
                             bindE (child sta) (\<lambda>c.
                             bindE (elem_set ncl1 idx1 c) (\<lambda>ncl2.
                             if int (length cl) > idx2
                             then bindE (slice_from cl idx2) (\<lambda>s2.
                                  copy_at ncl2 (idx1 + 1) (map Some s2))
                             else Inr ncl2)))))) (\<lambda>ncl.
                     bindE (rewriteNodeChildren t ncl st2a) (\<lambda>st3. commit t st3)))))))))"

section \<open>Transactions\<close>

text \<open>A \<^verbatim>\<open>Transaction\<close> is its stack; its root is the node on top of it.\<close>

definition NewTransaction :: "node option \<Rightarrow> stack res" where
  "NewTransaction root =
     (if root = None then Inl (PanicMsg ''nil root'')
      else Inr (emptyStack\<lparr>nodes := (nodes emptyStack)[0 := root]\<rparr>))"

definition Root :: "stack \<Rightarrow> node res" where
  "Root tr = node tr"

definition Tr_Get :: "tree \<Rightarrow> gostring \<Rightarrow> stack \<Rightarrow> (gostring option \<times> stack) res" where
  "Tr_Get t key tr = bindE (Root tr) (\<lambda>r. Node_Get t r key tr)"

definition Tr_NextKey :: "tree \<Rightarrow> gostring \<Rightarrow> stack \<Rightarrow> (gostring option \<times> stack) res" where
  "Tr_NextKey t key tr = bindE (Root tr) (\<lambda>r. Node_NextKey t r key tr)"

definition Tr_PrevKey :: "tree \<Rightarrow> gostring \<Rightarrow> stack \<Rightarrow> (gostring option \<times> stack) res" where
  "Tr_PrevKey t key tr = bindE (Root tr) (\<lambda>r. Node_PrevKey t r key tr)"

definition Tr_Set :: "tree \<Rightarrow> gostring \<Rightarrow> gostring \<Rightarrow> stack \<Rightarrow> stack res" where
  "Tr_Set t key v tr = bindE (Root tr) (\<lambda>r. bindE (Node_Set t r key v tr) (\<lambda>(n, tr'). Inr tr'))"

definition Tr_Delete :: "tree \<Rightarrow> gostring \<Rightarrow> stack \<Rightarrow> stack res" where
  "Tr_Delete t key tr = bindE (Root tr) (\<lambda>r. bindE (Node_Delete t r key tr) (\<lambda>(n, tr'). Inr tr'))"

definition Tr_DeleteRange :: "tree \<Rightarrow> gostring \<Rightarrow> gostring \<Rightarrow> stack \<Rightarrow> stack res" where
  "Tr_DeleteRange t key1 key2 tr =
     bindE (Root tr) (\<lambda>r. bindE (Node_DeleteRange t r key1 key2 tr) (\<lambda>(n, tr'). Inr tr'))"

section \<open>Subtrees\<close>

definition addTreePrefix :: "gostring \<Rightarrow> gostring \<Rightarrow> gostring" where
  "addTreePrefix treePrefix key = treePrefix @ key"

definition stripTreePrefix :: "gostring \<Rightarrow> gostring option \<Rightarrow> gostring option res" where
  "stripTreePrefix treePrefix key =
     (case key of
        None \<Rightarrow> Inr None
      | Some s \<Rightarrow>
          bindE (slice_upto s (int (length treePrefix))) (\<lambda>p.
            if p \<noteq> treePrefix then Inr None
            else bindE (slice_from s (int (length treePrefix))) (\<lambda>k. Inr (Some k))))"

definition Sub_Get :: "tree \<Rightarrow> gostring \<Rightarrow> gostring \<Rightarrow> stack \<Rightarrow> (gostring option \<times> stack) res" where
  "Sub_Get t pre key tr = Tr_Get t (addTreePrefix pre key) tr"

definition Sub_Set :: "tree \<Rightarrow> gostring \<Rightarrow> gostring \<Rightarrow> gostring \<Rightarrow> stack \<Rightarrow> stack res" where
  "Sub_Set t pre key v tr = Tr_Set t (addTreePrefix pre key) v tr"

definition Sub_Delete :: "tree \<Rightarrow> gostring \<Rightarrow> gostring \<Rightarrow> stack \<Rightarrow> stack res" where
  "Sub_Delete t pre key tr = Tr_Delete t (addTreePrefix pre key) tr"

definition Sub_DeleteRange ::
  "tree \<Rightarrow> gostring \<Rightarrow> gostring \<Rightarrow> gostring \<Rightarrow> stack \<Rightarrow> stack res" where
  "Sub_DeleteRange t pre key1 key2 tr =
     Tr_DeleteRange t (addTreePrefix pre key1) (addTreePrefix pre key2) tr"

definition Sub_NextKey :: "tree \<Rightarrow> gostring \<Rightarrow> gostring \<Rightarrow> stack \<Rightarrow> (gostring option \<times> stack) res" where
  "Sub_NextKey t pre key tr =
     bindE (Tr_NextKey t (addTreePrefix pre key) tr) (\<lambda>(nk, tr').
     bindE (stripTreePrefix pre nk) (\<lambda>k. Inr (k, tr')))"

definition Sub_PrevKey :: "tree \<Rightarrow> gostring \<Rightarrow> gostring \<Rightarrow> stack \<Rightarrow> (gostring option \<times> stack) res" where
  "Sub_PrevKey t pre key tr =
     bindE (Tr_PrevKey t (addTreePrefix pre key) tr) (\<lambda>(nk, tr').
     bindE (stripTreePrefix pre nk) (\<lambda>k. Inr (k, tr')))"

end
