(* ===== verification/IbInv.thy ===== *)
theory IbInv
  imports IbTree
begin

text \<open>
  The abstraction of a stack. The root (level 0) has height \<open>D\<close>, so the node at level \<open>i\<close>
  of the path has height \<open>D - i\<close>. \<open>ctxL\<close> and \<open>ctxR\<close> are the entries left and right of the
  node at a level; the entries the stack stands for are those left of the top node, those of
  the top node, and those right of it. Popping a node keeps them, rewriting the children of
  the top node changes exactly its part: every mutating operation of the tree is a change
  of the top node followed by pops.

  \<open>stack_ok\<close> is the shape of the record, \<open>path_ok\<close> the well-formedness of the nodes on the
  path above a level, and \<open>cache_ok\<close> says that the cached nodes from a level on are the
  ones the parent's current child leads to.
\<close>

section \<open>Definitions\<close>

definition stack_ok :: "stack \<Rightarrow> bool" where
  "stack_ok st \<longleftrightarrow>
     length (nodes st) = maximumTreeDepth \<and> length (indexes st) = maximumTreeDepth \<and>
     top st \<le> maxtop st \<and> maxtop st < maximumTreeDepth \<and>
     (\<forall>j. maxtop st < j \<and> j < maximumTreeDepth \<longrightarrow> nodes st ! j = None)"

abbreviation nd :: "stack \<Rightarrow> nat \<Rightarrow> node" where
  "nd st i \<equiv> the (nodes st ! i)"

abbreviation ix :: "stack \<Rightarrow> nat \<Rightarrow> nat" where
  "ix st i \<equiv> nat (indexes st ! i)"

abbreviation cconts :: "tree \<Rightarrow> nat \<Rightarrow> ndchild list \<Rightarrow> kv list" where
  "cconts t h cs \<equiv> concat (map (ccont t h) cs)"

primrec ctxL :: "tree \<Rightarrow> nat \<Rightarrow> stack \<Rightarrow> nat \<Rightarrow> kv list" where
  "ctxL t D st 0 = []"
| "ctxL t D st (Suc i) =
     ctxL t D st i @ cconts t (D - i) (take (ix st i) (Children (nd st i)))"

primrec ctxR :: "tree \<Rightarrow> nat \<Rightarrow> stack \<Rightarrow> nat \<Rightarrow> kv list" where
  "ctxR t D st 0 = []"
| "ctxR t D st (Suc i) =
     cconts t (D - i) (drop (Suc (ix st i)) (Children (nd st i))) @ ctxR t D st i"

definition path_ok :: "tree \<Rightarrow> nat \<Rightarrow> stack \<Rightarrow> nat \<Rightarrow> bool" where
  "path_ok t D st i \<longleftrightarrow>
     i \<le> D \<and>
     (\<forall>j < i. \<exists>n. nodes st ! j = Some n \<and> wfn t (D - j) n \<and>
        0 \<le> indexes st ! j \<and> indexes st ! j < int (length (Children n)))"

definition cache_ok :: "tree \<Rightarrow> stack \<Rightarrow> nat \<Rightarrow> bool" where
  "cache_ok t st i \<longleftrightarrow>
     (\<forall>j m. i \<le> j \<and> Suc j < maximumTreeDepth \<and> nodes st ! Suc j = Some m \<longrightarrow>
        (\<exists>n. nodes st ! j = Some n \<and> 0 \<le> indexes st ! j \<and>
           indexes st ! j < int (length (Children n)) \<and>
           resolve t (Children n ! ix st j) = Some m))"

text \<open>The invariant of a stack in the middle of an operation, with the entries \<open>C\<close> it
  stands for.\<close>

definition stack_inv :: "tree \<Rightarrow> nat \<Rightarrow> stack \<Rightarrow> kv list \<Rightarrow> bool" where
  "stack_inv t D st C \<longleftrightarrow>
     stack_ok st \<and> path_ok t D st (top st) \<and> cache_ok t st (top st) \<and>
     (\<exists>n. nodes st ! top st = Some n \<and> wfn t (D - top st) n \<and>
        C = ctxL t D st (top st) @ contents t (D - top st) n @ ctxR t D st (top st)) \<and>
     ordered C"

text \<open>The invariant of a stack that has only been read from: the path is the one the indexes
  lead to from the root.\<close>

definition clean :: "tree \<Rightarrow> nat \<Rightarrow> node \<Rightarrow> stack \<Rightarrow> bool" where
  "clean t D root st \<longleftrightarrow>
     stack_ok st \<and> nodes st ! 0 = Some root \<and> wf_tree t D root \<and> D < maximumTreeDepth \<and>
     cache_ok t st 0 \<and> nodes st ! top st \<noteq> None \<and> top st \<le> D"

text \<open>The invariant of a transaction between operations.\<close>

definition tr_inv :: "tree \<Rightarrow> nat \<Rightarrow> stack \<Rightarrow> kv list \<Rightarrow> bool" where
  "tr_inv t D tr C \<longleftrightarrow>
     top tr = 0 \<and> (\<exists>root. clean t D root tr \<and> contents t D root = C)"

section \<open>Frame lemmas\<close>

definition same_below :: "nat \<Rightarrow> stack \<Rightarrow> stack \<Rightarrow> bool" where
  "same_below i st st' \<longleftrightarrow>
     (\<forall>j < i. nodes st' ! j = nodes st ! j \<and> indexes st' ! j = indexes st ! j)"

lemma same_below_refl [simp]: "same_below i st st"
  by (simp add: same_below_def)

lemma same_below_trans: "same_below i a b \<Longrightarrow> same_below i b c \<Longrightarrow> same_below i a c"
  by (simp add: same_below_def)

lemma same_below_mono: "same_below i a b \<Longrightarrow> j \<le> i \<Longrightarrow> same_below j a b"
  by (simp add: same_below_def)

lemma ctxL_same: "same_below i st st' \<Longrightarrow> ctxL t D st' i = ctxL t D st i"
  by (induction i) (auto simp: same_below_def)

lemma ctxR_same: "same_below i st st' \<Longrightarrow> ctxR t D st' i = ctxR t D st i"
  by (induction i) (auto simp: same_below_def)

lemma path_ok_same: "same_below i st st' \<Longrightarrow> path_ok t D st' i \<longleftrightarrow> path_ok t D st i"
  by (simp add: path_ok_def same_below_def)

lemmas frame_same = ctxL_same ctxR_same path_ok_same

lemma path_ok_mono: "path_ok t D st i \<Longrightarrow> j \<le> i \<Longrightarrow> path_ok t D st j"
  by (auto simp: path_ok_def)

lemma path_ok_node:
  assumes "path_ok t D st i" "j < i"
  obtains n where "nodes st ! j = Some n" "wfn t (D - j) n" "0 \<le> indexes st ! j"
    "indexes st ! j < int (length (Children n))"
  using assms unfolding path_ok_def by blast

lemma path_ok_Suc:
  assumes "path_ok t D st i" "nodes st ! i = Some n" "wfn t (D - i) n" "i < D"
    "0 \<le> indexes st ! i" "indexes st ! i < int (length (Children n))"
  shows "path_ok t D st (Suc i)"
  using assms by (auto simp: path_ok_def less_Suc_eq)

lemma cache_ok_mono: "cache_ok t st i \<Longrightarrow> i \<le> j \<Longrightarrow> cache_ok t st j"
  by (auto simp: cache_ok_def)

lemma ccont_0 [simp]: "ccont t 0 c = [entry c]"
  by (simp add: ccont_def)

lemma cconts_0 [simp]: "cconts t 0 cs = map entry cs"
  by (induction cs) simp_all

lemma top_update_same: "top st = i \<Longrightarrow> st\<lparr>top := i\<rparr> = st"
  by (cases st) simp

lemma cconts_split:
  assumes "i < length cs"
  shows "cconts t h cs = cconts t h (take i cs) @ ccont t h (cs ! i) @ cconts t h (drop (Suc i) cs)"
proof -
  have "cs = take i cs @ cs ! i # drop (Suc i) cs"
    using assms by (rule id_take_nth_drop)
  then have "cconts t h cs = cconts t h (take i cs @ cs ! i # drop (Suc i) cs)" by simp
  then show ?thesis by simp
qed

lemma cconts_take_drop: "cconts t h cs = cconts t h (take i cs) @ cconts t h (drop i cs)"
  by (metis append_take_drop_id concat_append map_append)

lemma stack_ok_top: "stack_ok st \<Longrightarrow> top st < maximumTreeDepth"
  by (simp add: stack_ok_def)

lemma stack_ok_lengths:
  "stack_ok st \<Longrightarrow> length (nodes st) = maximumTreeDepth"
  "stack_ok st \<Longrightarrow> length (indexes st) = maximumTreeDepth"
  by (simp_all add: stack_ok_def)

section \<open>The elementary steps\<close>

lemma stack_ok_invalidate [simp]: "stack_ok st \<Longrightarrow> stack_ok (invalidateSubNodes st)"
  by (auto simp: stack_ok_def)

lemma invalidate_nodes_above:
  assumes "stack_ok st" "top st < j" "j < maximumTreeDepth"
  shows "nodes (invalidateSubNodes st) ! j = None"
  using assms by (auto simp: stack_ok_def)

lemma invalidate_nodes_upto:
  assumes "stack_ok st" "j \<le> top st"
  shows "nodes (invalidateSubNodes st) ! j = nodes st ! j"
  using assms by (auto simp: stack_ok_def)

lemma same_below_invalidate: "stack_ok st \<Longrightarrow> same_below (Suc (top st)) st (invalidateSubNodes st)"
  by (auto simp: same_below_def invalidate_nodes_upto)

lemma setIndex_index [simp]:
  "stack_ok st \<Longrightarrow> indexes (setIndex idx st) ! top st = idx"
  by (auto simp: setIndex_def stack_ok_def)

lemma setIndex_indexes: "indexes (setIndex idx st) = (indexes st)[top st := idx]"
  by (simp add: setIndex_def)

lemma setIndex_nodes_upto:
  assumes "stack_ok st" "j \<le> top st"
  shows "nodes (setIndex idx st) ! j = nodes st ! j"
  using assms by (auto simp: setIndex_def stack_ok_def)

lemma stack_ok_indexes: "stack_ok st \<Longrightarrow> stack_ok (st\<lparr>indexes := (indexes st)[i := x]\<rparr>)"
  by (simp add: stack_ok_def)

lemma stack_ok_nodes:
  "stack_ok st \<Longrightarrow> i \<le> maxtop st \<Longrightarrow> stack_ok (st\<lparr>nodes := (nodes st)[i := x]\<rparr>)"
  by (auto simp: stack_ok_def)

lemma stack_ok_setIndex [simp]: "stack_ok st \<Longrightarrow> stack_ok (setIndex idx st)"
  by (simp add: setIndex_def stack_ok_indexes)

lemma same_below_setIndex: "stack_ok st \<Longrightarrow> same_below (top st) st (setIndex idx st)"
  by (auto simp: same_below_def setIndex_nodes_upto setIndex_indexes)

lemma setIndex_nodes_above:
  assumes "stack_ok st" "top st < j" "j < maximumTreeDepth" "idx \<noteq> indexes st ! top st"
  shows "nodes (setIndex idx st) ! j = None"
  using assms invalidate_nodes_above [of "st\<lparr>indexes := (indexes st)[top st := idx]\<rparr>" j]
  by (simp add: setIndex_def stack_ok_indexes)

lemma cache_ok_setIndex:
  assumes "stack_ok st" "cache_ok t st i"
  shows "cache_ok t (setIndex idx st) i"
proof (cases "idx = indexes st ! top st")
  case True
  with assms show ?thesis by (simp add: setIndex_def)
next
  case False
  have tp: "length (indexes st) = maximumTreeDepth" "top st < maximumTreeDepth"
    using assms(1) by (auto simp: stack_ok_def)
  show ?thesis
    unfolding cache_ok_def
  proof (intro allI impI)
    fix j m
    assume a: "i \<le> j \<and> Suc j < maximumTreeDepth \<and> nodes (setIndex idx st) ! Suc j = Some m"
    have "Suc j \<le> top st"
      using setIndex_nodes_above [OF assms(1) _ _ False, of "Suc j"] a by (cases "Suc j \<le> top st") auto
    then have "nodes st ! Suc j = Some m" "j \<noteq> top st"
      using a setIndex_nodes_upto [OF assms(1)] by auto
    with a assms(2) obtain n where "nodes st ! j = Some n" "0 \<le> indexes st ! j"
      "indexes st ! j < int (length (Children n))" "resolve t (Children n ! ix st j) = Some m"
      unfolding cache_ok_def by blast
    then show "\<exists>n. nodes (setIndex idx st) ! j = Some n \<and> 0 \<le> indexes (setIndex idx st) ! j \<and>
        indexes (setIndex idx st) ! j < int (length (Children n)) \<and>
        resolve t (Children n ! ix (setIndex idx st) j) = Some m"
      using \<open>j \<noteq> top st\<close> \<open>Suc j \<le> top st\<close> setIndex_nodes_upto [OF assms(1), of j idx] tp
      by (auto simp: setIndex_indexes)
  qed
qed

lemma cache_ok_invalidate:
  assumes "stack_ok st"
  shows "cache_ok t (invalidateSubNodes st) (top st)"
  unfolding cache_ok_def using invalidate_nodes_above [OF assms] by auto


section \<open>Rewriting the top node\<close>

text \<open>\<open>st'\<close> is \<open>st\<close> with the top node replaced and the cache below it dropped.\<close>

definition rewritten :: "stack \<Rightarrow> node \<Rightarrow> stack \<Rightarrow> bool" where
  "rewritten st n st' \<longleftrightarrow>
     stack_ok st' \<and> top st' = top st \<and> indexes st' = indexes st \<and>
     nodes st' ! top st = Some n \<and> same_below (top st) st st' \<and>
     (\<forall>j. top st < j \<and> j < maximumTreeDepth \<longrightarrow> nodes st' ! j = None)"

lemma those_map_Some [simp]: "those (map Some xs) = Some xs"
  by (induction xs) simp_all

lemma rewritten_invalidate:
  assumes "stack_ok st"
  shows "rewritten st n (invalidateSubNodes (st\<lparr>nodes := (nodes st)[top st := Some n]\<rparr>))"
proof -
  let ?st = "st\<lparr>nodes := (nodes st)[top st := Some n]\<rparr>"
  have ok: "stack_ok ?st" using assms by (auto simp: stack_ok_def)
  have len: "top st < length (nodes st)" using assms by (simp add: stack_ok_def)
  show ?thesis
    unfolding rewritten_def same_below_def
    using ok len invalidate_nodes_above [OF ok] invalidate_nodes_upto [OF ok] by simp
qed

lemma rewritten_smallCount: "rewritten st n st' \<Longrightarrow> rewritten st n (st'\<lparr>smallCount := k\<rparr>)"
  unfolding rewritten_def stack_ok_def same_below_def by auto

lemma rewriteNodeChildren_ok:
  assumes "stack_ok st" "nodes st ! top st = Some n0"
    "\<forall>c \<in> set cs. wfc t h c" "ordered (cconts t h cs)"
  obtains st' where "rewriteNodeChildren t (map Some cs) st = Inr st'"
    "rewritten st (Node (Leafy n0) cs None) st'"
proof -
  have "CheckNodeStructure (Node (Leafy n0) cs None) = Inr ()"
    using CheckNodeStructure_ok [OF assms(3,4)] by (simp add: CheckNodeStructure_def)
  then show ?thesis
    using that rewritten_invalidate [OF assms(1), of "Node (Leafy n0) cs None"]
    by (cases "Leafy n0 \<and> Msgsize t (Node (Leafy n0) cs None) \<le> smallSize t")
      (simp_all add: rewriteNodeChildren_def node_def assms(2) Let_def rewritten_smallCount)
qed

lemma rewritten_cache: "rewritten st n st' \<Longrightarrow> cache_ok t st' (top st)"
  by (auto simp: rewritten_def cache_ok_def)

lemma rewritten_inv:
  assumes "rewritten st n st'" "path_ok t D st (top st)" "wfn t (D - top st) n"
    "C = ctxL t D st (top st) @ contents t (D - top st) n @ ctxR t D st (top st)" "ordered C"
  shows "stack_inv t D st' C"
proof -
  have same: "same_below (top st) st st'" and [simp]: "top st' = top st"
    using assms(1) by (auto simp: rewritten_def)
  show ?thesis
    using assms rewritten_cache [OF assms(1)]
    by (simp add: stack_inv_def rewritten_def frame_same [OF same])
qed

text \<open>The three ways \<^verbatim>\<open>rewriteAtIndex\<close> is used, as plain list operations.\<close>

lemma copy_prefix:
  assumes "i \<le> length cs" "i \<le> N"
  shows "(if int i > 0 then bindE (slice_upto cs (int i)) (\<lambda>s. copy_at (replicate N None) 0 (map Some s))
      else Inr (replicate N None)) = Inr (map Some (take i cs) @ replicate (N - i) None)"
proof -
  have "copy_at (replicate N None) 0 (map Some (take i cs)) =
      Inr (map Some (take i cs) @ replicate (N - i) None)"
    unfolding copy_at_def using assms by simp
  then show ?thesis using assms by (simp add: slice_upto_def)
qed

lemma copy_at_tail:
  "k = int (length pre) \<Longrightarrow> length post = length src \<Longrightarrow> copy_at (pre @ post) k src = Inr (pre @ src)"
  by (simp add: copy_at_def)

lemma elem_set_middle:
  "k = int (length pre) \<Longrightarrow> elem_set (pre @ x # post) k v = Inr (pre @ v # post)"
  by (simp add: elem_set_def)

lemma rewriteAtIndex_insert:
  assumes "nodes st ! top st = Some n" "index st = int i" "i \<le> length (Children n)"
  shows "rewriteAtIndex t False (Some c) st =
    rewriteNodeChildren t (map Some (take i (Children n) @ c # drop i (Children n))) st"
proof -
  let ?cs = "Children n"
  let ?pre = "map Some (take i ?cs)"
  have mk: "make_nil (int (length ?cs) + 1) = Inr (replicate (Suc (length ?cs)) None)"
    by (simp add: make_nil_def nat_add_distrib)
  have set: "elem_set (?pre @ replicate (Suc (length ?cs) - i) None) (int i) (Some c) =
      Inr (?pre @ Some c # replicate (length ?cs - i) None)"
    using assms(3) elem_set_middle [of "int i" ?pre] by (simp add: Suc_diff_le)
  have tail: "copy_at (?pre @ Some c # replicate (length ?cs - i) None) (int i + 1) (map Some (drop i ?cs)) =
      Inr ((?pre @ [Some c]) @ map Some (drop i ?cs))"
    using assms(3) copy_at_tail [of "int i + 1" "?pre @ [Some c]"] by simp
  have sl: "slice_from ?cs (int i) = Inr (drop i ?cs)"
    using assms(3) by (simp add: slice_from_def)
  have "rewriteAtIndex t False (Some c) st = rewriteNodeChildren t ((?pre @ [Some c]) @ map Some (drop i ?cs)) st"
    unfolding rewriteAtIndex_def node_def assms(1) deref_simps bindE_Inr Let_def assms(2)
    by (simp only: mk copy_prefix [OF assms(3) le_SucI [OF assms(3)]] set tail sl bindE_Inr
        option.case if_False prod.case simp_thms option.distinct)
  then show ?thesis by simp
qed

lemma rewriteAtIndex_replace:
  assumes "nodes st ! top st = Some n" "index st = int i" "i < length (Children n)"
  shows "rewriteAtIndex t True (Some c) st =
    rewriteNodeChildren t (map Some (take i (Children n) @ c # drop (Suc i) (Children n))) st"
proof -
  let ?cs = "Children n"
  let ?pre = "map Some (take i ?cs)"
  have le: "i \<le> length ?cs" using assms(3) by simp
  have mk: "make_nil (int (length ?cs)) = Inr (replicate (length ?cs) None)"
    by (simp add: make_nil_def)
  have "replicate (length ?cs - i) (None :: ndchild option) = None # replicate (length ?cs - Suc i) None"
    using assms(3) by (metis Suc_diff_Suc replicate_Suc)
  then have set: "elem_set (?pre @ replicate (length ?cs - i) None) (int i) (Some c) =
      Inr (?pre @ Some c # replicate (length ?cs - Suc i) None)"
    using assms(3) elem_set_middle [of "int i" ?pre] by simp
  have tail: "copy_at (?pre @ Some c # replicate (length ?cs - Suc i) None) (int i + 1) (map Some (drop (Suc i) ?cs)) =
      Inr ((?pre @ [Some c]) @ map Some (drop (Suc i) ?cs))"
    using assms(3) copy_at_tail [of "int i + 1" "?pre @ [Some c]"] by simp
  have sl: "slice_from ?cs (int i + 1) = Inr (drop (Suc i) ?cs)"
    using assms(3) by (simp add: slice_from_def nat_add_distrib)
  have "rewriteAtIndex t True (Some c) st = rewriteNodeChildren t ((?pre @ [Some c]) @ map Some (drop (Suc i) ?cs)) st"
    unfolding rewriteAtIndex_def node_def assms(1) deref_simps bindE_Inr Let_def assms(2)
    by (simp only: mk copy_prefix [OF le le] set tail sl bindE_Inr
        option.case if_False if_True prod.case simp_thms option.distinct)
  then show ?thesis by simp
qed

lemma rewriteAtIndex_delete:
  assumes "nodes st ! top st = Some n" "index st = int i" "i < length (Children n)"
  shows "rewriteAtIndex t True None st =
    rewriteNodeChildren t (map Some (take i (Children n) @ drop (Suc i) (Children n))) st"
proof -
  let ?cs = "Children n"
  let ?pre = "map Some (take i ?cs)"
  have le: "i \<le> length ?cs" "i \<le> length ?cs - 1" using assms(3) by simp_all
  have mk: "make_nil (int (length ?cs) - 1) = Inr (replicate (length ?cs - 1) None)"
    using assms(3) by (auto simp: make_nil_def nat_diff_distrib)
  have tail: "copy_at (?pre @ replicate (length ?cs - 1 - i) None) (int i) (map Some (drop (Suc i) ?cs)) =
      Inr (?pre @ map Some (drop (Suc i) ?cs))"
    using assms(3) copy_at_tail [of "int i" "?pre"] by simp
  have sl: "slice_from ?cs (int i + 1) = Inr (drop (Suc i) ?cs)"
    using assms(3) by (simp add: slice_from_def nat_add_distrib)
  have "rewriteAtIndex t True None st = rewriteNodeChildren t (?pre @ map Some (drop (Suc i) ?cs)) st"
    unfolding rewriteAtIndex_def node_def assms(1) deref_simps bindE_Inr Let_def assms(2)
    by (simp only: mk copy_prefix [OF le] tail sl bindE_Inr
        option.case if_False if_True prod.case simp_thms option.distinct)
  then show ?thesis by simp
qed

lemma rewriteNodeChildrenWithCopyOf_eq:
  "rewriteNodeChildrenWithCopyOf t cs st = rewriteNodeChildren t (map Some cs) st"
  by (simp add: rewriteNodeChildrenWithCopyOf_def make_nil_def copy_at_def)


section \<open>Reaching a child\<close>

lemma Stack_childNode_ok:
  assumes "nodes st ! top st = Some n" "cache_ok t st (top st)" "i < length (Children n)"
    "resolve t (Children n ! i) = Some m"
    "Suc (top st) < maximumTreeDepth" "length (nodes st) = maximumTreeDepth"
  shows "Stack_childNode t (int i) st = Inr (Some m)"
proof (cases "indexes st ! top st = int i \<and> nodes st ! Suc (top st) \<noteq> None")
  case True
  then obtain m' where m': "nodes st ! Suc (top st) = Some m'" by blast
  with assms(2,5) obtain n' where "nodes st ! top st = Some n'"
    "resolve t (Children n' ! ix st (top st)) = Some m'"
    unfolding cache_ok_def by blast
  with True assms m' show ?thesis
    by (simp add: Stack_childNode_def node_def)
next
  case False
  then show ?thesis
    using assms by (auto simp: Stack_childNode_def node_def Node_childNode_resolve)
qed

lemma Stack_childNode_other:
  assumes "nodes st ! top st = Some n" "indexes st ! top st \<noteq> int i" "i < length (Children n)"
    "resolve t (Children n ! i) = Some m"
  shows "Stack_childNode t (int i) st = Inr (Some m)"
  using assms by (simp add: Stack_childNode_def node_def Node_childNode_resolve)

lemma Stack_childNode_out:
  assumes "nodes st ! top st = Some n" "k < 0 \<or> int (length (Children n)) \<le> k"
  shows "Stack_childNode t k st = Inr None"
  using assms by (simp add: Stack_childNode_def node_def)

lemma child_in:
  assumes "nodes st ! top st = Some n" "index st = int i" "i < length (Children n)"
  shows "child st = Inr (Some (Children n ! i))"
  using assms by (simp add: child_def node_def)

lemma child_out:
  assumes "nodes st ! top st = Some n" "index st < 0 \<or> int (length (Children n)) \<le> index st"
  shows "child st = Inr None"
  using assms by (simp add: child_def node_def Let_def)

text \<open>What \<^verbatim>\<open>push\<close> leaves: one more level, whose node is the given one, at index 0.\<close>

lemma push_ok:
  assumes "stack_ok st" "Suc (top st) < maximumTreeDepth" "nodes st ! top st = Some n"
    "i < length (Children n)" "resolve t (Children n ! i) = Some m" "k \<le> top st" "cache_ok t st k"
  obtains st' where "push (int i) (Some m) st = Inr st'" "stack_ok st'" "top st' = Suc (top st)"
    "same_below (top st) st st'" "nodes st' ! top st = Some n" "indexes st' ! top st = int i"
    "nodes st' ! top st' = Some m" "indexes st' ! top st' = 0" "cache_ok t st' k"
    "smallCount st' = smallCount st"
proof -
  define s1 where "s1 = setIndex (int i) st"
  define s2 where "s2 = s1\<lparr>top := Suc (top st), maxtop := max (maxtop s1) (Suc (top st)),
     nodes := (nodes s1)[Suc (top st) := Some m]\<rparr>"
  have ok1: "stack_ok s1" "top s1 = top st" using assms(1) by (simp_all add: s1_def)
  have c1: "cache_ok t s1 k" unfolding s1_def by (rule cache_ok_setIndex [OF assms(1,7)])
  have len: "length (nodes s1) = maximumTreeDepth" "length (indexes s1) = maximumTreeDepth"
    using stack_ok_lengths [OF ok1(1)] .
  have n1: "nodes s1 ! top st = Some n" "indexes s1 ! top st = int i"
    using setIndex_nodes_upto [OF assms(1), of "top st"] assms(1,3) by (simp_all add: s1_def)
  have ok2: "stack_ok s2" using ok1 assms(2) by (auto simp: stack_ok_def s2_def)
  have old: "nodes s1 ! Suc (top st) = Some m" if "nodes s1 ! Suc (top st) \<noteq> None"
    using c1 assms(2,5,6) n1 that unfolding cache_ok_def by fastforce
  have c2: "cache_ok t s2 k"
    unfolding cache_ok_def
  proof (intro allI impI)
    fix j m'
    assume a: "k \<le> j \<and> Suc j < maximumTreeDepth \<and> nodes s2 ! Suc j = Some m'"
    show "\<exists>n. nodes s2 ! j = Some n \<and> 0 \<le> indexes s2 ! j \<and> indexes s2 ! j < int (length (Children n)) \<and>
        resolve t (Children n ! ix s2 j) = Some m'"
    proof (cases "j = top st")
      case True
      with a n1 assms(2,4,5) len show ?thesis by (simp add: s2_def)
    next
      case False
      with a have "nodes s1 ! Suc j = Some m'" by (simp add: s2_def)
      with c1 a obtain nn where nn: "nodes s1 ! j = Some nn" "0 \<le> indexes s1 ! j"
        "indexes s1 ! j < int (length (Children nn))" "resolve t (Children nn ! ix s1 j) = Some m'"
        unfolding cache_ok_def by blast
      moreover have "nodes s2 ! j = nodes s1 ! j"
        using old nn(1) len assms(2) by (cases "j = Suc (top st)") (auto simp: s2_def)
      ultimately show ?thesis by (simp add: s2_def)
    qed
  qed
  define st' where "st' = setIndex 0 s2"
  have "push (int i) (Some m) st = Inr st'"
    using ok1(2) assms(2) len
    by (auto simp: push_def Let_def s1_def [symmetric] st'_def s2_def max_def)
  moreover have "stack_ok st'" "top st' = Suc (top st)" "cache_ok t st' k"
    using ok2 cache_ok_setIndex [OF ok2 c2] by (simp_all add: st'_def) (simp add: s2_def)
  moreover have "same_below (top st) st st'"
  proof -
    have "same_below (top st) st s1" unfolding s1_def by (rule same_below_setIndex [OF assms(1)])
    moreover have "same_below (top st) s1 s2" by (simp add: same_below_def s2_def)
    moreover have "same_below (Suc (top st)) s2 st'"
      using same_below_setIndex [OF ok2, of 0] by (simp add: st'_def) (simp add: s2_def)
    ultimately show ?thesis by (meson same_below_trans same_below_mono lessI less_imp_le)
  qed
  moreover have "nodes st' ! top st = Some n" "nodes st' ! top st' = Some m"
    "indexes st' ! top st = int i" "indexes st' ! top st' = 0"
    using setIndex_nodes_upto [OF ok2, of "top st" 0] setIndex_nodes_upto [OF ok2, of "Suc (top st)" 0]
      n1 len assms(2)
    by (simp_all add: st'_def) (simp_all add: s2_def setIndex_indexes)
  moreover have "smallCount st' = smallCount st"
    by (simp add: st'_def s2_def s1_def)
  ultimately show ?thesis using that by blast
qed


section \<open>Popping\<close>

definition popped :: "tree \<Rightarrow> node \<Rightarrow> ndchild list" where
  "popped t n =
     (case Children n of [] \<Rightarrow> []
      | c0 # _ \<Rightarrow> [NodeDataChild (Key c0) (placeholderValue t) (Some n)])"

lemma popped_nonempty:
  "Children n \<noteq> [] \<Longrightarrow>
     popped t n = [NodeDataChild (Key (hd (Children n))) (placeholderValue t) (Some n)]"
  by (cases "Children n") (simp_all add: popped_def)

lemma wfc_popped: "wfn t h n \<Longrightarrow> c \<in> set (popped t n) \<Longrightarrow> wfc t (Suc h) c"
  by (cases "Children n") (auto simp: popped_def wfc_def resolve_def)

lemma cconts_popped: "cconts t (Suc h) (popped t n) = contents t h n"
proof (cases "Children n")
  case Nil
  then show ?thesis by (simp add: popped_def contents_eq)
next
  case (Cons c cs)
  then show ?thesis by (simp add: popped_def ccont_def resolve_def)
qed

lemma stack_inv_lower:
  assumes "stack_inv t D st C"
  shows "stack_ok st" "path_ok t D st (top st)" "cache_ok t st (top st)" "ordered C" "top st \<le> D"
  using assms by (auto simp: stack_inv_def path_ok_def)

lemma stack_inv_node:
  assumes "stack_inv t D st C"
  obtains n where "nodes st ! top st = Some n" "wfn t (D - top st) n"
    "C = ctxL t D st (top st) @ contents t (D - top st) n @ ctxR t D st (top st)"
  using assms by (auto simp: stack_inv_def)

text \<open>\<^verbatim>\<open>pop\<close> needs of the level below only that its index is in range.\<close>

lemma pop_inv:
  assumes inv: "stack_inv t D st C" and top: "top st = Suc i"
    and n: "nodes st ! top st = Some n" and p: "nodes st ! i = Some p"
  obtains st' where "pop t st = Inr st'" "stack_inv t D st' C" "top st' = i"
    "indexes st' = indexes st" "same_below i st st'"
    "nodes st' ! i = Some (Node False (take (ix st i) (Children p) @ popped t n @
        drop (Suc (ix st i)) (Children p)) None)"
    "cache_ok t st' i"
proof -
  note low = stack_inv_lower [OF inv]
  let ?st = "st\<lparr>top := i\<rparr>"
  let ?k = "ix st i"
  have iD: "Suc i \<le> D" "D - i = Suc (D - Suc i)" using low(5) top by simp_all
  have pw: "wfn t (D - i) p" "0 \<le> indexes st ! i" "?k < length (Children p)"
    using low(2) top p by (auto simp: path_ok_def less_Suc_eq)
  obtain n' where "nodes st ! Suc i = Some n'" "wfn t (D - Suc i) n'"
    "C = ctxL t D st (Suc i) @ contents t (D - Suc i) n' @ ctxR t D st (Suc i)"
    by (rule stack_inv_node [OF inv]) (simp only: top)
  with n top have nw: "wfn t (D - Suc i) n"
    and C: "C = ctxL t D st (Suc i) @ contents t (D - Suc i) n @ ctxR t D st (Suc i)"
    by simp_all
  define cs where "cs = take ?k (Children p) @ popped t n @ drop (Suc ?k) (Children p)"
  have leafy: "\<not> Leafy p" using wfn_Leafy [OF pw(1)] iD by simp
  have wcs: "\<forall>c \<in> set cs. wfc t (D - i) c"
  proof
    fix c assume "c \<in> set cs"
    then consider "c \<in> set (Children p)" | "c \<in> set (popped t n)"
      by (auto simp: cs_def dest: in_set_takeD in_set_dropD)
    then show "wfc t (D - i) c"
      using pw(1) wfc_popped [OF nw] iD(2) by cases (auto simp: wfn_eq)
  qed
  have C2: "C = ctxL t D st i @ cconts t (D - i) cs @ ctxR t D st i"
    using C p iD(2) by (simp add: cs_def cconts_popped)
  then have ocs: "ordered (cconts t (D - i) cs)"
    using low(4) by (simp only: ordered_append)
  have ok: "stack_ok ?st" using low(1) top by (auto simp: stack_ok_def)
  obtain st' where st': "rewriteNodeChildren t (map Some cs) ?st = Inr st'"
    "rewritten ?st (Node (Leafy p) cs None) st'"
    by (rule rewriteNodeChildren_ok [OF ok _ wcs ocs]) (simp add: p)
  have "pop t st = rewriteNodeChildren t (map Some cs) ?st"
  proof (cases "Children n")
    case Nil
    then show ?thesis
      using top n p pw rewriteAtIndex_delete [of ?st p ?k t]
      by (simp add: pop_def popNode_def cs_def popped_def index_def)
  next
    case (Cons c0 cs0)
    then show ?thesis
      using top n p pw rewriteAtIndex_replace [of ?st p ?k t]
      by (simp add: pop_def popNode_def cs_def popped_def index_def)
  qed
  moreover have "stack_inv t D st' C"
  proof (rule rewritten_inv [OF st'(2)])
    have same: "same_below i st ?st" by (simp add: same_below_def)
    show "path_ok t D ?st (top ?st)"
      using path_ok_mono [OF low(2), of i] top by (simp add: path_ok_same [OF same])
    show "wfn t (D - top ?st) (Node (Leafy p) cs None)"
      using wcs leafy iD by (simp add: wfn_eq)
    show "C = ctxL t D ?st (top ?st) @ contents t (D - top ?st) (Node (Leafy p) cs None) @
        ctxR t D ?st (top ?st)"
      using C2 by (simp add: frame_same [OF same] contents_eq)
  qed (rule low(4))
  ultimately show ?thesis
    using st' leafy that rewritten_cache [OF st'(2), of t] by (simp add: rewritten_def same_below_def cs_def)
qed

lemma popAll_inv:
  assumes "stack_inv t D st C"
  obtains st' where "popAll t st = Inr st'" "stack_inv t D st' C" "top st' = 0"
    "top st = 0 \<Longrightarrow> st' = st"
proof -
  have "\<exists>st'. popAll t st = Inr st' \<and> stack_inv t D st' C \<and> top st' = 0 \<and> (top st = 0 \<longrightarrow> st' = st)"
    using assms
  proof (induction "top st" arbitrary: st)
    case 0
    then show ?case by (simp add: popAll.simps [of t st])
  next
    case (Suc i)
    obtain n where n: "nodes st ! top st = Some n" by (rule stack_inv_node [OF Suc.prems])
    obtain p where p: "nodes st ! i = Some p"
      by (rule path_ok_node [OF stack_inv_lower(2) [OF Suc.prems], of i]) (use Suc.hyps(2) in simp)
    obtain st1 where st1: "pop t st = Inr st1" "stack_inv t D st1 C" "top st1 = i"
      by (rule pop_inv [OF Suc.prems Suc.hyps(2) [symmetric] n p]) blast
    have "\<exists>st'. popAll t st1 = Inr st' \<and> stack_inv t D st' C \<and> top st' = 0"
      using Suc.hyps(1) [of st1] st1(2,3) by blast
    then show ?case using st1(1) Suc.hyps(2) by (simp add: popAll.simps [of t st])
  qed
  then show ?thesis by (elim exE conjE) (rule that, simp_all)
qed

end
