(* ===== verification/IbSearch.thy ===== *)
theory IbSearch
  imports IbInv
begin

text \<open>
  Reading the tree: the search for a key, the moves to the neighbouring entries, and what
  \<^verbatim>\<open>Get\<close>, \<^verbatim>\<open>NextKey\<close> and \<^verbatim>\<open>PrevKey\<close> return. A stack that has only been read from is
  \<open>clean\<close>; its position cuts the entries of the tree into those left of it (\<open>posL\<close>) and
  those from it on (\<open>posR\<close>), and each move is described by how it moves the cut.
\<close>

section \<open>Clean stacks\<close>

lemma clean_parts:
  assumes "clean t D root st"
  shows "stack_ok st" "nodes st ! 0 = Some root" "wf_tree t D root" "D < maximumTreeDepth"
    "cache_ok t st 0" "top st \<le> D" "top st < maximumTreeDepth"
    "length (nodes st) = maximumTreeDepth" "length (indexes st) = maximumTreeDepth"
  using assms by (auto simp: clean_def stack_ok_def)

lemma clean_level_Some:
  assumes "clean t D root st" "j \<le> top st"
  shows "\<exists>n. nodes st ! j = Some n"
proof -
  have "nodes st ! (top st - k) \<noteq> None" for k
  proof (induction k)
    case 0
    then show ?case using assms(1) by (simp add: clean_def)
  next
    case (Suc k)
    show ?case
    proof (cases "k < top st")
      case True
      then have e: "top st - k = Suc (top st - Suc k)" by simp
      obtain m where "nodes st ! Suc (top st - Suc k) = Some m" using Suc unfolding e by blast
      moreover have "Suc (top st - Suc k) < maximumTreeDepth" using clean_parts(7) [OF assms(1)] True by simp
      ultimately show ?thesis
        using clean_parts(5) [OF assms(1)] unfolding cache_ok_def by blast
    next
      case False
      with Suc show ?thesis by simp
    qed
  qed
  from this [of "top st - j"] show ?thesis using assms(2) by auto
qed

lemma clean_step_down:
  assumes "clean t D root st" "j < top st" "nodes st ! j = Some n"
  shows "0 \<le> indexes st ! j" "indexes st ! j < int (length (Children n))"
    "resolve t (Children n ! ix st j) = nodes st ! Suc j"
proof -
  obtain m where m: "nodes st ! Suc j = Some m"
    using clean_level_Some [OF assms(1), of "Suc j"] assms(2) by auto
  moreover have "Suc j < maximumTreeDepth" using clean_parts(7) [OF assms(1)] assms(2) by simp
  ultimately have "0 \<le> indexes st ! j \<and> indexes st ! j < int (length (Children n)) \<and>
      resolve t (Children n ! ix st j) = Some m"
    using clean_parts(5) [OF assms(1)] assms(3) unfolding cache_ok_def by fastforce
  with m show "0 \<le> indexes st ! j" "indexes st ! j < int (length (Children n))"
    "resolve t (Children n ! ix st j) = nodes st ! Suc j" by simp_all
qed

lemma clean_level:
  assumes "clean t D root st" "j \<le> top st"
  shows "\<exists>n. nodes st ! j = Some n \<and> wfn t (D - j) n \<and> (0 < D \<longrightarrow> Children n \<noteq> []) \<and>
    contents t D root = ctxL t D st j @ contents t (D - j) n @ ctxR t D st j"
  using assms(2)
proof (induction j)
  case 0
  then show ?case using clean_parts(2,3) [OF assms(1)] by (auto simp: wf_tree_def)
next
  case (Suc j)
  then obtain n where n: "nodes st ! j = Some n" "wfn t (D - j) n"
    "contents t D root = ctxL t D st j @ contents t (D - j) n @ ctxR t D st j" by auto
  have e: "D - j = Suc (D - Suc j)" using Suc.prems clean_parts(6) [OF assms(1)] by simp
  note sd = clean_step_down [OF assms(1) Suc_le_lessD [OF Suc.prems] n(1)]
  then have len: "ix st j < length (Children n)" by linarith
  obtain m where m: "resolve t (Children n ! ix st j) = Some m" "wfn t (D - Suc j) m" "Children m \<noteq> []"
    "ccont t (Suc (D - Suc j)) (Children n ! ix st j) = contents t (D - Suc j) m"
    by (rule wfc_nth_resolve [OF n(2) [unfolded e] len])
  have "contents t (D - j) n = cconts t (D - j) (take (ix st j) (Children n)) @
      contents t (D - Suc j) m @ cconts t (D - j) (drop (Suc (ix st j)) (Children n))"
    unfolding contents_eq [of t "D - j" n] using cconts_split [OF len, of t "D - j"] m(4) by (simp only: e)
  then show ?case using n m sd(3) by simp
qed

lemma clean_inv: "clean t D root st \<Longrightarrow> stack_inv t D st (contents t D root)"
proof -
  assume c: "clean t D root st"
  have "path_ok t D st (top st)"
    unfolding path_ok_def
  proof (intro conjI allI impI)
    fix j assume j: "j < top st"
    obtain n where "nodes st ! j = Some n" "wfn t (D - j) n"
      using clean_level [OF c, of j] j by auto
    with clean_step_down [OF c j] show "\<exists>n. nodes st ! j = Some n \<and> wfn t (D - j) n \<and>
        0 \<le> indexes st ! j \<and> indexes st ! j < int (length (Children n))" by blast
  qed (rule clean_parts(6) [OF c])
  moreover have "ordered (contents t D root)" using clean_parts(3) [OF c] by (simp add: wf_tree_def)
  moreover note clean_level [OF c order_refl] clean_parts(1) [OF c] cache_ok_mono [OF clean_parts(5) [OF c], of "top st"]
  ultimately show ?thesis unfolding stack_inv_def by blast
qed

lemma clean_node:
  assumes "clean t D root st"
  obtains n where "nodes st ! top st = Some n" "wfn t (D - top st) n" "0 < D \<Longrightarrow> Children n \<noteq> []"
    "contents t D root = ctxL t D st (top st) @ contents t (D - top st) n @ ctxR t D st (top st)"
    "ordered (contents t D root)" "\<forall>c \<in> set (Children n). wfc t (D - top st) c"
    "ordered (cconts t (D - top st) (Children n))"
proof -
  obtain n where n: "nodes st ! top st = Some n" "wfn t (D - top st) n" "0 < D \<longrightarrow> Children n \<noteq> []"
    "contents t D root = ctxL t D st (top st) @ contents t (D - top st) n @ ctxR t D st (top st)"
    using clean_level [OF assms order_refl] by blast
  moreover have o: "ordered (contents t D root)" using clean_parts(3) [OF assms] by (simp add: wf_tree_def)
  moreover have "\<forall>c \<in> set (Children n). wfc t (D - top st) c" using n(2) by (simp add: wfn_eq)
  moreover have "ordered (cconts t (D - top st) (Children n))"
    using o n(4) by (simp add: ordered_append contents_eq [of t "D - top st"])
  ultimately show ?thesis by (intro that) simp_all
qed

lemma clean_setIndex: "clean t D root st \<Longrightarrow> clean t D root (setIndex idx st)"
  using setIndex_nodes_upto [of st 0 idx] setIndex_nodes_upto [of st "top st" idx]
    cache_ok_setIndex [of st t 0 idx]
  by (simp add: clean_def)

lemma clean_invalidate: "clean t D root st \<Longrightarrow> clean t D root (invalidateSubNodes st)"
proof -
  assume c: "clean t D root st"
  note ok = clean_parts(1) [OF c]
  have "cache_ok t (invalidateSubNodes st) 0"
    unfolding cache_ok_def
  proof (intro allI impI)
    fix j m assume a: "0 \<le> j \<and> Suc j < maximumTreeDepth \<and> nodes (invalidateSubNodes st) ! Suc j = Some m"
    have le: "Suc j \<le> top st" using invalidate_nodes_above [OF ok, of "Suc j"] a by (cases "Suc j \<le> top st") auto
    then have "nodes st ! Suc j = Some m" using a invalidate_nodes_upto [OF ok, of "Suc j"] by simp
    then have "\<exists>n. nodes st ! j = Some n \<and> 0 \<le> indexes st ! j \<and> indexes st ! j < int (length (Children n)) \<and>
        resolve t (Children n ! ix st j) = Some m"
      using clean_parts(5) [OF c] a unfolding cache_ok_def by blast
    then show "\<exists>n. nodes (invalidateSubNodes st) ! j = Some n \<and> 0 \<le> indexes (invalidateSubNodes st) ! j \<and>
        indexes (invalidateSubNodes st) ! j < int (length (Children n)) \<and>
        resolve t (Children n ! ix (invalidateSubNodes st) j) = Some m"
      using invalidate_nodes_upto [OF ok, of j] le by simp
  qed
  then show ?thesis
    using c ok invalidate_nodes_upto [OF ok] by (simp add: clean_def)
qed

lemma clean_lower_top: "clean t D root st \<Longrightarrow> i \<le> top st \<Longrightarrow> clean t D root (st\<lparr>top := i\<rparr>)"
  using clean_level_Some [of t D root st i]
  by (auto simp: clean_def stack_ok_def cache_ok_def)

lemma clean_push:
  assumes c: "clean t D root st" and "top st < D" "nodes st ! top st = Some n" "i < length (Children n)"
  obtains m st' where "resolve t (Children n ! i) = Some m" "push (int i) (Some m) st = Inr st'"
    "Stack_childNode t (int i) st = Inr (Some m)"
    "clean t D root st'" "top st' = Suc (top st)" "same_below (top st) st st'"
    "nodes st' ! top st = Some n" "indexes st' ! top st = int i"
    "nodes st' ! top st' = Some m" "index st' = 0" "Children m \<noteq> []"
proof -
  note cp = clean_parts [OF c]
  have e: "D - top st = Suc (D - Suc (top st))" using assms(2) by simp
  have w: "wfn t (D - top st) n" by (rule clean_node [OF c]) (use assms(3) in simp)
  obtain m where m: "resolve t (Children n ! i) = Some m" "Children m \<noteq> []"
    by (rule wfc_nth_resolve [OF w [unfolded e] assms(4)]) blast
  have lt: "Suc (top st) < maximumTreeDepth" using assms(2) cp(4) by simp
  obtain st' where st': "push (int i) (Some m) st = Inr st'" "stack_ok st'" "top st' = Suc (top st)"
    "same_below (top st) st st'" "nodes st' ! top st = Some n" "indexes st' ! top st = int i"
    "nodes st' ! top st' = Some m" "indexes st' ! top st' = 0" "cache_ok t st' 0"
    by (rule push_ok [OF cp(1) lt assms(3,4) m(1) le0 cp(5)])
  have "nodes st' ! 0 = Some root"
    using st'(4,5) cp(2) assms(3) by (cases "top st") (auto simp: same_below_def)
  then have "clean t D root st'"
    using st' cp assms(2) by (simp add: clean_def)
  moreover have "Stack_childNode t (int i) st = Inr (Some m)"
    using Stack_childNode_ok [OF assms(3) cache_ok_mono [OF cp(5)] assms(4) m(1) lt cp(8)] by simp
  ultimately show ?thesis using that m st' by (simp add: index_def)
qed


section \<open>Positions\<close>

definition posL :: "tree \<Rightarrow> nat \<Rightarrow> stack \<Rightarrow> kv list" where
  "posL t D st =
     ctxL t D st (top st) @ cconts t (D - top st) (take (nat (index st)) (Children (nd st (top st))))"

definition posR :: "tree \<Rightarrow> nat \<Rightarrow> stack \<Rightarrow> kv list" where
  "posR t D st =
     cconts t (D - top st) (drop (nat (index st)) (Children (nd st (top st)))) @ ctxR t D st (top st)"

lemma clean_pos: "clean t D root st \<Longrightarrow> posL t D st @ posR t D st = contents t D root"
proof (erule clean_node)
  fix n
  assume "nodes st ! top st = Some n"
    and "contents t D root = ctxL t D st (top st) @ contents t (D - top st) n @ ctxR t D st (top st)"
  moreover have "contents t (D - top st) n = cconts t (D - top st) (take (nat (index st)) (Children n)) @
      cconts t (D - top st) (drop (nat (index st)) (Children n))"
    unfolding contents_eq [of t "D - top st" n] by (rule cconts_take_drop)
  ultimately show ?thesis by (simp add: posL_def posR_def)
qed

lemma cconts_take_less:
  assumes "\<forall>c \<in> set cs. wfc t h c" "ordered (cconts t h cs)" "i < length cs"
    "p \<in> set (cconts t h (take i cs))"
  shows "fst p < Key (cs ! i)"
proof -
  have "Key (cs ! i) \<in> fst ` set (ccont t h (cs ! i))"
    by (rule ccont_key_mem) (use assms in simp)
  then obtain q where q: "q \<in> set (ccont t h (cs ! i))" "Key (cs ! i) = fst q" by (rule imageE)
  have "ordered (cconts t h (take i cs) @ ccont t h (cs ! i) @ cconts t h (drop (Suc i) cs))"
    using assms(2) cconts_split [OF assms(3), of t h] by simp
  then have "\<forall>x \<in> set (cconts t h (take i cs)). \<forall>y \<in> set (ccont t h (cs ! i)). fst x < fst y"
    unfolding ordered_append by (simp only: set_append) blast
  with assms(4) q(1) have "fst p < fst q" by blast
  then show ?thesis by (simp only: q(2))
qed

lemma cconts_drop_ge:
  assumes "\<forall>c \<in> set cs. wfc t h c" "ordered (cconts t h cs)" "i < length cs"
    "p \<in> set (cconts t h (drop i cs))"
  shows "Key (cs ! i) \<le> fst p"
proof -
  have o: "ordered (cconts t h (take i cs) @ ccont t h (cs ! i) @ cconts t h (drop (Suc i) cs))"
    using assms(2) cconts_split [OF assms(3), of t h] by simp
  have "Key (cs ! i) \<in> fst ` set (ccont t h (cs ! i))"
    by (rule ccont_key_mem) (use assms in simp)
  then obtain q where q: "q \<in> set (ccont t h (cs ! i))" "Key (cs ! i) = fst q" by (rule imageE)
  have "drop i cs = cs ! i # drop (Suc i) cs" using assms(3) by (rule Cons_nth_drop_Suc [symmetric])
  then consider "p \<in> set (ccont t h (cs ! i))" | "p \<in> set (cconts t h (drop (Suc i) cs))"
    using assms(4) by auto
  then show ?thesis
  proof cases
    case 1
    then show ?thesis using o assms(1,3) ccont_key_le [of t h "cs ! i" p] by (simp add: ordered_append)
  next
    case 2
    have "\<forall>x \<in> set (ccont t h (cs ! i)). \<forall>y \<in> set (cconts t h (drop (Suc i) cs)). fst x < fst y"
      using o unfolding ordered_append by (simp only: set_append) blast
    with 2 q have "fst q < fst p" by blast
    then show ?thesis using q by simp
  qed
qed

text \<open>The two binary searches of \<^verbatim>\<open>search\<close> find the cut of a node's entries at the key.\<close>

lemma key_mono:
  assumes "\<forall>c \<in> set cs. wfc t h c" "ordered (cconts t h cs)" "a \<le> b" "b < length cs"
  shows "Key (cs ! a) \<le> Key (cs ! b)"
  using ordered_keys(1) [OF assms(1,2)] assms(3,4)
  by (cases "a = b") (auto simp: sorted_wrt_iff_nth_less intro!: less_imp_le)

lemma search_leaf_cut:
  fixes key :: gostring
  assumes "\<forall>c \<in> set cs. wfc t h c" "ordered (cconts t h cs)" "h = 0"
    "s = sortSearch (\<lambda>i. Key (cs ! i) \<ge> key) 0 (length cs)"
  shows "s \<le> length cs" "\<forall>p \<in> set (cconts t h (take s cs)). fst p < key"
    "\<forall>p \<in> set (cconts t h (drop s cs)). key \<le> fst p"
proof -
  have mono: "\<forall>a b. a \<le> b \<longrightarrow> b < length cs \<longrightarrow> key \<le> Key (cs ! a) \<longrightarrow> key \<le> Key (cs ! b)"
    using key_mono [OF assms(1,2)] by (meson order_trans)
  note ss = sortSearch_least [of "length cs" "\<lambda>i. Key (cs ! i) \<ge> key", OF mono]
  show "s \<le> length cs" using ss(3) assms(4) by blast
  show "\<forall>p \<in> set (cconts t h (take s cs)). fst p < key"
  proof
    fix p assume "p \<in> set (cconts t h (take s cs))"
    then obtain c where "c \<in> set (take s cs)" "p = entry c" using assms(3) by (auto simp: ccont_def)
    then obtain i where "i < s" "i < length cs" "p = entry (cs ! i)" by (auto simp: in_set_conv_nth)
    with ss(1) [of i] assms(4) show "fst p < key" by (simp add: entry_def not_le)
  qed
  show "\<forall>p \<in> set (cconts t h (drop s cs)). key \<le> fst p"
  proof
    fix p assume p: "p \<in> set (cconts t h (drop s cs))"
    then have "s < length cs" by (cases "s < length cs") auto
    with ss(2) [of s] assms(4) have "key \<le> Key (cs ! s)" by simp
    also have "\<dots> \<le> fst p" by (rule cconts_drop_ge [OF assms(1,2) \<open>s < length cs\<close> p])
    finally show "key \<le> fst p" .
  qed
qed

lemma search_inner_cut:
  fixes key :: gostring
  assumes "\<forall>c \<in> set cs. wfc t h c" "ordered (cconts t h cs)" "cs \<noteq> []"
    "i = sortSearch (\<lambda>i. Key (cs ! i) > key) 0 (length cs) - 1"
  shows "i < length cs" "\<forall>p \<in> set (cconts t h (take i cs)). fst p < key"
    "\<forall>p \<in> set (cconts t h (drop (Suc i) cs)). key < fst p"
proof -
  let ?s = "sortSearch (\<lambda>i. Key (cs ! i) > key) 0 (length cs)"
  have mono: "\<forall>a b. a \<le> b \<longrightarrow> b < length cs \<longrightarrow> key < Key (cs ! a) \<longrightarrow> key < Key (cs ! b)"
    using key_mono [OF assms(1,2)] by (meson order_less_le_trans)
  note ss = sortSearch_least [of "length cs" "\<lambda>i. Key (cs ! i) > key", OF mono]
  have s: "?s \<le> length cs" using ss(3) by blast
  show il: "i < length cs" using s assms(3,4) by (cases cs) auto
  show "\<forall>p \<in> set (cconts t h (take i cs)). fst p < key"
  proof (cases "?s = 0")
    case True
    then show ?thesis using assms(4) by simp
  next
    case False
    show ?thesis
    proof
      fix p assume "p \<in> set (cconts t h (take i cs))"
      then have "fst p < Key (cs ! i)" by (rule cconts_take_less [OF assms(1,2) il])
      also have "\<dots> \<le> key" using ss(1) [of i] False assms(4) by (simp add: not_less)
      finally show "fst p < key" .
    qed
  qed
  show "\<forall>p \<in> set (cconts t h (drop (Suc i) cs)). key < fst p"
  proof
    fix p assume p: "p \<in> set (cconts t h (drop (Suc i) cs))"
    then have l: "Suc i < length cs" by (cases "Suc i < length cs") auto
    have "key < Key (cs ! Suc i)" by (rule ss(2)) (use l assms(4) in auto)
    also have "\<dots> \<le> fst p" by (rule cconts_drop_ge [OF assms(1,2) l p])
    finally show "key < fst p" .
  qed
qed

definition cut_at :: "tree \<Rightarrow> nat \<Rightarrow> stack \<Rightarrow> gostring \<Rightarrow> bool" where
  "cut_at t D st key \<longleftrightarrow>
     top st = D \<and> 0 \<le> index st \<and> index st \<le> int (length (Children (nd st D))) \<and>
     (\<forall>p \<in> set (posL t D st). fst p < key) \<and> (\<forall>p \<in> set (posR t D st). key \<le> fst p) \<and>
     (\<forall>p \<in> set (ctxR t D st D). key < fst p)"

lemma search_loop_cut:
  assumes "clean t D root st"
    "\<forall>p \<in> set (ctxL t D st (top st)). fst p < key" "\<forall>p \<in> set (ctxR t D st (top st)). key < fst p"
  shows "\<exists>st'. search_loop t key st = Inr st' \<and> clean t D root st' \<and> cut_at t D st' key"
  using assms
proof (induction "D - top st" arbitrary: st)
  case 0
  then have tD: "top st = D" using clean_parts(6) [OF 0(2)] by simp
  obtain n where n: "nodes st ! top st = Some n" "wfn t (D - top st) n"
    "\<forall>c \<in> set (Children n). wfc t (D - top st) c" "ordered (cconts t (D - top st) (Children n))"
    by (rule clean_node [OF 0(2)])
  define s where "s = sortSearch (\<lambda>i. Key (Children n ! i) \<ge> key) 0 (length (Children n))"
  note cut = search_leaf_cut [OF n(3,4) "0.hyps"(1) [symmetric] s_def]
  have same: "same_below (top st) st (setIndex (int s) st)"
    by (rule same_below_setIndex [OF clean_parts(1) [OF 0(2)]])
  have "nodes (setIndex (int s) st) ! top st = Some n"
    using setIndex_nodes_upto [OF clean_parts(1) [OF 0(2)], of "top st"] n(1) by simp
  then have "cut_at t D (setIndex (int s) st) key"
    using cut "0.prems"(2,3) tD clean_parts(1) [OF 0(2)] ctxL_same [OF same, of t D] ctxR_same [OF same, of t D]
    by (auto simp: cut_at_def posL_def posR_def index_def)
  moreover have "search_loop t key st = Inr (setIndex (int s) st)"
    using n(1) wfn_Leafy [OF n(2)] "0.hyps"
    by (simp add: search_loop.simps [of t key st] node_def Let_def s_def)
  ultimately show ?case using clean_setIndex [OF 0(2)] by blast
next
  case (Suc d)
  then have tD: "top st < D" by simp
  obtain n where n: "nodes st ! top st = Some n" "wfn t (D - top st) n" "Children n \<noteq> []"
    "\<forall>c \<in> set (Children n). wfc t (D - top st) c" "ordered (cconts t (D - top st) (Children n))"
    by (rule clean_node [OF Suc(3)]) (use tD in simp)
  define i where "i = sortSearch (\<lambda>i. Key (Children n ! i) > key) 0 (length (Children n)) - 1"
  note cut = search_inner_cut [OF n(4,5,3) i_def]
  obtain m st1 where st1: "push (int i) (Some m) st = Inr st1"
    "Stack_childNode t (int i) st = Inr (Some m)" "clean t D root st1" "top st1 = Suc (top st)"
    "same_below (top st) st st1" "nodes st1 ! top st = Some n" "indexes st1 ! top st = int i"
    by (rule clean_push [OF Suc(3) tD n(1) cut(1)])
  have "\<forall>p \<in> set (ctxL t D st1 (top st1)). fst p < key" "\<forall>p \<in> set (ctxR t D st1 (top st1)). key < fst p"
    using Suc.prems(2,3) cut st1(4,6,7) ctxL_same [OF st1(5), of t D] ctxR_same [OF st1(5), of t D] by auto
  then obtain st' where st': "search_loop t key st1 = Inr st'" "clean t D root st'" "cut_at t D st' key"
    using Suc.hyps(1) [OF _ st1(3)] Suc.hyps(2) st1(4) by fastforce
  have i': "(if int (sortSearch (\<lambda>i. Key (Children n ! i) > key) 0 (length (Children n))) - 1 < 0 then 0
      else int (sortSearch (\<lambda>i. Key (Children n ! i) > key) 0 (length (Children n))) - 1) = int i"
    by (auto simp: i_def)
  have "\<not> Leafy n" using wfn_Leafy [OF n(2)] tD by simp
  then have "search_loop t key st = search_loop t key st1"
    using n(1) st1(1,2) i' by (simp add: search_loop.simps [of t key st] node_def Let_def)
  with st' show ?case by auto
qed


section \<open>Moves to the neighbouring entries\<close>

lemma goDownLeftAny_pos:
  assumes "clean t D root st" "top st < D" "nodes st ! top st = Some n" "i < length (Children n)"
  shows "\<exists>st'. goDownLeftAny_loop t (int i) st = Inr st' \<and> clean t D root st' \<and> top st' = D \<and>
    index st' = 0 \<and> Children (nd st' D) \<noteq> [] \<and>
    posL t D st' = ctxL t D st (top st) @ cconts t (D - top st) (take i (Children n)) \<and>
    posR t D st' = cconts t (D - top st) (drop i (Children n)) @ ctxR t D st (top st)"
  using assms
proof (induction "D - top st" arbitrary: st n i)
  case (Suc d)
  obtain m st1 where m: "resolve t (Children n ! i) = Some m"
    and st1: "push (int i) (Some m) st = Inr st1"
    "Stack_childNode t (int i) st = Inr (Some m)" "clean t D root st1" "top st1 = Suc (top st)"
    "same_below (top st) st st1" "nodes st1 ! top st = Some n" "indexes st1 ! top st = int i"
    "nodes st1 ! top st1 = Some m" "index st1 = 0" "Children m \<noteq> []"
    by (rule clean_push [OF Suc.prems])
  have nl: "\<not> Leafy n"
    by (rule clean_node [OF Suc.prems(1)]) (use wfn_Leafy Suc.prems in fastforce)
  have step: "goDownLeftAny_loop t (int i) st = goDownLeftAny_loop t 0 st1"
    using nl st1(1,2) Suc.prems(3) by (simp add: goDownLeftAny_loop.simps [of t "int i" st] node_def pushIndex_def)
  have wm: "wfn t (D - Suc (top st)) m"
    by (rule clean_node [OF st1(3)]) (use st1 in simp)
  have e: "D - top st = Suc (D - Suc (top st))" using Suc.prems(2) by simp
  have cm: "ccont t (D - top st) (Children n ! i) = cconts t (D - Suc (top st)) (Children m)"
    unfolding e using m by (simp add: ccont_def contents_eq)
  have dr: "drop i (Children n) = Children n ! i # drop (Suc i) (Children n)"
    by (rule Cons_nth_drop_Suc [OF Suc.prems(4), symmetric])
  have L: "ctxL t D st1 (top st1) = ctxL t D st (top st) @ cconts t (D - top st) (take i (Children n))"
    using st1 ctxL_same [OF st1(5), of t D] by simp
  have R: "cconts t (D - Suc (top st)) (Children m) @ ctxR t D st1 (top st1) =
      cconts t (D - top st) (drop i (Children n)) @ ctxR t D st (top st)"
    using st1 ctxR_same [OF st1(5), of t D] cm dr by simp
  show ?case
  proof (cases "top st1 = D")
    case True
    then have "Leafy m" using wm wfn_Leafy st1(4) by fastforce
    then have "goDownLeftAny_loop t 0 st1 = Inr st1"
      using st1(8) by (simp add: goDownLeftAny_loop.simps [of t 0 st1] node_def)
    then show ?thesis
      using True st1 L R step
      by (auto simp: posL_def posR_def)
  next
    case False
    then have lt: "top st1 < D" using st1(4) Suc.prems(2) by simp
    have d: "d = D - top st1" using Suc.hyps(2) st1(4) by simp
    have "0 < length (Children m)" using st1(10) by simp
    from Suc.hyps(1) [OF d st1(3) lt st1(8) this]
    show ?thesis using step L R st1(4) by simp
  qed
qed simp

lemma pos_invalidate:
  assumes "stack_ok st"
  shows "posL t D (invalidateSubNodes st) = posL t D st" "posR t D (invalidateSubNodes st) = posR t D st"
    "index (invalidateSubNodes st) = index st"
    "nodes (invalidateSubNodes st) ! top st = nodes st ! top st"
proof -
  have same: "same_below (top st) st (invalidateSubNodes st)"
    by (rule same_below_mono [OF same_below_invalidate [OF assms]]) simp
  show "nodes (invalidateSubNodes st) ! top st = nodes st ! top st"
    by (rule invalidate_nodes_upto [OF assms]) simp
  then show "posL t D (invalidateSubNodes st) = posL t D st" "posR t D (invalidateSubNodes st) = posR t D st"
    by (simp_all add: posL_def posR_def index_def ctxL_same [OF same] ctxR_same [OF same])
  show "index (invalidateSubNodes st) = index st" by (simp add: index_def)
qed

lemma pos_setIndex:
  assumes "stack_ok st" "nodes st ! top st = Some n"
  shows "posL t D (setIndex k st) = ctxL t D st (top st) @ cconts t (D - top st) (take (nat k) (Children n))"
    "posR t D (setIndex k st) = cconts t (D - top st) (drop (nat k) (Children n)) @ ctxR t D st (top st)"
    "nodes (setIndex k st) ! top st = Some n" "index (setIndex k st) = k"
proof -
  have same: "same_below (top st) st (setIndex k st)" by (rule same_below_setIndex [OF assms(1)])
  show n: "nodes (setIndex k st) ! top st = Some n"
    using setIndex_nodes_upto [OF assms(1), of "top st"] assms(2) by simp
  show i: "index (setIndex k st) = k" using assms(1) by (simp add: index_def)
  show "posL t D (setIndex k st) = ctxL t D st (top st) @ cconts t (D - top st) (take (nat k) (Children n))"
    "posR t D (setIndex k st) = cconts t (D - top st) (drop (nat k) (Children n)) @ ctxR t D st (top st)"
    using n i by (simp_all add: posL_def posR_def ctxL_same [OF same] ctxR_same [OF same])
qed


lemma cconts_empty: "\<forall>c \<in> set cs. wfc t h c \<Longrightarrow> cconts t h cs = [] \<longleftrightarrow> cs = []"
  by (cases cs) (auto dest: ccont_hd)

text \<open>Where a move ends: at an entry of a leaf, or beyond the last entry.\<close>

definition moved_to :: "tree \<Rightarrow> nat \<Rightarrow> node \<Rightarrow> kv list \<Rightarrow> kv list \<Rightarrow> stack \<Rightarrow> bool" where
  "moved_to t D root L R st \<longleftrightarrow>
     clean t D root st \<and> posL t D st = L \<and> posR t D st = R \<and>
     (if R = [] then top st = 0 \<and> index st = int (length (Children root))
      else top st = D \<and> 0 \<le> index st \<and> index st < int (length (Children (nd st D))))"

lemma goNextLeaf_unroll:
  assumes "nodes st ! top st = Some n" "index st = int i"
  shows "goNextLeaf t st =
    (if Suc i < length (Children n) then
       bindE (if \<not> Leafy n then goDownLeftAny_loop t (int (Suc i)) st else Inr (setIndex (int (Suc i)) st))
         (\<lambda>st'. Inr (True, invalidateSubNodes st'))
     else if top st = 0 then
       Inr (index st \<noteq> int (length (Children n)), setIndex (int (length (Children n))) st)
     else goNextLeaf t (st\<lparr>top := top st - 1\<rparr>))"
proof -
  have e: "int i + 1 = int (Suc i)" by simp
  have "indexes st ! top st = int i" using assms(2) by (simp add: index_def)
  then show ?thesis
    using assms(1)
    by (subst goNextLeaf.simps, cases "top st = 0") (auto simp add: node_def assms(2) e popNode_def setIndex_def del: of_nat_Suc)
qed

lemma goNextLeaf_inside:
  assumes "clean t D root st" "index st = int i" "nodes st ! top st = Some n" "Suc i < length (Children n)"
  shows "\<exists>b st'. goNextLeaf t st = Inr (b, st') \<and>
    moved_to t D root (ctxL t D st (top st) @ cconts t (D - top st) (take (Suc i) (Children n)))
      (cconts t (D - top st) (drop (Suc i) (Children n)) @ ctxR t D st (top st)) st'"
proof -
  note ok = clean_parts(1) [OF assms(1)]
  have w: "wfn t (D - top st) n" "\<forall>c \<in> set (Children n). wfc t (D - top st) c"
    by (rule clean_node [OF assms(1)], use assms(3) in simp)+
  have "drop (Suc i) (Children n) \<noteq> []" using assms(4) by simp
  then have ne: "cconts t (D - top st) (drop (Suc i) (Children n)) \<noteq> []"
    using w(2) by (subst cconts_empty) (auto dest: in_set_dropD)
  show ?thesis
  proof (cases "top st = D")
    case True
    let ?s = "setIndex (int (Suc i)) st"
    have "goNextLeaf t st = Inr (True, invalidateSubNodes ?s)"
      using wfn_Leafy [OF w(1)] True assms(4) by (simp add: goNextLeaf_unroll [OF assms(3,2)] del: of_nat_Suc)
    moreover have "clean t D root (invalidateSubNodes ?s)"
      by (intro clean_invalidate clean_setIndex assms(1))
    ultimately show ?thesis
      using True ne assms(4) pos_setIndex [OF ok assms(3), where k = "int (Suc i)"]
        pos_invalidate [OF stack_ok_setIndex [OF ok, of "int (Suc i)"]]
      by (auto simp: moved_to_def simp del: of_nat_Suc)
  next
    case False
    then have lt: "top st < D" using clean_parts(6) [OF assms(1)] by simp
    obtain st1 where st1: "goDownLeftAny_loop t (int (Suc i)) st = Inr st1" "clean t D root st1" "top st1 = D"
      "index st1 = 0" "Children (nd st1 D) \<noteq> []"
      "posL t D st1 = ctxL t D st (top st) @ cconts t (D - top st) (take (Suc i) (Children n))"
      "posR t D st1 = cconts t (D - top st) (drop (Suc i) (Children n)) @ ctxR t D st (top st)"
      using goDownLeftAny_pos [OF assms(1) lt assms(3,4)] by blast
    have "goNextLeaf t st = Inr (True, invalidateSubNodes st1)"
      using wfn_Leafy [OF w(1)] lt assms(4) st1(1) by (simp add: goNextLeaf_unroll [OF assms(3,2)] del: of_nat_Suc)
    then show ?thesis
      using clean_invalidate [OF st1(2)] st1 ne pos_invalidate [OF clean_parts(1) [OF st1(2)]]
      by (auto simp: moved_to_def)
  qed
qed

text \<open>The entries seen from the parent of the top node.\<close>

lemma clean_parent:
  assumes "clean t D root st" "top st = Suc j" "nodes st ! top st = Some n"
  obtains p i where "clean t D root (st\<lparr>top := j\<rparr>)" "nodes st ! j = Some p" "indexes st ! j = int i"
    "i < length (Children p)" "resolve t (Children p ! i) = Some n"
    "ccont t (D - j) (Children p ! i) = cconts t (D - top st) (Children n)"
    "ctxL t D st (top st) = ctxL t D st j @ cconts t (D - j) (take i (Children p))"
    "ctxR t D st (top st) = cconts t (D - j) (drop (Suc i) (Children p)) @ ctxR t D st j"
    "ctxL t D (st\<lparr>top := j\<rparr>) j = ctxL t D st j" "ctxR t D (st\<lparr>top := j\<rparr>) j = ctxR t D st j"
proof -
  have c': "clean t D root (st\<lparr>top := j\<rparr>)" by (rule clean_lower_top [OF assms(1)]) (use assms(2) in simp)
  obtain p where p: "nodes st ! j = Some p"
    using clean_level [OF assms(1), of j] assms(2) by auto
  note sd = clean_step_down [OF assms(1) _ p]
  have ix: "0 \<le> indexes st ! j" "ix st j < length (Children p)" "resolve t (Children p ! ix st j) = Some n"
    using sd assms(2,3) by simp_all
  have e: "D - j = Suc (D - Suc j)" using clean_parts(6) [OF assms(1)] assms(2) by simp
  have "ccont t (D - j) (Children p ! ix st j) = cconts t (D - Suc j) (Children n)"
    unfolding e using ix by (simp add: ccont_def contents_eq)
  moreover have "same_below j st (st\<lparr>top := j\<rparr>)" by (simp add: same_below_def)
  ultimately show ?thesis
    using that [of p "ix st j"] c' p ix assms(2) ctxL_same ctxR_same by simp
qed

lemma goNextLeaf_pos:
  assumes "clean t D root st" "index st = int i" "nodes st ! top st = Some n"
  shows "\<exists>b st'. goNextLeaf t st = Inr (b, st') \<and>
    moved_to t D root (ctxL t D st (top st) @ cconts t (D - top st) (take (Suc i) (Children n)))
      (cconts t (D - top st) (drop (Suc i) (Children n)) @ ctxR t D st (top st)) st'"
  using assms
proof (induction "top st" arbitrary: st n i)
  case 0
  note c = "0.prems"(1)
  note ok = clean_parts(1) [OF c]
  have root: "n = root" using clean_parts(2) [OF c] "0.prems"(3) "0.hyps" by simp
  show ?case
  proof (cases "Suc i < length (Children n)")
    case True
    then show ?thesis by (rule goNextLeaf_inside [OF "0.prems"])
  next
    case False
    then show ?thesis
      using clean_setIndex [OF c] pos_setIndex [OF ok "0.prems"(3), where k = "int (length (Children n))"]
        "0.hyps" [symmetric] root
      by (simp add: goNextLeaf_unroll [OF "0.prems"(3,2)] moved_to_def)
  qed
next
  case (Suc j)
  note c = Suc.prems(1)
  show ?case
  proof (cases "Suc i < length (Children n)")
    case True
    then show ?thesis by (rule goNextLeaf_inside [OF Suc.prems])
  next
    case False
    obtain p k where p: "clean t D root (st\<lparr>top := j\<rparr>)" "nodes st ! j = Some p" "indexes st ! j = int k"
      "k < length (Children p)" "ccont t (D - j) (Children p ! k) = cconts t (D - top st) (Children n)"
      "ctxL t D st (top st) = ctxL t D st j @ cconts t (D - j) (take k (Children p))"
      "ctxR t D st (top st) = cconts t (D - j) (drop (Suc k) (Children p)) @ ctxR t D st j"
      "ctxL t D (st\<lparr>top := j\<rparr>) j = ctxL t D st j" "ctxR t D (st\<lparr>top := j\<rparr>) j = ctxR t D st j"
      by (rule clean_parent [OF c Suc.hyps(2) [symmetric] Suc.prems(3)])
    have "goNextLeaf t st = goNextLeaf t (st\<lparr>top := j\<rparr>)"
      using False Suc.hyps(2) [symmetric] by (simp add: goNextLeaf_unroll [OF Suc.prems(3,2)])
    moreover have "take (Suc k) (Children p) = take k (Children p) @ [Children p ! k]"
      by (rule take_Suc_conv_app_nth [OF p(4)])
    moreover note Suc.hyps(1) [of "st\<lparr>top := j\<rparr>" k p]
    ultimately show ?thesis
      using p False by (simp add: index_def)
  qed
qed


definition moved_back :: "tree \<Rightarrow> nat \<Rightarrow> node \<Rightarrow> kv list \<Rightarrow> kv list \<Rightarrow> stack \<Rightarrow> bool" where
  "moved_back t D root L R st \<longleftrightarrow>
     clean t D root st \<and>
     (if L = [] then top st = 0 \<and> index st = -1
      else top st = D \<and> 0 \<le> index st \<and> index st < int (length (Children (nd st D))) \<and>
        posL t D st = butlast L \<and> posR t D st = last L # R)"

lemma goDownRight_pos:
  assumes "clean t D root st" "nodes st ! top st = Some n" "i < length (Children n)"
  shows "\<exists>st'. goDownRight_loop t (int i) st = Inr st' \<and>
    moved_back t D root (ctxL t D st (top st) @ cconts t (D - top st) (take (Suc i) (Children n)))
      (cconts t (D - top st) (drop (Suc i) (Children n)) @ ctxR t D st (top st)) st'"
  using assms
proof (induction "D - top st" arbitrary: st n i)
  case 0
  note c = "0.prems"(1)
  note ok = clean_parts(1) [OF c]
  have tD: "top st = D" using "0.hyps" clean_parts(6) [OF c] by simp
  have "wfn t (D - top st) n" by (rule clean_node [OF c]) (use "0.prems"(2) in simp)
  then have "Leafy n" using wfn_Leafy tD by fastforce
  then have "goDownRight_loop t (int i) st = Inr (setIndex (int i) st)"
    using "0.prems"(2) by (simp add: goDownRight_loop.simps [of t _ st] node_def)
  moreover have "take (Suc i) (Children n) = take i (Children n) @ [Children n ! i]"
    "drop i (Children n) = Children n ! i # drop (Suc i) (Children n)"
    by (rule take_Suc_conv_app_nth [OF "0.prems"(3)], rule Cons_nth_drop_Suc [OF "0.prems"(3), symmetric])
  ultimately show ?case
    using clean_setIndex [OF c] pos_setIndex [OF ok "0.prems"(2), where k = "int i"] tD "0.prems"(3)
    by (simp add: moved_back_def butlast_append)
next
  case (Suc d)
  note c = Suc.prems(1)
  have lt: "top st < D" using Suc.hyps(2) by simp
  obtain m st1 where m: "resolve t (Children n ! i) = Some m"
    and st1: "push (int i) (Some m) st = Inr st1"
    "Stack_childNode t (int i) st = Inr (Some m)" "clean t D root st1" "top st1 = Suc (top st)"
    "same_below (top st) st st1" "nodes st1 ! top st = Some n" "indexes st1 ! top st = int i"
    "nodes st1 ! top st1 = Some m" "Children m \<noteq> []"
    by (rule clean_push [OF c lt Suc.prems(2,3)])
  have "wfn t (D - top st) n" by (rule clean_node [OF c]) (use Suc.prems(2) in simp)
  then have nl: "\<not> Leafy n" using wfn_Leafy lt by fastforce
  obtain l where len: "int (length (Children m)) - 1 = int l" "l < length (Children m)" "Suc l = length (Children m)"
    by (rule last_index [OF st1(9)])
  have step: "goDownRight_loop t (int i) st = goDownRight_loop t (int l) st1"
    by (subst goDownRight_loop.simps)
      (simp add: nl st1(1,2,8) Suc.prems(2) node_def pushIndex_def len(1) [symmetric])
  have e: "D - top st = Suc (D - Suc (top st))" using lt by simp
  have cm: "ccont t (D - top st) (Children n ! i) = cconts t (D - Suc (top st)) (Children m)"
    unfolding e using m by (simp add: ccont_def contents_eq)
  have tk: "take (Suc i) (Children n) = take i (Children n) @ [Children n ! i]"
    by (rule take_Suc_conv_app_nth [OF Suc.prems(3)])
  have d: "d = D - top st1" using Suc.hyps(2) st1(4) by simp
  from Suc.hyps(1) [OF d st1(3,8) len(2)] show ?case
    using step st1(4,6,7) ctxL_same [OF st1(5), of t D] ctxR_same [OF st1(5), of t D] cm tk len(3) by simp
qed

lemma goPreviousLeaf_unroll:
  assumes "nodes st ! top st = Some n" "index st = int i"
  shows "goPreviousLeaf t st =
    (if 0 < i then bindE (goDownRight_loop t (int (i - 1)) st) (\<lambda>st'. Inr (True, st'))
     else if top st = 0 then Inr (True, setIndex (-1) st)
     else goPreviousLeaf t (st\<lparr>top := top st - 1\<rparr>))"
proof -
  have "indexes st ! top st = int i" using assms(2) by (simp add: index_def)
  then show ?thesis
    using assms(1)
    by (subst goPreviousLeaf.simps, cases "top st = 0")
      (auto simp add: node_def assms(2) popNode_def int_ops)
qed

lemma goPreviousLeaf_inside:
  assumes "clean t D root st" "index st = int i" "nodes st ! top st = Some n" "i \<le> length (Children n)" "0 < i"
  shows "\<exists>b st'. goPreviousLeaf t st = Inr (b, st') \<and> moved_back t D root (posL t D st) (posR t D st) st'"
proof -
  have lt: "i - 1 < length (Children n)" using assms(4,5) by linarith
  have e: "Suc (i - 1) = i" using assms(5) by simp
  obtain st' where "goDownRight_loop t (int (i - 1)) st = Inr st'"
    "moved_back t D root (posL t D st) (posR t D st) st'"
    using goDownRight_pos [OF assms(1,3) lt] assms(2,3) unfolding e by (auto simp: posL_def posR_def)
  then show ?thesis using assms(5) by (simp only: goPreviousLeaf_unroll [OF assms(3,2)] bindE_Inr if_True) blast
qed

lemma goPreviousLeaf_pos:
  assumes "clean t D root st" "index st = int i" "nodes st ! top st = Some n" "i \<le> length (Children n)"
  shows "\<exists>b st'. goPreviousLeaf t st = Inr (b, st') \<and> moved_back t D root (posL t D st) (posR t D st) st'"
  using assms
proof (induction "top st" arbitrary: st n i)
  case 0
  note c = "0.prems"(1)
  show ?case
  proof (cases "0 < i")
    case True
    then show ?thesis by (rule goPreviousLeaf_inside [OF "0.prems"])
  next
    case False
    with "0.hyps" [symmetric] "0.prems" clean_setIndex [OF c]
      pos_setIndex(4) [OF clean_parts(1) [OF c] "0.prems"(3)] show ?thesis
      by (auto simp: goPreviousLeaf_unroll [OF "0.prems"(3,2)] moved_back_def posL_def)
  qed
next
  case (Suc j)
  note c = Suc.prems(1)
  show ?case
  proof (cases "0 < i")
    case True
    then show ?thesis by (rule goPreviousLeaf_inside [OF Suc.prems])
  next
    case False
    obtain p k where p: "clean t D root (st\<lparr>top := j\<rparr>)" "nodes st ! j = Some p" "indexes st ! j = int k"
      "k < length (Children p)" "ccont t (D - j) (Children p ! k) = cconts t (D - top st) (Children n)"
      "ctxL t D st (top st) = ctxL t D st j @ cconts t (D - j) (take k (Children p))"
      "ctxR t D st (top st) = cconts t (D - j) (drop (Suc k) (Children p)) @ ctxR t D st j"
      "ctxL t D (st\<lparr>top := j\<rparr>) j = ctxL t D st j" "ctxR t D (st\<lparr>top := j\<rparr>) j = ctxR t D st j"
      by (rule clean_parent [OF c Suc.hyps(2) [symmetric] Suc.prems(3)])
    have "goPreviousLeaf t st = goPreviousLeaf t (st\<lparr>top := j\<rparr>)"
      using False Suc.hyps(2) [symmetric] by (simp add: goPreviousLeaf_unroll [OF Suc.prems(3,2)])
    moreover have dk: "drop k (Children p) = Children p ! k # drop (Suc k) (Children p)"
      by (rule Cons_nth_drop_Suc [OF p(4), symmetric])
    have "posL t D (st\<lparr>top := j\<rparr>) = posL t D st" "posR t D (st\<lparr>top := j\<rparr>) = posR t D st"
      using p Suc.prems(2,3) False dk by (simp_all add: posL_def posR_def index_def)
    moreover note Suc.hyps(1) [of "st\<lparr>top := j\<rparr>" k p]
    ultimately show ?thesis
      using p by (simp add: index_def)
  qed
qed

section \<open>Searching from the root\<close>

lemma Node_search_cut:
  assumes "clean t D root st" "top st = 0"
  shows "\<exists>st'. Node_search t root key st = Inr st' \<and> clean t D root st' \<and> cut_at t D st' key"
proof -
  have "Node_search t root key st = search_loop t key st"
    using assms clean_parts(2) [OF assms(1)] by (simp add: Node_search_def Stack_search_def top_update_same)
  then show ?thesis using search_loop_cut [OF assms(1), of key] assms(2) by simp
qed

text \<open>The entry at the position of a clean stack.\<close>

lemma leaf_here:
  assumes "clean t D root st" "top st = D" "index st = int i" "nodes st ! D = Some n"
    "i < length (Children n)"
  shows "child st = Inr (Some (Children n ! i))" "posR t D st = entry (Children n ! i) # tl (posR t D st)"
proof -
  show "child st = Inr (Some (Children n ! i))"
    by (rule child_in) (use assms in simp_all)
  show "posR t D st = entry (Children n ! i) # tl (posR t D st)"
    using assms Cons_nth_drop_Suc [OF assms(5), symmetric] by (simp add: posR_def ccont_def)
qed

lemma cut_cases:
  assumes "clean t D root st" "cut_at t D st key"
  obtains
    (missing) n i x where "nodes st ! D = Some n" "index st = int i" "i \<le> length (Children n)"
      "child st = Inr x" "x = None \<longleftrightarrow> i = length (Children n)" "\<And>c. x = Some c \<Longrightarrow> key < Key c"
      "\<forall>p \<in> set (posL t D st). fst p < key" "\<forall>p \<in> set (posR t D st). key < fst p"
  | (found) n i v where "nodes st ! D = Some n" "index st = int i" "i < length (Children n)"
      "child st = Inr (Some (NodeDataChild key v None))" "Children n ! i = NodeDataChild key v None"
      "\<forall>p \<in> set (posL t D st). fst p < key" "posR t D st = (key, v) # tl (posR t D st)"
      "\<forall>p \<in> set (tl (posR t D st)). key < fst p"
proof -
  have tD: "top st = D" and i0: "0 \<le> index st" "index st \<le> int (length (Children (nd st D)))"
    and L: "\<forall>p \<in> set (posL t D st). fst p < key" and R: "\<forall>p \<in> set (posR t D st). key \<le> fst p"
    and X: "\<forall>p \<in> set (ctxR t D st D). key < fst p"
    using assms(2) by (auto simp: cut_at_def)
  obtain n where n: "nodes st ! D = Some n" "wfn t 0 n" "ordered (contents t D root)"
    by (rule clean_node [OF assms(1)]) (use tD in simp)
  obtain i where i: "index st = int i" "i \<le> length (Children n)"
    using i0 n(1) by (metis nonneg_int_cases of_nat_le_iff option.sel)
  show ?thesis
  proof (cases "i < length (Children n)")
    case True
    let ?c = "Children n ! i"
    note here = leaf_here [OF assms(1) tD i(1) n(1) True]
    have "childNode ?c = None" using n(2) True by simp
    then have c: "?c = NodeDataChild (Key ?c) (Value ?c) None" by (cases ?c) simp
    have "ordered (posR t D st)"
      using n(3) clean_pos [OF assms(1)] by (metis ordered_append)
    then have tl: "\<forall>p \<in> set (tl (posR t D st)). Key ?c < fst p"
      by (subst (asm) here(2)) (simp add: ordered_Cons entry_def)
    have ge: "key \<le> Key ?c" using R here(2) by (metis entry_def fst_conv list.set_intros(1))
    show ?thesis
    proof (cases "Key ?c = key")
      case True
      with found [OF n(1) i(1) \<open>i < length (Children n)\<close>, of "Value ?c"] c here L tl show ?thesis
        by (simp add: entry_def)
    next
      case False
      with ge have lt: "key < Key ?c" by simp
      then have "\<forall>p \<in> set (posR t D st). key < fst p"
        using tl by (subst here(2)) (auto simp: entry_def intro: order_less_trans)
      with missing [OF n(1) i here(1)] L lt True show ?thesis by auto
    qed
  next
    case False
    then have e: "i = length (Children n)" using i(2) by simp
    have "child st = Inr None" by (rule child_out [of _ n]) (use tD n(1) i(1) e in auto)
    moreover have "posR t D st = ctxR t D st D" using tD n(1) i(1) e by (simp add: posR_def)
    ultimately show ?thesis using missing [OF n(1) i, of None] e L X by simp
  qed
qed


section \<open>Reading through a transaction\<close>

lemma clean_tr_inv: "clean t D root st \<Longrightarrow> tr_inv t D (st\<lparr>top := 0\<rparr>) (contents t D root)"
  using clean_lower_top [of t D root st 0] by (auto simp: tr_inv_def)

lemma tr_inv_obtain:
  assumes "tr_inv t D tr C"
  obtains root where "clean t D root tr" "top tr = 0" "contents t D root = C" "Root tr = Inr root" "ordered C"
  using assms by (auto simp: tr_inv_def Root_def node_def clean_def wf_tree_def)

lemma Node_Get_clean:
  assumes "clean t D root st" "top st = 0"
  shows "\<exists>st'. Node_Get t root key st = Inr (map_of (contents t D root) key, st') \<and>
    tr_inv t D st' (contents t D root)"
proof -
  obtain st1 where st1: "Node_search t root key st = Inr st1" "clean t D root st1" "cut_at t D st1 key"
    using Node_search_cut [OF assms] by blast
  have pos: "contents t D root = posL t D st1 @ posR t D st1" by (rule clean_pos [OF st1(2), symmetric])
  from st1(2,3) show ?thesis
  proof (cases rule: cut_cases)
    case (missing n i x)
    have "map_of (contents t D root) key = None"
      unfolding pos by (rule map_of_cut_None [OF missing(7,8)])
    then show ?thesis
      using st1(1) missing(4,6) clean_tr_inv [OF st1(2)]
      by (cases x) (fastforce simp: Node_Get_def Let_def)+
  next
    case (found n i v)
    have "map_of (contents t D root) key = Some v"
      unfolding pos by (subst found(7)) (rule map_of_cut_Some [OF found(6)])
    then show ?thesis
      using st1(1) found(4) clean_tr_inv [OF st1(2)] by (simp add: Node_Get_def)
  qed
qed

lemma moved_to_child:
  assumes "moved_to t D root L R st"
  shows "\<exists>c. child st = Inr c \<and> map_option Key c = (case R of [] \<Rightarrow> None | p # _ \<Rightarrow> Some (fst p))"
proof (cases R)
  case Nil
  have "child st = Inr None"
    by (rule child_out [of _ root]) (use assms Nil in \<open>auto simp: moved_to_def clean_def\<close>)
  with Nil show ?thesis by simp
next
  case (Cons p ps)
  have m: "clean t D root st" "top st = D" "posR t D st = p # ps" "0 \<le> index st"
    "index st < int (length (Children (nd st D)))"
    using assms Cons by (auto simp: moved_to_def)
  obtain n where n: "nodes st ! D = Some n" by (rule clean_node [OF m(1)]) (use m(2) in simp)
  note here = leaf_here [OF m(1,2) _ n, of "nat (index st)"]
  show ?thesis using here m(3,4,5) n Cons by (auto simp: entry_def)
qed

lemma moved_back_child:
  assumes "moved_back t D root L R st"
  shows "\<exists>c. child st = Inr c \<and> map_option Key c = (case rev L of [] \<Rightarrow> None | p # _ \<Rightarrow> Some (fst p))"
proof (cases "L = []")
  case True
  have "child st = Inr None"
    by (rule child_out [of _ root]) (use assms True in \<open>auto simp: moved_back_def clean_def\<close>)
  with True show ?thesis by simp
next
  case False
  have m: "clean t D root st" "top st = D" "posR t D st = last L # R" "0 \<le> index st"
    "index st < int (length (Children (nd st D)))"
    using assms False by (auto simp: moved_back_def)
  obtain n where n: "nodes st ! D = Some n" by (rule clean_node [OF m(1)]) (use m(2) in simp)
  note here = leaf_here [OF m(1,2) _ n, of "nat (index st)"]
  moreover have "(case rev L of [] \<Rightarrow> None | p # _ \<Rightarrow> Some (fst p)) = Some (fst (last L))"
    using False by (cases L rule: rev_cases) simp_all
  ultimately show ?thesis using m(3,4,5) n by (auto simp: entry_def)
qed

text \<open>\<^verbatim>\<open>searchGreater\<close> ends at the first entry above the key, \<^verbatim>\<open>searchLesser\<close> at the last one
  below it.\<close>

lemma searchGreater_pos:
  assumes "clean t D root st" "top st = 0"
  shows "\<exists>st' L R. searchGreater t root key st = Inr st' \<and> clean t D root st' \<and>
    posL t D st' = L \<and> posR t D st' = R \<and> contents t D root = L @ R \<and>
    (\<forall>p \<in> set L. \<not> key < fst p) \<and> (\<forall>p \<in> set R. key < fst p) \<and>
    (\<exists>c. child st' = Inr c \<and> map_option Key c = (case R of [] \<Rightarrow> None | p # _ \<Rightarrow> Some (fst p))) \<and>
    (if R = [] then top st' = 0 \<and> index st' = int (length (Children root))
      else top st' = D \<and> 0 \<le> index st' \<and> index st' < int (length (Children (nd st' D))))"
proof -
  obtain st1 where st1: "Node_search t root key st = Inr st1" "clean t D root st1" "cut_at t D st1 key"
    using Node_search_cut [OF assms] by blast
  have tD: "top st1 = D" using st1(3) by (simp add: cut_at_def)
  have pos: "contents t D root = posL t D st1 @ posR t D st1" by (rule clean_pos [OF st1(2), symmetric])
  from st1(2,3) show ?thesis
  proof (cases rule: cut_cases)
    case (missing n i x)
    have L: "\<forall>p \<in> set (posL t D st1). \<not> key < fst p" using missing(7) by auto
    show ?thesis
    proof (cases x)
      case None
      then have i: "i = length (Children n)" using missing(5) by simp
      have n: "nodes st1 ! top st1 = Some n" using missing(1) tD by simp
      have LR: "posL t D st1 = ctxL t D st1 (top st1) @ cconts t (D - top st1) (take (Suc i) (Children n))"
        "posR t D st1 = cconts t (D - top st1) (drop (Suc i) (Children n)) @ ctxR t D st1 (top st1)"
        using n i missing(2) by (simp_all add: posL_def posR_def)
      obtain b st2 where st2: "goNextLeaf t st1 = Inr (b, st2)"
        "moved_to t D root (posL t D st1) (posR t D st1) st2"
        using goNextLeaf_pos [OF st1(2) missing(2) n] unfolding LR by blast
      have "searchGreater t root key st = Inr st2"
        using st1(1) missing(4) None st2(1) by (simp add: searchGreater_def)
      with st2(2) pos L missing(8) moved_to_child [OF st2(2)] show ?thesis
        unfolding moved_to_def by blast
    next
      case (Some c)
      then have i: "i < length (Children n)" using missing(3,5) by (cases "i = length (Children n)") auto
      have "Key c \<noteq> key" using missing(6) [OF Some] by auto
      then have "searchGreater t root key st = Inr st1"
        using st1(1) missing(4) Some by (simp add: searchGreater_def)
      moreover have "moved_to t D root (posL t D st1) (posR t D st1) st1"
        using st1(2) tD missing(1,2) i leaf_here(2) [OF st1(2) tD missing(2,1) i]
        by (auto simp: moved_to_def)
      ultimately show ?thesis
        using moved_to_child [of t D root "posL t D st1" "posR t D st1" st1] pos L missing(8)
        unfolding moved_to_def by blast
    qed
  next
    case (found n i v)
    have n: "nodes st1 ! top st1 = Some n" using found(1) tD by simp
    have e: "take (Suc i) (Children n) = take i (Children n) @ [Children n ! i]"
      "drop i (Children n) = Children n ! i # drop (Suc i) (Children n)"
      by (rule take_Suc_conv_app_nth [OF found(3)], rule Cons_nth_drop_Suc [OF found(3), symmetric])
    have LR: "posL t D st1 @ [(key, v)] = ctxL t D st1 (top st1) @ cconts t (D - top st1) (take (Suc i) (Children n))"
      "tl (posR t D st1) = cconts t (D - top st1) (drop (Suc i) (Children n)) @ ctxR t D st1 (top st1)"
      using n found(2,5) e tD by (simp_all add: posL_def posR_def entry_def)
    obtain b st2 where st2: "goNextLeaf t st1 = Inr (b, st2)"
      "moved_to t D root (posL t D st1 @ [(key, v)]) (tl (posR t D st1)) st2"
      using goNextLeaf_pos [OF st1(2) found(2) n] unfolding LR by blast
    have "searchGreater t root key st = Inr st2"
      using st1(1) found(4) st2(1) by (simp add: searchGreater_def)
    moreover have "contents t D root = (posL t D st1 @ [(key, v)]) @ tl (posR t D st1)"
      unfolding pos by (subst found(7)) simp
    moreover have "\<forall>p \<in> set (posL t D st1 @ [(key, v)]). \<not> key < fst p" using found(6) by auto
    ultimately show ?thesis
      using st2(2) found(8) moved_to_child [OF st2(2)] unfolding moved_to_def by blast
  qed
qed

lemma searchLesser_pos:
  assumes "clean t D root st" "top st = 0"
  shows "\<exists>st' L R. searchLesser t root key st = Inr st' \<and> moved_back t D root L R st' \<and>
    contents t D root = L @ R \<and>
    (\<forall>p \<in> set L. fst p < key) \<and> (\<forall>p \<in> set R. key \<le> fst p)"
proof -
  obtain st1 where st1: "Node_search t root key st = Inr st1" "clean t D root st1" "cut_at t D st1 key"
    using Node_search_cut [OF assms] by blast
  have tD: "top st1 = D" using st1(3) by (simp add: cut_at_def)
  have cut: "\<forall>p \<in> set (posL t D st1). fst p < key" "\<forall>p \<in> set (posR t D st1). key \<le> fst p"
    using st1(3) by (auto simp: cut_at_def)
  have pos: "contents t D root = posL t D st1 @ posR t D st1" by (rule clean_pos [OF st1(2), symmetric])
  have "\<exists>n i x. nodes st1 ! D = Some n \<and> index st1 = int i \<and> i \<le> length (Children n) \<and>
      child st1 = Inr x \<and> (case x of None \<Rightarrow> True | Some c \<Rightarrow> Key c \<ge> key)"
    by (rule cut_cases [OF st1(2,3)])
      (fastforce split: option.splits dest: less_imp_le)+
  then obtain n i x where nix: "nodes st1 ! D = Some n" "index st1 = int i" "i \<le> length (Children n)"
    "child st1 = Inr x" "case x of None \<Rightarrow> True | Some c \<Rightarrow> Key c \<ge> key" by blast
  have n: "nodes st1 ! top st1 = Some n" using nix(1) tD by simp
  obtain b st2 where st2: "goPreviousLeaf t st1 = Inr (b, st2)"
    "moved_back t D root (posL t D st1) (posR t D st1) st2"
    using goPreviousLeaf_pos [OF st1(2) nix(2) n nix(3)] by blast
  have "searchLesser t root key st = Inr st2"
    using st1(1) nix(4,5) st2(1) by (simp add: searchLesser_def)
  with st2(2) pos cut show ?thesis by blast
qed

lemma Node_NextKey_clean:
  assumes "clean t D root st" "top st = 0"
  shows "\<exists>st'. Node_NextKey t root key st = Inr (al_next key (contents t D root), st') \<and>
    tr_inv t D st' (contents t D root)"
proof -
  obtain st1 L R c where s: "searchGreater t root key st = Inr st1" "clean t D root st1"
    "contents t D root = L @ R" "\<forall>p \<in> set L. \<not> key < fst p" "\<forall>p \<in> set R. key < fst p"
    "child st1 = Inr c" "map_option Key c = (case R of [] \<Rightarrow> None | p # _ \<Rightarrow> Some (fst p))"
    using searchGreater_pos [OF assms] by blast
  have "al_next key (contents t D root) = map_option Key c"
    unfolding s(3) al_next_cut [OF s(4,5)] s(7) ..
  then show ?thesis using s clean_tr_inv [OF s(2)] by (simp add: Node_NextKey_def)
qed

lemma Node_PrevKey_clean:
  assumes "clean t D root st" "top st = 0"
  shows "\<exists>st'. Node_PrevKey t root key st = Inr (al_prev key (contents t D root), st') \<and>
    tr_inv t D st' (contents t D root)"
proof -
  obtain st1 L R where s: "searchLesser t root key st = Inr st1" "moved_back t D root L R st1"
    "contents t D root = L @ R" "\<forall>p \<in> set L. fst p < key" "\<forall>p \<in> set R. key \<le> fst p"
    using searchLesser_pos [OF assms] by blast
  have R: "\<forall>p \<in> set R. \<not> fst p < key" using s(5) by auto
  obtain c where c: "child st1 = Inr c" "map_option Key c = (case rev L of [] \<Rightarrow> None | p # _ \<Rightarrow> Some (fst p))"
    using moved_back_child [OF s(2)] by blast
  have "al_prev key (contents t D root) = map_option Key c"
    unfolding s(3) al_prev_cut [OF s(4) R] c(2) ..
  moreover have "clean t D root st1" using s(2) by (simp add: moved_back_def)
  ultimately show ?thesis using s(1) c(1) clean_tr_inv [of t D root st1] by (simp add: Node_PrevKey_def)
qed

end
