(* ===== verification/IbUpdate.thy ===== *)
theory IbUpdate
  imports IbSearch
begin

text \<open>
  Inserting. Every mutating step keeps \<open>stack_inv\<close>, the statement that the stack stands
  for a given list of entries: \<^verbatim>\<open>addChildAt\<close> inserts one entry, splitting nodes that became
  too big and possibly raising the height by one.
\<close>

section \<open>Insertion\<close>

lemma stack_inv_setIndex:
  assumes "stack_inv t D st C"
  shows "stack_inv t D (setIndex k st) C"
proof -
  note low = stack_inv_lower [OF assms]
  have same: "same_below (top st) st (setIndex k st)" by (rule same_below_setIndex [OF low(1)])
  have "nodes (setIndex k st) ! top st = nodes st ! top st"
    by (rule setIndex_nodes_upto [OF low(1)]) simp
  then show ?thesis
    using assms cache_ok_setIndex [OF low(1,3), of k] low(1)
    by (simp add: stack_inv_def frame_same [OF same])
qed

lemma stack_inv_cconts:
  assumes "stack_inv t D st C" "nodes st ! top st = Some n"
  shows "wfn t (D - top st) n" "\<forall>c \<in> set (Children n). wfc t (D - top st) c"
    "C = ctxL t D st (top st) @ cconts t (D - top st) (Children n) @ ctxR t D st (top st)"
    "ordered (cconts t (D - top st) (Children n))" "Leafy n \<longleftrightarrow> D - top st = 0"
proof -
  obtain n' where n': "nodes st ! top st = Some n'" "wfn t (D - top st) n'"
    "C = ctxL t D st (top st) @ contents t (D - top st) n' @ ctxR t D st (top st)"
    by (rule stack_inv_node [OF assms(1)])
  with assms(2) show w: "wfn t (D - top st) n"
    and C: "C = ctxL t D st (top st) @ cconts t (D - top st) (Children n) @ ctxR t D st (top st)"
    by (simp_all add: contents_eq)
  show "\<forall>c \<in> set (Children n). wfc t (D - top st) c" "Leafy n \<longleftrightarrow> D - top st = 0"
    using w by (simp_all add: wfn_eq)
  show "ordered (cconts t (D - top st) (Children n))"
    using stack_inv_lower(4) [OF assms(1)] unfolding C by (simp only: ordered_append)
qed

text \<open>Rewriting the children of the top node, at the level of the invariant.\<close>

lemma rewriteNodeChildren_inv:
  assumes "stack_inv t D st C" "nodes st ! top st = Some n" "\<forall>c \<in> set cs. wfc t (D - top st) c"
    "C' = ctxL t D st (top st) @ cconts t (D - top st) cs @ ctxR t D st (top st)" "ordered C'"
  obtains st' where "rewriteNodeChildren t (map Some cs) st = Inr st'"
    "rewritten st (Node (Leafy n) cs None) st'" "stack_inv t D st' C'"
proof -
  note low = stack_inv_lower [OF assms(1)] and cc = stack_inv_cconts [OF assms(1,2)]
  have o: "ordered (cconts t (D - top st) cs)" using assms(5) unfolding assms(4) by (simp only: ordered_append)
  obtain st' where st': "rewriteNodeChildren t (map Some cs) st = Inr st'"
    "rewritten st (Node (Leafy n) cs None) st'"
    by (rule rewriteNodeChildren_ok [OF low(1) assms(2,3) o])
  have "stack_inv t D st' C'"
    by (rule rewritten_inv [OF st'(2) low(2) _ _ assms(5)])
      (use assms(3,4) cc(5) in \<open>simp_all add: wfn_eq contents_eq\<close>)
  with st' that show ?thesis by blast
qed

lemma wfc_of_node:
  assumes "\<forall>c \<in> set cs. wfc t h c" "cs \<noteq> []" "l \<longleftrightarrow> h = 0"
  shows "wfc t (Suc h) (NodeDataChild (Key (hd cs)) (placeholderValue t) (Some (Node l cs b)))"
    "ccont t (Suc h) (NodeDataChild k v (Some (Node l cs b))) = cconts t h cs"
  using assms by (simp_all add: wfc_def ccont_def resolve_def wfn_eq contents_eq)

lemma addChildAt_root:
  assumes inv: "stack_inv t D st C2" and top: "top st = 0"
    and n: "nodes st ! 0 = Some (Node l cs1 None)"
    and w: "\<forall>c \<in> set cs2. wfc t D c" "cs1 \<noteq> []" "cs2 \<noteq> []"
    and C: "C = cconts t D (cs1 @ cs2)" "ordered C"
    and st': "st' = invalidateSubNodes (st\<lparr>nodes := (nodes st)[0 := Some (Node False
      [NodeDataChild (Key (hd cs1)) (placeholderValue t) (Some (Node l cs1 None)),
       NodeDataChild (Key (hd cs2)) (placeholderValue t) (Some (Node l cs2 None))] None)]\<rparr>)"
  shows "stack_inv t (Suc D) st' C"
proof -
  let ?r = "Node False [NodeDataChild (Key (hd cs1)) (placeholderValue t) (Some (Node l cs1 None)),
       NodeDataChild (Key (hd cs2)) (placeholderValue t) (Some (Node l cs2 None))] None"
  have n': "nodes st ! top st = Some (Node l cs1 None)" using n top by simp
  note cc = stack_inv_cconts [OF inv n', simplified top diff_zero node.sel]
  note c1 = wfc_of_node [OF cc(2) w(2) cc(5)] and c2 = wfc_of_node [OF w(1,3) cc(5)]
  have "rewritten st ?r st'"
    using rewritten_invalidate [OF stack_inv_lower(1) [OF inv], of ?r] top by (simp add: st')
  then show ?thesis
    by (rule rewritten_inv)
      (use c1 c2 top C in \<open>auto simp: path_ok_def wfn_eq contents_eq\<close>)
qed

lemma addChildAt_inv:
  assumes "stack_inv t D st C" "nodes st ! top st = Some n" "index st = int i" "i \<le> length (Children n)"
    "wfc t (D - top st) c" "Children n \<noteq> [] \<or> Msgsize t (Node (Leafy n) [c] None) \<le> NodeMaximumSize t"
    "C' = ctxL t D st (top st) @ cconts t (D - top st) (take i (Children n) @ c # drop i (Children n)) @
       ctxR t D st (top st)" "ordered C'"
  shows "\<exists>st' D'. addChildAt t c st = Inr st' \<and> stack_inv t D' st' C' \<and> D' \<le> Suc D"
  using assms
proof (induction "top st" arbitrary: st C n i c rule: less_induct)
  case less
  let ?h = "D - top st"
  define cs where "cs = take i (Children n) @ c # drop i (Children n)"
  note cc = stack_inv_cconts [OF less.prems(1,2)] and low = stack_inv_lower [OF less.prems(1)]
  have wcs: "\<forall>c \<in> set cs. wfc t ?h c"
    using cc(2) less.prems(5) by (auto simp: cs_def dest: in_set_takeD in_set_dropD)
  have C': "C' = ctxL t D st (top st) @ cconts t ?h cs @ ctxR t D st (top st)"
    using less.prems(7) by (simp only: cs_def)
  obtain st1 where st1: "rewriteNodeChildren t (map Some cs) st = Inr st1"
    "rewritten st (Node (Leafy n) cs None) st1" "stack_inv t D st1 C'"
    by (rule rewriteNodeChildren_inv [OF less.prems(1,2) wcs C' less.prems(8)])
  have r1: "rewriteAtIndex t False (Some c) st = Inr st1"
    using rewriteAtIndex_insert [OF less.prems(2,3,4), of t c] st1(1) by (simp add: cs_def)
  have top1: "top st1 = top st" and n1: "nodes st1 ! top st1 = Some (Node (Leafy n) cs None)"
    and same1: "same_below (top st) st st1" and idx1: "indexes st1 = indexes st"
    using st1(2) by (simp_all add: rewritten_def)
  have node1: "node st1 = Inr (Node (Leafy n) cs None)" using n1 by (simp add: node_def)
  show ?case
  proof (cases "Msgsize t (Node (Leafy n) cs None) \<le> NodeMaximumSize t")
    case True
    then have "addChildAt t c st = Inr st1"
      using r1 node1 by (simp add: addChildAt.simps [of t c st])
    with st1(3) show ?thesis by (meson le_SucI order_refl)
  next
    case False
    then have "Children n \<noteq> []" using less.prems(6) by (auto simp: cs_def)
    then have len: "2 \<le> length cs" using less.prems(4) by (cases "Children n") (auto simp: cs_def)
    define k where "k = length cs div 2"
    have k: "take k cs \<noteq> []" "drop k cs \<noteq> []" "0 < length cs - k" using len by (auto simp: k_def)
    have sub: "\<forall>c \<in> set (take k cs). wfc t ?h c" "\<forall>c \<in> set (drop k cs). wfc t ?h c"
      using wcs by (auto dest: in_set_takeD in_set_dropD)
    define C2 where "C2 = ctxL t D st1 (top st1) @ cconts t (D - top st1) (take k cs) @ ctxR t D st1 (top st1)"
    have Csplit: "C' = ctxL t D st1 (top st1) @ (cconts t ?h (take k cs) @ cconts t ?h (drop k cs)) @ ctxR t D st1 (top st1)"
      using C' cconts_take_drop [of t ?h cs k] top1 frame_same(1,2) [OF same1, of t D] by simp
    have o2: "ordered C2"
      using less.prems(8) unfolding Csplit C2_def top1 ordered_append by (simp only: set_append) blast
    obtain st2 where st2: "rewriteNodeChildren t (map Some (take k cs)) st1 = Inr st2"
      "rewritten st1 (Node (Leafy n) (take k cs) None) st2" "stack_inv t D st2 C2"
      by (rule rewriteNodeChildren_inv [OF st1(3) n1 _ C2_def o2]) (use sub top1 in simp_all)
    have top2: "top st2 = top st" and n2: "nodes st2 ! top st2 = Some (Node (Leafy n) (take k cs) None)"
      and same2: "same_below (top st) st st2" and idx2: "indexes st2 = indexes st"
      using st2(2) top1 same_below_trans [OF same1] idx1 by (simp_all add: rewritten_def)
    let ?next = "NodeDataChild (Key (hd (drop k cs))) (placeholderValue t) (Some (Node (Leafy n) (drop k cs) None))"
    have g: "elem_get (drop k cs) 0 = Inr (hd (drop k cs))" "elem_get (take k cs) 0 = Inr (hd (take k cs))"
      using k by (simp_all add: elem_get_def hd_conv_nth)
    note wnext = wfc_of_node [OF sub(2) k(2) cc(5)]
    show ?thesis
    proof (cases "top st")
      case 0
      have "addChildAt t c st = Inr (invalidateSubNodes (st2\<lparr>nodes := (nodes st2)[0 := Some (Node False
          [NodeDataChild (Key (hd (take k cs))) (placeholderValue t) (Some (Node (Leafy n) (take k cs) None)),
           ?next] None)]\<rparr>))"
        using r1 node1 False st2(1) g n2 top2 0
        by (subst addChildAt.simps) (simp add: k_def [symmetric] node_def Let_def)
      moreover have "stack_inv t (Suc D) (invalidateSubNodes (st2\<lparr>nodes := (nodes st2)[0 := Some (Node False
          [NodeDataChild (Key (hd (take k cs))) (placeholderValue t) (Some (Node (Leafy n) (take k cs) None)),
           ?next] None)]\<rparr>)) C'"
        by (rule addChildAt_root [OF st2(3) _ _ _ k(1,2) _ less.prems(8) refl])
          (use top2 0 n2 sub(2) C' in simp_all)
      ultimately show ?thesis by blast
    next
      case (Suc j)
      then have t2: "top st2 = Suc j" using top2 by simp
      obtain p where p: "nodes st2 ! j = Some p" "0 \<le> indexes st2 ! j" "indexes st2 ! j < int (length (Children p))"
        by (rule path_ok_node [OF stack_inv_lower(2) [OF st2(3)], of j]) (use t2 in simp_all)
      obtain st3 where st3: "pop t st2 = Inr st3" "stack_inv t D st3 C2" "top st3 = j"
        "indexes st3 = indexes st2" "same_below j st2 st3"
        "nodes st3 ! j = Some (Node False (take (ix st2 j) (Children p) @
          popped t (Node (Leafy n) (take k cs) None) @ drop (Suc (ix st2 j)) (Children p)) None)"
        by (rule pop_inv [OF st2(3) t2 n2 p(1)])
      let ?me = "NodeDataChild (Key (hd (take k cs))) (placeholderValue t) (Some (Node (Leafy n) (take k cs) None))"
      let ?ps = "take (ix st2 j) (Children p) @ [?me] @ drop (Suc (ix st2 j)) (Children p)"
      have n3: "nodes st3 ! top st3 = Some (Node False ?ps None)"
        using st3(3,6) popped_nonempty [of "Node (Leafy n) (take k cs) None" t] k(1) by simp
      let ?st = "nextIndex st3"
      have inv4: "stack_inv t D ?st C2" unfolding nextIndex_def by (rule stack_inv_setIndex [OF st3(2)])
      have n4: "nodes ?st ! top ?st = Some (Node False ?ps None)"
        using setIndex_nodes_upto [OF stack_inv_lower(1) [OF st3(2)], of "top st3"] n3 by (simp add: nextIndex_def)
      have idx4: "index ?st = int (Suc (ix st2 j))"
        using setIndex_index [OF stack_inv_lower(1) [OF st3(2)], of "indexes st2 ! j + 1"] st3(3,4) p(2)
        by (simp add: nextIndex_def index_def)
      have same4: "same_below j st2 ?st"
        using same_below_trans [OF st3(5)] same_below_setIndex [OF stack_inv_lower(1) [OF st3(2)]] st3(3)
        by (simp add: nextIndex_def)
      have Dj: "D - j = Suc ?h" using Suc low(5) by simp
      have e: "take (Suc (ix st2 j)) ?ps = take (ix st2 j) (Children p) @ [?me]"
        "drop (Suc (ix st2 j)) ?ps = drop (Suc (ix st2 j)) (Children p)"
        using p by (simp_all add: min_def)
      have me: "ccont t (Suc ?h) ?me = cconts t ?h (take k cs)"
        by (rule wfc_of_node(2) [OF sub(1) k(1) cc(5)])
      have C4: "C' = ctxL t D ?st j @ cconts t (D - j) (take (Suc (ix st2 j)) ?ps @ ?next # drop (Suc (ix st2 j)) ?ps) @
          ctxR t D ?st j"
        using C' Suc p(1) wnext(2) me cconts_take_drop [of t ?h cs k] e
          frame_same(1,2) [OF same2, of t D] frame_same(1,2) [OF same4, of t D]
        by (simp add: Dj)
      have "\<exists>st' D'. addChildAt t ?next ?st = Inr st' \<and> stack_inv t D' st' C' \<and> D' \<le> Suc D"
      proof (rule less.hyps [OF _ inv4 n4 idx4])
        show "top ?st < top st" using st3(3) Suc by simp
        show "Suc (ix st2 j) \<le> length (Children (Node False ?ps None))" using p by simp
        show "wfc t (D - top ?st) ?next" using wnext(1) Dj st3(3) by simp
        show "C' = ctxL t D ?st (top ?st) @ cconts t (D - top ?st) (take (Suc (ix st2 j)) (Children (Node False ?ps None)) @
          ?next # drop (Suc (ix st2 j)) (Children (Node False ?ps None))) @ ctxR t D ?st (top ?st)"
          using C4 st3(3) by (simp only: nextIndex_top node.sel)
      qed (use less.prems(8) in simp_all)
      moreover have "addChildAt t c st = addChildAt t ?next ?st"
        using r1 node1 False st2(1) g t2 st3(1)
        by (subst addChildAt.simps) (simp add: k_def [symmetric] Let_def)
      ultimately show ?thesis by simp
    qed
  qed
qed

end
