(* ===== verification/IbRebalance.thy ===== *)
theory IbRebalance
  imports IbUpdate
begin

text \<open>
  The rebalancing pass of \<^verbatim>\<open>commit\<close>: borrowing a child from a sibling (\<^verbatim>\<open>moveFrom\<close>) and
  merging with it (\<^verbatim>\<open>mergeTo\<close>) keep the entries the stack stands for, the pass over all
  modified nodes ends, and shrinking the root keeps the entries too.
\<close>

section \<open>Borrowing and merging keep the entries\<close>

lemma stack_inv_push:
  assumes inv: "stack_inv t D st C" and n: "nodes st ! top st = Some n" and i: "i < length (Children n)"
    and m: "resolve t (Children n ! i) = Some m" and D: "top st < D" "Suc (top st) < maximumTreeDepth"
  obtains st' where "push (int i) (Some m) st = Inr st'" "stack_inv t D st' C" "top st' = Suc (top st)"
    "same_below (top st) st st'" "nodes st' ! top st = Some n" "indexes st' ! top st = int i"
    "nodes st' ! Suc (top st) = Some m" "index st' = 0"
proof -
  note low = stack_inv_lower [OF inv] and cc = stack_inv_cconts [OF inv n]
  obtain st' where st': "push (int i) (Some m) st = Inr st'" "stack_ok st'" "top st' = Suc (top st)"
    "same_below (top st) st st'" "nodes st' ! top st = Some n" "indexes st' ! top st = int i"
    "nodes st' ! top st' = Some m" "indexes st' ! top st' = 0" "cache_ok t st' (top st)"
    by (rule push_ok [OF low(1) D(2) n i m order_refl low(3)])
  have e: "D - top st = Suc (D - Suc (top st))" using D(1) by simp
  obtain m' where "resolve t (Children n ! i) = Some m'" "wfn t (D - Suc (top st)) m'"
    by (rule wfc_nth_resolve [OF cc(1) [unfolded e] i])
  with m have wm: "wfn t (D - Suc (top st)) m" by simp
  have cm: "ccont t (D - top st) (Children n ! i) = contents t (D - Suc (top st)) m"
    unfolding e using m by (simp add: ccont_def)
  have "path_ok t D st' (Suc (top st))"
    by (rule path_ok_Suc [OF _ st'(5) cc(1) D(1)])
      (use path_ok_same [OF st'(4)] low(2) st'(6) i in simp_all)
  moreover have "C = ctxL t D st' (Suc (top st)) @ contents t (D - Suc (top st)) m @ ctxR t D st' (Suc (top st))"
    using cc(3) cconts_split [OF i, of t "D - top st"] cm st'(5,6) frame_same(1,2) [OF st'(4), of t D] by simp
  ultimately have "stack_inv t D st' C"
    using st' low(4) wm cache_ok_mono [OF st'(9), of "Suc (top st)"] by (auto simp: stack_inv_def)
  with st' that show ?thesis by (simp add: index_def)
qed

text \<open>A list of entries stays in order when a part of it is dropped.\<close>

lemma ordered_drop_mid: "ordered (a @ b @ c) \<Longrightarrow> ordered (a @ c)"
  by (auto simp: ordered_append)

text \<open>One change below the top node: descend into child \<open>i\<close>, put \<open>cs'\<close> in place of its
  children, come back.\<close>

lemma change_child:
  assumes inv: "stack_inv t D st C" and n: "nodes st ! top st = Some n" and i: "i < length (Children n)"
    and m: "resolve t (Children n ! i) = Some m" and D: "top st < D" "Suc (top st) < maximumTreeDepth"
    and cs': "\<forall>c \<in> set cs'. wfc t (D - Suc (top st)) c" "cs' \<noteq> []"
    and C': "C' = ctxL t D st (top st) @ cconts t (D - top st) (take i (Children n)) @
      cconts t (D - Suc (top st)) cs' @ cconts t (D - top st) (drop (Suc i) (Children n)) @ ctxR t D st (top st)"
    and o: "ordered C'"
  obtains st1 st2 st3 where "push (int i) (Some m) st = Inr st1" "setIndex 0 st1 = st1"
    "top st1 = Suc (top st)" "nodes st1 ! top st1 = Some m" "stack_ok st1"
    "rewriteNodeChildren t (map Some cs') (setIndex k st1) = Inr st2"
    "pop t st2 = Inr st3" "stack_inv t D st3 C'" "top st3 = top st" "index st3 = int i"
    "same_below (top st) st st3"
    "nodes st3 ! top st = Some (Node False (take i (Children n) @
       [NodeDataChild (Key (hd cs')) (placeholderValue t) (Some (Node (Leafy m) cs' None))] @
       drop (Suc i) (Children n)) None)"
proof -
  obtain st1 where st1: "push (int i) (Some m) st = Inr st1" "stack_inv t D st1 C" "top st1 = Suc (top st)"
    "same_below (top st) st st1" "nodes st1 ! top st = Some n" "indexes st1 ! top st = int i"
    "nodes st1 ! Suc (top st) = Some m" "index st1 = 0"
    by (rule stack_inv_push [OF inv n i m D])
  note ok1 = stack_inv_lower(1) [OF st1(2)]
  let ?s = "setIndex k st1"
  have inv1: "stack_inv t D ?s C" by (rule stack_inv_setIndex [OF st1(2)])
  have ns: "nodes ?s ! j = nodes st1 ! j" if "j \<le> Suc (top st)" for j
    using setIndex_nodes_upto [OF ok1] that st1(3) by simp
  have ixs: "indexes ?s ! j = indexes st1 ! j" if "j \<le> top st" for j
    using that st1(3) by (simp add: setIndex_indexes)
  have same: "same_below (top st) st ?s"
    using st1(4) ns ixs by (simp add: same_below_def)
  have n1: "nodes ?s ! top ?s = Some m" using ns st1(3,7) by simp
  have cx: "C' = ctxL t D ?s (top ?s) @ cconts t (D - top ?s) cs' @ ctxR t D ?s (top ?s)"
    using C' st1(3,5,6) ns [of "top st"] ixs [of "top st"] frame_same(1,2) [OF same, of t D] by simp
  have w: "\<forall>c \<in> set cs'. wfc t (D - top ?s) c" using cs'(1) st1(3) by simp
  obtain st2 where st2: "rewriteNodeChildren t (map Some cs') ?s = Inr st2"
    "rewritten ?s (Node (Leafy m) cs' None) st2" "stack_inv t D st2 C'"
    by (rule rewriteNodeChildren_inv [OF inv1 n1 w cx o])
  have t2: "top st2 = Suc (top st)" and n2: "nodes st2 ! top st2 = Some (Node (Leafy m) cs' None)"
    and same2: "same_below (Suc (top st)) ?s st2" and i2: "indexes st2 = indexes ?s"
    using st2(2) st1(3) by (auto simp: rewritten_def)
  have p: "nodes st2 ! top st = Some n"
    using same2 ns [of "top st"] st1(5) by (simp add: same_below_def)
  obtain st3 where st3: "pop t st2 = Inr st3" "stack_inv t D st3 C'" "top st3 = top st"
    "indexes st3 = indexes st2" "same_below (top st) st2 st3"
    "nodes st3 ! top st = Some (Node False (take (ix st2 (top st)) (Children n) @
       popped t (Node (Leafy m) cs' None) @ drop (Suc (ix st2 (top st))) (Children n)) None)"
    by (rule pop_inv [OF st2(3) t2 n2 p])
  have "ix st2 (top st) = i" using i2 ixs [of "top st"] st1(6) by simp
  moreover have "same_below (top st) st st3"
    using same same_below_mono [OF same2, of "top st"] st3(5) by (meson same_below_trans le_SucI order_refl)
  moreover have "index st3 = int i" using st3(3,4) i2 ixs [of "top st"] st1(6) by (simp add: index_def)
  moreover have "setIndex 0 st1 = st1" using st1(8) by (simp add: setIndex_def index_def)
  ultimately show ?thesis
    using that [OF st1(1) _ st1(3) _ ok1 st2(1) st3(1,2,3)] st1(3,7) st3(6)
      popped_nonempty [of "Node (Leafy m) cs' None" t] cs'(2) by simp
qed


abbreviation mkchild :: "tree \<Rightarrow> node \<Rightarrow> ndchild" where
  "mkchild t m \<equiv> NodeDataChild (Key (hd (Children m))) (placeholderValue t) (Some m)"

lemma ccont_resolve: "resolve t c = Some m \<Longrightarrow> ccont t (Suc h) c = cconts t h (Children m)"
  by (simp add: ccont_def contents_eq)

lemma resolve_childNode: "childNode c = Some m \<Longrightarrow> resolve t c = Some m"
  by (simp add: resolve_def)

text \<open>The facts about the two neighbouring children every rebalancing step starts from.\<close>

lemma two_children:
  assumes inv: "stack_inv t D st C" and n: "nodes st ! top st = Some n"
    and cs: "Children n = A @ x # y # B" and D: "top st < D"
    and x: "resolve t x = Some mx" and y: "resolve t y = Some my"
  shows "\<forall>c \<in> set (Children mx). wfc t (D - Suc (top st)) c" "\<forall>c \<in> set (Children my). wfc t (D - Suc (top st)) c"
    "Children mx \<noteq> []" "Children my \<noteq> []" "Leafy mx = (D - Suc (top st) = 0)" "Leafy my = (D - Suc (top st) = 0)"
    "C = ctxL t D st (top st) @ cconts t (D - top st) A @ cconts t (D - Suc (top st)) (Children mx) @
       cconts t (D - Suc (top st)) (Children my) @ cconts t (D - top st) B @ ctxR t D st (top st)"
    "ccont t (D - top st) x = cconts t (D - Suc (top st)) (Children mx)"
    "ccont t (D - top st) y = cconts t (D - Suc (top st)) (Children my)"
    "\<not> Leafy n"
proof -
  note cc = stack_inv_cconts [OF inv n]
  have e: "D - top st = Suc (D - Suc (top st))" using D by simp
  have "wfc t (D - top st) x" "wfc t (D - top st) y" using cc(2) cs by simp_all
  then show "\<forall>c \<in> set (Children mx). wfc t (D - Suc (top st)) c" "\<forall>c \<in> set (Children my). wfc t (D - Suc (top st)) c"
    "Children mx \<noteq> []" "Children my \<noteq> []" "Leafy mx = (D - Suc (top st) = 0)" "Leafy my = (D - Suc (top st) = 0)"
    unfolding e using x y by (auto simp: wfc_def wfn_eq)
  show "ccont t (D - top st) x = cconts t (D - Suc (top st)) (Children mx)"
    "ccont t (D - top st) y = cconts t (D - Suc (top st)) (Children my)"
    unfolding e by (rule ccont_resolve [OF x], rule ccont_resolve [OF y])
  then show "C = ctxL t D st (top st) @ cconts t (D - top st) A @ cconts t (D - Suc (top st)) (Children mx) @
       cconts t (D - Suc (top st)) (Children my) @ cconts t (D - top st) B @ ctxR t D st (top st)"
    using cc(3) cs by simp
  show "\<not> Leafy n" using cc(5) D by simp
qed


lemma change_at:
  assumes inv: "stack_inv t D st C" and n: "nodes st ! top st = Some n" and cs: "Children n = A @ x # B"
    and m: "resolve t x = Some m" and D: "top st < D" "Suc (top st) < maximumTreeDepth"
    and cs': "\<forall>c \<in> set cs'. wfc t (D - Suc (top st)) c" "cs' \<noteq> []"
    and C': "C' = ctxL t D st (top st) @ cconts t (D - top st) A @
      cconts t (D - Suc (top st)) cs' @ cconts t (D - top st) B @ ctxR t D st (top st)"
    and o: "ordered C'"
  obtains st1 st2 st3 where "push (int (length A)) (Some m) st = Inr st1" "setIndex 0 st1 = st1"
    "nodes st1 ! top st1 = Some m" "stack_ok st1"
    "rewriteNodeChildren t (map Some cs') (setIndex k st1) = Inr st2"
    "pop t st2 = Inr st3" "stack_inv t D st3 C'" "top st3 = top st" "index st3 = int (length A)"
    "same_below (top st) st st3"
    "nodes st3 ! top st = Some (Node False (A @ mkchild t (Node (Leafy m) cs' None) # B) None)"
proof -
  have a: "length A < length (Children n)" "resolve t (Children n ! length A) = Some m"
    using cs m by simp_all
  have C2: "C' = ctxL t D st (top st) @ cconts t (D - top st) (take (length A) (Children n)) @
      cconts t (D - Suc (top st)) cs' @ cconts t (D - top st) (drop (Suc (length A)) (Children n)) @ ctxR t D st (top st)"
    using C' cs by simp
  show ?thesis
    by (rule change_child [OF inv n a D cs' C2 o, of k], rule that) (simp_all add: cs)
qed

text \<open>Inserting a child into the node just pushed.\<close>

lemma rewriteAtIndex_pushed:
  assumes "stack_ok st" "nodes st ! top st = Some m" "i \<le> length (Children m)"
  shows "rewriteAtIndex t False (Some c) (setIndex (int i) st) =
    rewriteNodeChildren t (map Some (take i (Children m) @ c # drop i (Children m))) (setIndex (int i) st)"
proof (rule rewriteAtIndex_insert)
  show "nodes (setIndex (int i) st) ! top (setIndex (int i) st) = Some m"
    using setIndex_nodes_upto [OF assms(1), of "top st"] assms(2) by simp
  show "index (setIndex (int i) st) = int i" using assms(1) by (simp add: index_def)
qed (rule assms(3))

lemma moveFrom_left_steps:
  assumes "child st = Inr (Some mc)" "childNode mc = Some me" "index st = oi" "Children sib = S @ [c]"
    "push (-1 + oi) (Some sib) st = Inr st1" "rewriteNodeChildren t (map Some S) st1 = Inr st2"
    "pop t st2 = Inr st3" "push oi (Some me) st3 = Inr st4"
    "rewriteAtIndex t False (Some c) (setIndex 0 st4) = Inr st5"
  shows "moveFrom t (-1) sib st = pop t st5"
proof -
  have sl: "slice_upto (S @ [c]) (int (length (S @ [c])) - 1) = Inr S"
    "elem_get (S @ [c]) (int (length (S @ [c])) - 1) = Inr c"
    by (simp_all add: slice_upto_def elem_get_def)
  show ?thesis
    unfolding moveFrom_def Let_def assms(1-4) deref_simps bindE_Inr simp_thms if_True sl prod.case
      assms(5-9) rewriteNodeChildrenWithCopyOf_eq ..
qed

lemma moveFrom_right_steps:
  assumes "child st = Inr (Some mc)" "childNode mc = Some me" "index st = oi" "Children sib = c # S"
    "push (1 + oi) (Some sib) st = Inr st1" "rewriteNodeChildren t (map Some S) st1 = Inr st2"
    "pop t st2 = Inr st3" "push oi (Some me) st3 = Inr st4"
    "rewriteAtIndex t False (Some c) (setIndex (int (length (Children me))) st4) = Inr st5"
  shows "moveFrom t 1 sib st = pop t st5"
proof -
  have sl: "slice_from (c # S) 1 = Inr S" "elem_get (c # S) 0 = Inr c"
    by (simp_all add: slice_from_def elem_get_def)
  have "(1 :: int) = -1 \<longleftrightarrow> False" by simp
  then show ?thesis
    unfolding moveFrom_def Let_def assms(1-4) deref_simps bindE_Inr simp_thms if_False sl prod.case
      assms(5-9) rewriteNodeChildrenWithCopyOf_eq
    by (simp only: if_False sl bindE_Inr prod.case assms(5-9) rewriteNodeChildrenWithCopyOf_eq)
qed

lemma moveFrom_left:
  assumes inv: "stack_inv t D st C" and n: "nodes st ! top st = Some n"
    and cs: "Children n = A @ sc # mc # B" and D: "top st < D" "Suc (top st) < maximumTreeDepth"
    and idx: "index st = int (Suc (length A))"
    and sib: "resolve t sc = Some sib" and me: "childNode mc = Some me"
    and scl: "Children sib = S @ [c]" "S \<noteq> []"
  obtains st' where "moveFrom t (-1) sib st = Inr st'" "stack_inv t D st' C" "top st' = top st"
    "index st' = int (Suc (length A))" "same_below (top st) st st'"
    "nodes st' ! top st = Some (Node False (A @ [mkchild t (Node (Leafy sib) S None),
       mkchild t (Node (Leafy me) (c # Children me) None)] @ B) None)"
proof -
  let ?h = "D - Suc (top st)"
  note tw = two_children [OF inv n cs D(1) sib resolve_childNode [OF me]]
  have wb: "\<forall>c \<in> set S. wfc t ?h c" "wfc t ?h c" using tw(1) scl by simp_all
  have Cs: "C = (ctxL t D st (top st) @ cconts t (D - top st) A @ cconts t ?h S) @
      ccont t ?h c @ (cconts t ?h (Children me) @ cconts t (D - top st) B @ ctxR t D st (top st))"
    using tw(7) scl(1) by simp
  define C1 where "C1 = ctxL t D st (top st) @ cconts t (D - top st) A @
      cconts t ?h S @ cconts t (D - top st) (mc # B) @ ctxR t D st (top st)"
  have o1: "ordered C1"
    using ordered_drop_mid [OF stack_inv_lower(4) [OF inv, unfolded Cs]] tw(9) by (simp add: C1_def)
  obtain st1 st2 st3 where s: "push (int (length A)) (Some sib) st = Inr st1" "setIndex 0 st1 = st1"
    "rewriteNodeChildren t (map Some S) (setIndex 0 st1) = Inr st2"
    "pop t st2 = Inr st3" "stack_inv t D st3 C1" "top st3 = top st" "same_below (top st) st st3"
    "nodes st3 ! top st = Some (Node False (A @ mkchild t (Node (Leafy sib) S None) # mc # B) None)"
    by (rule change_at [OF inv n cs sib D wb(1) scl(2) C1_def o1, where k = 0])
  let ?A = "A @ [mkchild t (Node (Leafy sib) S None)]"
  have n3: "nodes st3 ! top st3 = Some (Node False (?A @ mc # B) None)"
    using s(6,8) by simp
  have w3: "\<forall>c \<in> set (c # Children me). wfc t (D - Suc (top st3)) c" using tw(2) wb(2) s(6) by simp
  have D3: "top st3 < D" "Suc (top st3) < maximumTreeDepth" using D s(6) by simp_all
  have C3: "C = ctxL t D st3 (top st3) @ cconts t (D - top st3) ?A @
      cconts t (D - Suc (top st3)) (c # Children me) @ cconts t (D - top st3) B @ ctxR t D st3 (top st3)"
    using Cs s(6) frame_same(1,2) [OF s(7), of t D] D(1) ccont_resolve [of t "mkchild t (Node (Leafy sib) S None)" _ ?h]
    by (simp add: Suc_diff_Suc resolve_def)
  obtain st4 st5 st6 where r: "push (int (length ?A)) (Some me) st3 = Inr st4" "setIndex 0 st4 = st4"
    "nodes st4 ! top st4 = Some me" "stack_ok st4"
    "rewriteNodeChildren t (map Some (c # Children me)) (setIndex (int 0) st4) = Inr st5"
    "pop t st5 = Inr st6" "stack_inv t D st6 C" "top st6 = top st3" "index st6 = int (length ?A)"
    "same_below (top st3) st3 st6"
    "nodes st6 ! top st3 = Some (Node False (?A @ mkchild t (Node (Leafy me) (c # Children me) None) # B) None)"
    by (rule change_at [OF s(5) n3 node.sel(2) resolve_childNode [OF me] D3 w3 list.distinct(2) C3
          stack_inv_lower(4) [OF inv], where k = "int 0"])
  have ins: "rewriteAtIndex t False (Some c) st4 = Inr st5"
    using rewriteAtIndex_pushed [OF r(4,3), of 0 t c] r(2,5) by simp
  have ch: "child st = Inr (Some mc)"
    using child_in [OF n idx] cs by (simp add: nth_append)
  have p: "-1 + index st = int (length A)" "index st = int (length ?A)" using idx by simp_all
  have "moveFrom t (-1) sib st = Inr st6"
    using moveFrom_left_steps [OF ch me refl scl(1), of st1 t st2 st3 st4 st5] ins
    unfolding p(1) by (simp only: p(2) s(1,3,4) [unfolded s(2)] r(1,2,6))
  then show ?thesis
    by (rule that) (use r(7-11) s(6,7) in \<open>simp_all add: same_below_trans [OF s(7)]\<close>)
qed

lemma moveFrom_right:
  assumes inv: "stack_inv t D st C" and n: "nodes st ! top st = Some n"
    and cs: "Children n = A @ mc # sc # B" and D: "top st < D" "Suc (top st) < maximumTreeDepth"
    and idx: "index st = int (length A)"
    and sib: "resolve t sc = Some sib" and me: "childNode mc = Some me"
    and scl: "Children sib = c # S" "S \<noteq> []"
  obtains st' where "moveFrom t 1 sib st = Inr st'" "stack_inv t D st' C" "top st' = top st"
    "index st' = int (length A)" "same_below (top st) st st'"
    "nodes st' ! top st = Some (Node False (A @ [mkchild t (Node (Leafy me) (Children me @ [c]) None),
       mkchild t (Node (Leafy sib) S None)] @ B) None)"
proof -
  let ?h = "D - Suc (top st)"
  note tw = two_children [OF inv n cs D(1) resolve_childNode [OF me] sib]
  have wb: "\<forall>c \<in> set S. wfc t ?h c" "wfc t ?h c" using tw(2) scl by simp_all
  have Cs: "C = (ctxL t D st (top st) @ cconts t (D - top st) A @ cconts t ?h (Children me)) @
      ccont t ?h c @ (cconts t ?h S @ cconts t (D - top st) B @ ctxR t D st (top st))"
    using tw(7) scl(1) by simp
  let ?A = "A @ [mc]"
  have cs': "Children n = ?A @ sc # B" using cs by simp
  define C1 where "C1 = ctxL t D st (top st) @ cconts t (D - top st) ?A @
      cconts t ?h S @ cconts t (D - top st) B @ ctxR t D st (top st)"
  have o1: "ordered C1"
    using ordered_drop_mid [OF stack_inv_lower(4) [OF inv, unfolded Cs]] tw(8) by (simp add: C1_def)
  obtain st1 st2 st3 where s: "push (int (length ?A)) (Some sib) st = Inr st1" "setIndex 0 st1 = st1"
    "rewriteNodeChildren t (map Some S) (setIndex 0 st1) = Inr st2"
    "pop t st2 = Inr st3" "stack_inv t D st3 C1" "top st3 = top st" "same_below (top st) st st3"
    "nodes st3 ! top st = Some (Node False (?A @ mkchild t (Node (Leafy sib) S None) # B) None)"
    by (rule change_at [OF inv n cs' sib D wb(1) scl(2) C1_def o1, where k = 0])
  let ?B = "mkchild t (Node (Leafy sib) S None) # B"
  have n3: "nodes st3 ! top st3 = Some (Node False (A @ mc # ?B) None)"
    using s(6,8) by simp
  have w3: "\<forall>c \<in> set (Children me @ [c]). wfc t (D - Suc (top st3)) c" "Children me @ [c] \<noteq> []"
    using tw(1) wb(2) s(6) by auto
  have D3: "top st3 < D" "Suc (top st3) < maximumTreeDepth" using D s(6) by simp_all
  have C3: "C = ctxL t D st3 (top st3) @ cconts t (D - top st3) A @
      cconts t (D - Suc (top st3)) (Children me @ [c]) @ cconts t (D - top st3) ?B @ ctxR t D st3 (top st3)"
    using Cs s(6) frame_same(1,2) [OF s(7), of t D] D(1) ccont_resolve [of t "mkchild t (Node (Leafy sib) S None)" _ ?h]
    by (simp add: Suc_diff_Suc resolve_def)
  let ?k = "int (length (Children me))"
  obtain st4 st5 st6 where r: "push (int (length A)) (Some me) st3 = Inr st4"
    "nodes st4 ! top st4 = Some me" "stack_ok st4"
    "rewriteNodeChildren t (map Some (Children me @ [c])) (setIndex ?k st4) = Inr st5"
    "pop t st5 = Inr st6" "stack_inv t D st6 C" "top st6 = top st3" "index st6 = int (length A)"
    "same_below (top st3) st3 st6"
    "nodes st6 ! top st3 = Some (Node False (A @ mkchild t (Node (Leafy me) (Children me @ [c]) None) # ?B) None)"
    by (rule change_at [OF s(5) n3 node.sel(2) resolve_childNode [OF me] D3 w3 C3
          stack_inv_lower(4) [OF inv], where k = ?k])
  have ins: "rewriteAtIndex t False (Some c) (setIndex ?k st4) = Inr st5"
    using rewriteAtIndex_pushed [OF r(3,2), of "length (Children me)" t c] r(4) by simp
  have ch: "child st = Inr (Some mc)"
    using child_in [OF n idx] cs by simp
  have p: "1 + index st = int (length ?A)" using idx by simp
  have "moveFrom t 1 sib st = Inr st6"
    using moveFrom_right_steps [OF ch me refl scl(1), of st1 t st2 st3 st4 st5] ins
    unfolding p by (simp only: idx s(1,3,4) [unfolded s(2)] r(1,5))
  then show ?thesis
    by (rule that) (use r(6-10) s(6,7) in \<open>simp_all add: same_below_trans [OF s(7)]\<close>)
qed

text \<open>Removing the current child, the first half of \<^verbatim>\<open>mergeTo\<close>.\<close>

lemma remove_at:
  assumes inv: "stack_inv t D st C" and n: "nodes st ! top st = Some n" and cs: "Children n = A @ x # B"
    and idx: "index st = int (length A)"
  obtains st' where "rewriteAtIndex t True None st = Inr st'"
    "stack_inv t D st' (ctxL t D st (top st) @ cconts t (D - top st) (A @ B) @ ctxR t D st (top st))"
    "top st' = top st" "same_below (top st) st st'"
    "nodes st' ! top st = Some (Node (Leafy n) (A @ B) None)"
proof -
  note cc = stack_inv_cconts [OF inv n]
  have o: "ordered (ctxL t D st (top st) @ cconts t (D - top st) (A @ B) @ ctxR t D st (top st))"
    using ordered_drop_mid [of "ctxL t D st (top st) @ cconts t (D - top st) A"] stack_inv_lower(4) [OF inv] cc(3) cs
    by simp
  have w: "\<forall>c \<in> set (A @ B). wfc t (D - top st) c" using cc(2) cs by simp
  obtain st' where st': "rewriteNodeChildren t (map Some (A @ B)) st = Inr st'"
    "rewritten st (Node (Leafy n) (A @ B) None) st'"
    "stack_inv t D st' (ctxL t D st (top st) @ cconts t (D - top st) (A @ B) @ ctxR t D st (top st))"
    by (rule rewriteNodeChildren_inv [OF inv n w refl o])
  moreover have "rewriteAtIndex t True None st = Inr st'"
    using rewriteAtIndex_delete [OF n idx, of t] st'(1) cs by simp
  ultimately show ?thesis using that by (simp add: rewritten_def)
qed

lemma mergeTo_left:
  assumes inv: "stack_inv t D st C" and n: "nodes st ! top st = Some n"
    and cs: "Children n = A @ sc # mc # B" and D: "top st < D" "Suc (top st) < maximumTreeDepth"
    and idx: "index st = int (Suc (length A))"
    and sib: "resolve t sc = Some sib" and me: "childNode mc = Some me"
  obtains st' where "mergeTo t (-1) sib st = Inr st'" "stack_inv t D st' C" "top st' = top st"
    "index st' = int (length A)" "same_below (top st) st st'"
    "nodes st' ! top st = Some (Node False (A @
       mkchild t (Node (Leafy sib) (Children sib @ Children me) None) # B) None)"
proof -
  let ?h = "D - Suc (top st)" and ?l = "Children sib @ Children me"
  note tw = two_children [OF inv n cs D(1) sib resolve_childNode [OF me]]
  have cs': "Children n = (A @ [sc]) @ mc # B" and idx': "index st = int (length (A @ [sc]))"
    using cs idx by simp_all
  obtain st1 where s: "rewriteAtIndex t True None st = Inr st1"
    "stack_inv t D st1 (ctxL t D st (top st) @ cconts t (D - top st) ((A @ [sc]) @ B) @ ctxR t D st (top st))"
    "top st1 = top st" "same_below (top st) st st1" "nodes st1 ! top st = Some (Node (Leafy n) ((A @ [sc]) @ B) None)"
    by (rule remove_at [OF inv n cs' idx'])
  have n1: "nodes st1 ! top st1 = Some (Node (Leafy n) (A @ sc # B) None)" using s(3,5) by simp
  have w1: "\<forall>c \<in> set ?l. wfc t (D - Suc (top st1)) c" "?l \<noteq> []" using tw(1-4) s(3) by auto
  have D1: "top st1 < D" "Suc (top st1) < maximumTreeDepth" using D s(3) by simp_all
  have C1: "C = ctxL t D st1 (top st1) @ cconts t (D - top st1) A @
      cconts t (D - Suc (top st1)) ?l @ cconts t (D - top st1) B @ ctxR t D st1 (top st1)"
    using tw(7) s(3) frame_same(1,2) [OF s(4), of t D] by simp
  obtain st2 st3 st4 where r: "push (int (length A)) (Some sib) st1 = Inr st2" "setIndex 0 st2 = st2"
    "rewriteNodeChildren t (map Some ?l) (setIndex 0 st2) = Inr st3"
    "pop t st3 = Inr st4" "stack_inv t D st4 C" "top st4 = top st1" "index st4 = int (length A)"
    "same_below (top st1) st1 st4"
    "nodes st4 ! top st1 = Some (Node False (A @ mkchild t (Node (Leafy sib) ?l None) # B) None)"
    by (rule change_at [OF s(2) n1 node.sel(2) sib D1 w1 C1 stack_inv_lower(4) [OF inv], where k = 0])
  have ch: "child st = Inr (Some mc)"
    using child_in [OF n idx'] cs' by (simp add: nth_append)
  have "mergeTo t (-1) sib st = Inr st4"
    using n1 r(3,6,9) s(3)
    by (simp add: mergeTo_def node_def n ch me idx s(1) cs r(1,2,4))
  then show ?thesis
    by (rule that) (use r(5-9) s(3) in \<open>simp_all add: same_below_trans [OF s(4)]\<close>)
qed

lemma mergeTo_right:
  assumes inv: "stack_inv t D st C" and n: "nodes st ! top st = Some n"
    and cs: "Children n = A @ mc # sc # B" and D: "top st < D" "Suc (top st) < maximumTreeDepth"
    and idx: "index st = int (length A)"
    and sib: "resolve t sc = Some sib" and me: "childNode mc = Some me"
  obtains st' where "mergeTo t 1 sib st = Inr st'" "stack_inv t D st' C" "top st' = top st"
    "index st' = int (length A)" "same_below (top st) st st'"
    "nodes st' ! top st = Some (Node False (A @
       mkchild t (Node (Leafy sib) (Children me @ Children sib) None) # B) None)"
proof -
  let ?h = "D - Suc (top st)" and ?l = "Children me @ Children sib"
  note tw = two_children [OF inv n cs D(1) resolve_childNode [OF me] sib]
  obtain st1 where s: "rewriteAtIndex t True None st = Inr st1"
    "stack_inv t D st1 (ctxL t D st (top st) @ cconts t (D - top st) (A @ sc # B) @ ctxR t D st (top st))"
    "top st1 = top st" "same_below (top st) st st1" "nodes st1 ! top st = Some (Node (Leafy n) (A @ sc # B) None)"
    by (rule remove_at [OF inv n cs idx])
  have n1: "nodes st1 ! top st1 = Some (Node (Leafy n) (A @ sc # B) None)" using s(3,5) by simp
  have w1: "\<forall>c \<in> set ?l. wfc t (D - Suc (top st1)) c" "?l \<noteq> []" using tw(1-4) s(3) by auto
  have D1: "top st1 < D" "Suc (top st1) < maximumTreeDepth" using D s(3) by simp_all
  have C1: "C = ctxL t D st1 (top st1) @ cconts t (D - top st1) A @
      cconts t (D - Suc (top st1)) ?l @ cconts t (D - top st1) B @ ctxR t D st1 (top st1)"
    using tw(7) s(3) frame_same(1,2) [OF s(4), of t D] by simp
  obtain st2 st3 st4 where r: "push (int (length A)) (Some sib) st1 = Inr st2" "setIndex 0 st2 = st2"
    "rewriteNodeChildren t (map Some ?l) (setIndex 0 st2) = Inr st3"
    "pop t st3 = Inr st4" "stack_inv t D st4 C" "top st4 = top st1" "index st4 = int (length A)"
    "same_below (top st1) st1 st4"
    "nodes st4 ! top st1 = Some (Node False (A @ mkchild t (Node (Leafy sib) ?l None) # B) None)"
    by (rule change_at [OF s(2) n1 node.sel(2) sib D1 w1 C1 stack_inv_lower(4) [OF inv], where k = 0])
  have ch: "child st = Inr (Some mc)"
    using child_in [OF n idx] cs by simp
  have "mergeTo t 1 sib st = Inr st4"
    using n1 r(3,6,9) s(3)
    by (simp add: mergeTo_def node_def n ch me idx s(1) cs r(1,2,4))
  then show ?thesis
    by (rule that) (use r(5-9) s(3) in \<open>simp_all add: same_below_trans [OF s(4)]\<close>)
qed

end
