(* ===== verification/IbCommit.thy ===== *)
theory IbCommit
  imports IbRebalance
begin

text \<open>
  The loop of the rebalancing pass and \<^verbatim>\<open>commit\<close>. The loop visits the children of modified
  nodes bottom up and from left to right, but a borrow or a merge makes it look at the same
  place again. It ends because of two numbers: the slots of the tree that come after the
  current one (\<open>rest\<close>) never grow, and where they stay the same the current child takes over
  children of its left sibling (\<open>weight\<close> falls).

  A node that is not small has at least two children only when no single entry fills half a
  node (\<open>entry_small\<close>); borrowing the only child of a sibling would remove the sibling
  under the loop's feet.
\<close>

section \<open>Counting slots\<close>

primrec nslots :: "tree \<Rightarrow> nat \<Rightarrow> node \<Rightarrow> nat" where
  "nslots t 0 n = length (Children n)"
| "nslots t (Suc d) n =
     (\<Sum>c \<leftarrow> Children n. Suc (case resolve t c of None \<Rightarrow> 0 | Some m \<Rightarrow> nslots t d m))"

definition cslots :: "tree \<Rightarrow> nat \<Rightarrow> ndchild \<Rightarrow> nat" where
  "cslots t h c =
     (case h of 0 \<Rightarrow> 1 | Suc d \<Rightarrow> Suc (case resolve t c of None \<Rightarrow> 0 | Some m \<Rightarrow> nslots t d m))"

abbreviation csl :: "tree \<Rightarrow> nat \<Rightarrow> ndchild list \<Rightarrow> nat" where
  "csl t h cs \<equiv> (\<Sum>c \<leftarrow> cs. cslots t h c)"

lemma nslots_eq: "nslots t h n = csl t h (Children n)"
  by (cases h) (simp_all add: cslots_def [abs_def] sum_list_triv)

lemma cslots_pos [simp]: "0 < cslots t h c"
  by (cases h) (simp_all add: cslots_def)

lemma length_le_csl: "length cs \<le> csl t h cs"
proof (induction cs)
  case (Cons c cs)
  have "Suc 0 \<le> cslots t h c" by (rule Suc_leI [OF cslots_pos])
  from add_mono [OF this Cons.IH] show ?case by simp
qed simp

lemma cslots_resolve: "resolve t c = Some m \<Longrightarrow> cslots t (Suc h) c = Suc (csl t h (Children m))"
  by (simp add: cslots_def nslots_eq)

primrec after :: "tree \<Rightarrow> nat \<Rightarrow> stack \<Rightarrow> nat \<Rightarrow> nat" where
  "after t D st 0 = 0"
| "after t D st (Suc i) =
     Suc (csl t (D - i) (drop (Suc (ix st i)) (Children (nd st i))) + after t D st i)"

lemma after_same: "same_below i st st' \<Longrightarrow> after t D st' i = after t D st i"
  by (induction i) (auto simp: same_below_def)

definition rest :: "tree \<Rightarrow> nat \<Rightarrow> stack \<Rightarrow> nat" where
  "rest t D st =
     csl t (D - top st) (drop (Suc (nat (index st))) (Children (nd st (top st)))) + after t D st (top st)"

definition weight :: "tree \<Rightarrow> nat \<Rightarrow> stack \<Rightarrow> nat" where
  "weight t D st =
     (let cs = Children (nd st (top st))
      in csl t (D - top st) cs -
         (case resolve t (cs ! nat (index st)) of None \<Rightarrow> 0 | Some m \<Rightarrow> length (Children m)))"

definition progress :: "tree \<Rightarrow> nat \<Rightarrow> stack \<Rightarrow> stack \<Rightarrow> bool" where
  "progress t D st st' \<longleftrightarrow>
     rest t D st' < rest t D st \<or> (rest t D st' = rest t D st \<and> weight t D st' < weight t D st)"

text \<open>The invariant of the loop: the stack is at a child of an inner node.\<close>

definition at_child :: "tree \<Rightarrow> nat \<Rightarrow> stack \<Rightarrow> kv list \<Rightarrow> bool" where
  "at_child t D st C \<longleftrightarrow>
     stack_inv t D st C \<and> top st < D \<and>
     (\<exists>n i. nodes st ! top st = Some n \<and> index st = int i \<and> i < length (Children n))"

lemma rest_at:
  assumes "nodes st ! top st = Some n" "Children n = A @ x # B" "index st = int (length A)"
  shows "rest t D st = csl t (D - top st) B + after t D st (top st)"
  using assms by (simp add: rest_def)

lemma weight_at:
  assumes "nodes st ! top st = Some n" "Children n = A @ x # B" "index st = int (length A)" "resolve t x = Some m"
  shows "weight t D st = csl t (D - top st) (A @ x # B) - length (Children m)"
  using assms by (simp add: weight_def)

section \<open>Entry sizes\<close>

definition entry_small :: "tree \<Rightarrow> kv \<Rightarrow> bool" where
  "entry_small t p \<longleftrightarrow>
     1 + BoolSize (msgp t) + ArrayHeaderSize (msgp t) + 1 + 2 * StringPrefixSize (msgp t)
       + int (length (fst p)) + int (max (length (snd p)) (length (placeholderValue t))) < halfSize t"

lemma one_child_small:
  assumes "wfc t h c" "\<forall>p \<in> set (ccont t h c). entry_small t p"
  shows "Msgsize t (Node l [c] b) < halfSize t"
proof (cases h)
  case 0
  then have "entry_small t (entry c)" using assms(2) by simp
  then show ?thesis by (simp add: Msgsize_sum NodeDataChild_Msgsize_def entry_small_def entry_def)
next
  case (Suc d)
  have "Key c \<in> fst ` set (ccont t h c)" by (rule ccont_key_mem [OF assms(1)])
  then obtain p where "p \<in> set (ccont t h c)" "Key c = fst p" by (rule imageE)
  moreover have "length (Value c) \<le> length (placeholderValue t)" using assms(1) Suc by (simp add: wfc_def)
  ultimately show ?thesis
    using assms(2) by (fastforce simp: Msgsize_sum NodeDataChild_Msgsize_def entry_small_def)
qed

lemma big_node_two:
  assumes "\<forall>c \<in> set (Children n). wfc t h c" "Children n \<noteq> []"
    "\<forall>p \<in> set (cconts t h (Children n)). entry_small t p" "halfSize t \<le> Msgsize t n"
  shows "2 \<le> length (Children n)"
proof (rule ccontr)
  assume "\<not> 2 \<le> length (Children n)"
  then obtain c where c: "Children n = [c]"
    using assms(2) by (cases "Children n" rule: remdups_adj.cases) auto
  then have "Msgsize t n < halfSize t"
    using one_child_small [of t h c "Leafy n" "blockId n"] assms(1,3) by (cases n) simp
  with assms(4) show False by simp
qed


section \<open>One step of the loop\<close>

lemma at_child_intro:
  assumes "stack_inv t D st C" "i < D" "top st = i" "nodes st ! i = Some (Node l (A @ x # B) b)"
    "index st = int (length A)"
  shows "at_child t D st C"
  using assms by (auto simp: at_child_def)

lemma csl_Suc:
  assumes "top st < D"
  shows "resolve t c = Some m \<Longrightarrow> cslots t (D - top st) c = Suc (csl t (D - Suc (top st)) (Children m))"
  using cslots_resolve [of t c m "D - Suc (top st)"] assms by (simp add: Suc_diff_Suc)

lemma resolve_mkchild [simp]: "resolve t (NodeDataChild k v (Some m)) = Some m"
  by (simp add: resolve_def)

lemma moveFrom_left_progress:
  assumes "nodes st ! top st = Some n" "Children n = A @ sc # mc # B" "index st = int (Suc (length A))" "top st < D"
    "resolve t sc = Some sib" "childNode mc = Some me" "Children sib = S @ [c]"
    "top st' = top st" "index st' = int (Suc (length A))" "same_below (top st) st st'"
    "nodes st' ! top st = Some (Node False (A @ [mkchild t (Node (Leafy sib) S None),
       mkchild t (Node (Leafy me) (c # Children me) None)] @ B) None)"
  shows "progress t D st st'"
proof -
  let ?h = "D - Suc (top st)"
  let ?A = "A @ [mkchild t (Node (Leafy sib) S None)]" and ?m = "Node (Leafy me) (c # Children me) None"
  have r: "rest t D st = csl t (D - top st) B + after t D st (top st)"
    using rest_at [of st n "A @ [sc]" mc B t D] assms by simp
  have r': "rest t D st' = csl t (D - top st) B + after t D st (top st)"
    using rest_at [of st' _ ?A "mkchild t ?m" B t D] assms after_same [OF assms(10), of t D] by simp
  have w: "weight t D st = csl t (D - top st) (A @ sc # mc # B) - length (Children me)"
    using weight_at [of st n "A @ [sc]" mc B t me D] assms resolve_childNode [OF assms(6)] by simp
  have w': "weight t D st' = csl t (D - top st) (?A @ mkchild t ?m # B) - Suc (length (Children me))"
    using weight_at [of st' _ ?A "mkchild t ?m" B t ?m D] assms by simp
  have e: "csl t (D - top st) (?A @ mkchild t ?m # B) = csl t (D - top st) (A @ sc # mc # B)"
    using csl_Suc [OF assms(4), of t] assms(5,7) resolve_childNode [OF assms(6)] by simp
  have "Suc (length (Children me)) \<le> csl t (D - top st) (A @ sc # mc # B)"
    using csl_Suc [OF assms(4) resolve_childNode [OF assms(6)]] length_le_csl [of "Children me" t ?h] by simp
  then have "weight t D st' < weight t D st" unfolding w w' e by linarith
  with r r' show ?thesis by (simp add: progress_def)
qed

lemma mergeTo_left_progress:
  assumes "nodes st ! top st = Some n" "Children n = A @ sc # mc # B" "index st = int (Suc (length A))" "top st < D"
    "resolve t sc = Some sib" "childNode mc = Some me" "Children sib \<noteq> []"
    "top st' = top st" "index st' = int (length A)" "same_below (top st) st st'"
    "nodes st' ! top st = Some (Node False (A @
       mkchild t (Node (Leafy sib) (Children sib @ Children me) None) # B) None)"
  shows "progress t D st st'"
proof -
  let ?h = "D - Suc (top st)" and ?m = "Node (Leafy sib) (Children sib @ Children me) None"
  have r: "rest t D st = csl t (D - top st) B + after t D st (top st)"
    using rest_at [of st n "A @ [sc]" mc B t D] assms by simp
  have r': "rest t D st' = csl t (D - top st) B + after t D st (top st)"
    using rest_at [of st' _ A "mkchild t ?m" B t D] assms after_same [OF assms(10), of t D] by simp
  have w: "weight t D st = csl t (D - top st) (A @ sc # mc # B) - length (Children me)"
    using weight_at [of st n "A @ [sc]" mc B t me D] assms resolve_childNode [OF assms(6)] by simp
  have w': "weight t D st' = csl t (D - top st) (A @ mkchild t ?m # B) - length (Children ?m)"
    using weight_at [of st' _ A "mkchild t ?m" B t ?m D] assms by simp
  have e: "csl t (D - top st) (A @ sc # mc # B) = Suc (csl t (D - top st) (A @ mkchild t ?m # B))"
    using csl_Suc [OF assms(4), of t] assms(5) resolve_childNode [OF assms(6)] by simp
  have "length (Children me) < csl t (D - top st) (A @ sc # mc # B)"
    using csl_Suc [OF assms(4) resolve_childNode [OF assms(6)]] length_le_csl [of "Children me" t ?h] by simp
  moreover have "length (Children me) \<le> length (Children ?m)" by simp
  ultimately have "weight t D st' < weight t D st" unfolding w w' e by linarith
  with r r' show ?thesis by (simp add: progress_def)
qed

lemma right_progress:
  assumes "nodes st ! top st = Some n" "Children n = A @ mc # sc # B" "index st = int (length A)"
    "top st' = top st" "index st' = int (length A)" "same_below (top st) st st'"
    "nodes st' ! top st = Some (Node l (A @ x # B') b)"
    "csl t (D - top st) B' < csl t (D - top st) (sc # B)"
  shows "progress t D st st'"
  using rest_at [of st n A mc "sc # B" t D] rest_at [of st' _ A x B' t D] assms after_same [OF assms(6), of t D]
  by (simp add: progress_def)

text \<open>The callback, with its choice of a sibling made explicit.\<close>

lemma rebalanceChild_cases:
  assumes n: "nodes st ! top st = Some n" and idx: "index st = int i" "i < length (Children n)"
    and me: "childNode (Children n ! i) = Some me" and w: "wfn t (Suc d) n"
  obtains "rebalanceChild t st = Inr (False, st)"
  | A sc B sib where "Children n = A @ sc # Children n ! i # B" "i = Suc (length A)" "resolve t sc = Some sib"
      "rebalanceChild t st =
        (if Msgsize t sib < halfSize t then bindE (mergeTo t (-1) sib st) (\<lambda>st'. Inr (True, st'))
         else bindE (moveFrom t (-1) sib st) (\<lambda>st'. Inr (True, st')))"
  | A sc B sib where "Children n = A @ Children n ! i # sc # B" "i = length A" "resolve t sc = Some sib"
      "rebalanceChild t st =
        (if Msgsize t sib < halfSize t then bindE (mergeTo t 1 sib st) (\<lambda>st'. Inr (True, st'))
         else bindE (moveFrom t 1 sib st) (\<lambda>st'. Inr (True, st')))"
proof -
  let ?cs = "Children n"
  have ch: "child st = Inr (Some (?cs ! i))" by (rule child_in [OF n idx])
  have ix: "indexes st ! top st = int i" using idx(1) by (simp add: index_def)
  define n1 where "n1 = (if i = 0 then None else resolve t (?cs ! (i - 1)))"
  define n2 where "n2 = (if Suc i < length ?cs then resolve t (?cs ! Suc i) else None)"
  have r1: "Stack_childNode t (int i - 1) st = Inr n1"
  proof (cases i)
    case 0
    then show ?thesis using Stack_childNode_out [OF n, of "-1" t] by (simp add: n1_def)
  next
    case (Suc j)
    obtain m where "resolve t (?cs ! j) = Some m" by (rule wfc_nth_resolve [OF w, of j]) (use Suc idx in simp)
    then show ?thesis using Stack_childNode_other [OF n, of j t m] Suc idx ix by (simp add: n1_def)
  qed
  have r2: "Stack_childNode t (int i + 1) st = Inr n2"
  proof (cases "Suc i < length ?cs")
    case True
    obtain m where "resolve t (?cs ! Suc i) = Some m" by (rule wfc_nth_resolve [OF w True])
    then show ?thesis using Stack_childNode_other [OF n, of "Suc i" t m] True ix by (simp add: n2_def add.commute)
  next
    case False
    then show ?thesis using Stack_childNode_out [OF n, of "int i + 1" t] by (simp add: n2_def)
  qed
  have left: "\<exists>A sc B. ?cs = A @ sc # ?cs ! i # B \<and> i = Suc (length A) \<and> resolve t sc = Some m" if "n1 = Some m" for m
  proof -
    have i: "0 < i" "resolve t (?cs ! (i - 1)) = Some m" using that by (auto simp: n1_def split: if_splits)
    have "?cs = take (i - 1) ?cs @ ?cs ! (i - 1) # ?cs ! i # drop (Suc i) ?cs"
      using id_take_nth_drop [of "i - 1" ?cs] Cons_nth_drop_Suc [of i ?cs] i(1) idx(2) by simp
    moreover have "i = Suc (length (take (i - 1) ?cs))" using i(1) idx(2) by simp
    ultimately show ?thesis using i(2) by blast
  qed
  have right: "\<exists>A sc B. ?cs = A @ ?cs ! i # sc # B \<and> i = length A \<and> resolve t sc = Some m" if "n2 = Some m" for m
  proof -
    have i: "Suc i < length ?cs" "resolve t (?cs ! Suc i) = Some m" using that by (auto simp: n2_def split: if_splits)
    have "?cs = take i ?cs @ ?cs ! i # ?cs ! Suc i # drop (Suc (Suc i)) ?cs"
      using id_take_nth_drop [of i ?cs] Cons_nth_drop_Suc [of "Suc i" ?cs] i(1) by simp
    moreover have "i = length (take i ?cs)" using i(1) by simp
    ultimately show ?thesis using i(2) by blast
  qed
  let ?go = "\<lambda>ofs s. if Msgsize t s < halfSize t then bindE (mergeTo t ofs s st) (\<lambda>st'. Inr (True, st'))
         else bindE (moveFrom t ofs s st) (\<lambda>st'. Inr (True, st'))"
  have "rebalanceChild t st = Inr (False, st) \<or> (\<exists>m. n1 = Some m \<and> rebalanceChild t st = ?go (-1) m) \<or>
      (\<exists>m. n2 = Some m \<and> rebalanceChild t st = ?go 1 m)"
    by (cases "Msgsize t me \<ge> smallSize t"; cases n1; cases n2)
      (auto simp: rebalanceChild_def ch me idx r1 r2)
  then show ?thesis using that left right by metis
qed


lemma rebalanceChild_step:
  assumes c: "at_child t D st C" and D: "D < maximumTreeDepth" and small: "\<forall>p \<in> set C. entry_small t p"
    and on: "child st = Inr (Some on)" "childNode on \<noteq> None"
  shows "\<exists>ch st'. rebalanceChild t st = Inr (ch, st') \<and>
    (if ch then at_child t D st' C \<and> progress t D st st' else st' = st)"
proof -
  obtain n i where inv: "stack_inv t D st C" and tD: "top st < D" and n: "nodes st ! top st = Some n"
    and i: "index st = int i" "i < length (Children n)"
    using c by (auto simp: at_child_def)
  have D1: "Suc (top st) < maximumTreeDepth" using tD D by simp
  have e: "D - top st = Suc (D - Suc (top st))" using tD by simp
  note w = stack_inv_cconts(1) [OF inv n, unfolded e]
  obtain me where me: "childNode (Children n ! i) = Some me" using on child_in [OF n i] by auto
  from n i me w show ?thesis
  proof (cases rule: rebalanceChild_cases)
    case 1
    then show ?thesis by auto
  next
    case (2 A sc B sib)
    let ?mc = "Children n ! i"
    note idx = i(1) [unfolded 2(2)]
    note tw = two_children [OF inv n 2(1) tD 2(3) resolve_childNode [OF me]]
    show ?thesis
    proof (cases "Msgsize t sib < halfSize t")
      case True
      obtain st' where st': "mergeTo t (-1) sib st = Inr st'" "stack_inv t D st' C" "top st' = top st"
        "index st' = int (length A)" "same_below (top st) st st'"
        "nodes st' ! top st = Some (Node False (A @ mkchild t (Node (Leafy sib) (Children sib @ Children me) None) # B) None)"
        by (rule mergeTo_left [OF inv n 2(1) tD D1 idx 2(3) me])
      have "at_child t D st' C" by (rule at_child_intro [OF st'(2) tD st'(3,6,4)])
      moreover have "progress t D st st'"
        by (rule mergeTo_left_progress [OF n 2(1) idx tD 2(3) me tw(3) st'(3-6)])
      ultimately show ?thesis using 2(4) True st'(1) by auto
    next
      case False
      have "\<forall>p \<in> set (cconts t (D - Suc (top st)) (Children sib)). entry_small t p"
        using small unfolding tw(7) by simp
      then have "2 \<le> length (Children sib)" using big_node_two [OF tw(1,3)] False by simp
      then obtain S x where S: "Children sib = S @ [x]" "S \<noteq> []" by (rule two_snoc)
      obtain st' where st': "moveFrom t (-1) sib st = Inr st'" "stack_inv t D st' C" "top st' = top st"
        "index st' = int (Suc (length A))" "same_below (top st) st st'"
        "nodes st' ! top st = Some (Node False (A @ [mkchild t (Node (Leafy sib) S None),
           mkchild t (Node (Leafy me) (x # Children me) None)] @ B) None)"
        by (rule moveFrom_left [OF inv n 2(1) tD D1 idx 2(3) me S])
      have "at_child t D st' C"
        by (rule at_child_intro [OF st'(2) tD st'(3), of False "A @ [mkchild t (Node (Leafy sib) S None)]"])
          (use st'(4,6) in simp_all)
      moreover have "progress t D st st'"
        by (rule moveFrom_left_progress [OF n 2(1) idx tD 2(3) me S(1) st'(3-6)])
      ultimately show ?thesis using 2(4) False st'(1) by auto
    qed
  next
    case (3 A sc B sib)
    note idx = i(1) [unfolded 3(2)]
    note tw = two_children [OF inv n 3(1) tD resolve_childNode [OF me] 3(3)]
    have csc: "cslots t (D - top st) sc = Suc (csl t (D - Suc (top st)) (Children sib))"
      by (rule csl_Suc [OF tD 3(3)])
    show ?thesis
    proof (cases "Msgsize t sib < halfSize t")
      case True
      obtain st' where st': "mergeTo t 1 sib st = Inr st'" "stack_inv t D st' C" "top st' = top st"
        "index st' = int (length A)" "same_below (top st) st st'"
        "nodes st' ! top st = Some (Node False (A @ mkchild t (Node (Leafy sib) (Children me @ Children sib) None) # B) None)"
        by (rule mergeTo_right [OF inv n 3(1) tD D1 idx 3(3) me])
      have "at_child t D st' C" by (rule at_child_intro [OF st'(2) tD st'(3,6,4)])
      moreover have "progress t D st st'"
        by (rule right_progress [OF n 3(1) idx st'(3-6)]) (simp add: csc)
      ultimately show ?thesis using 3(4) True st'(1) by auto
    next
      case False
      have "\<forall>p \<in> set (cconts t (D - Suc (top st)) (Children sib)). entry_small t p"
        using small unfolding tw(7) by simp
      then have "2 \<le> length (Children sib)" using big_node_two [OF tw(2,4)] False by simp
      then obtain x S where S: "Children sib = x # S" "S \<noteq> []" by (rule two_cons)
      obtain st' where st': "moveFrom t 1 sib st = Inr st'" "stack_inv t D st' C" "top st' = top st"
        "index st' = int (length A)" "same_below (top st) st st'"
        "nodes st' ! top st = Some (Node False (A @ [mkchild t (Node (Leafy me) (Children me @ [x]) None),
           mkchild t (Node (Leafy sib) S None)] @ B) None)"
        by (rule moveFrom_right [OF inv n 3(1) tD D1 idx 3(3) me S])
      have n': "nodes st' ! top st = Some (Node False (A @ mkchild t (Node (Leafy me) (Children me @ [x]) None) #
          (mkchild t (Node (Leafy sib) S None) # B)) None)" using st'(6) by simp
      have "at_child t D st' C" by (rule at_child_intro [OF st'(2) tD st'(3) n' st'(4)])
      moreover have "progress t D st st'"
        by (rule right_progress [OF n 3(1) idx st'(3-5) n']) (simp add: csc S csl_Suc [OF tD])
      ultimately show ?thesis using 3(4) False st'(1) by auto
    qed
  qed
qed

section \<open>Moving on\<close>

lemma first_dirty_Some:
  "first_dirty P cs pos i = Some (k, m) \<Longrightarrow>
     i \<le> k \<and> pos \<le> k \<and> k < pos + length cs \<and> childNode (cs ! (k - pos)) = Some m \<and> P m"
proof (induction cs arbitrary: pos)
  case (Cons c cs)
  show ?case
  proof (cases "\<exists>cn. childNode c = Some cn \<and> i \<le> pos \<and> P cn")
    case True
    then show ?thesis using Cons.prems by auto
  next
    case False
    then have "first_dirty P cs (Suc pos) i = Some (k, m)"
      using Cons.prems by (auto split: option.splits if_splits)
    from Cons.IH [OF this] show ?thesis by (auto simp: nth_Cons' Suc_le_eq)
  qed
qed simp

text \<open>All slots from the beginning of the top node on.\<close>

definition ahead :: "tree \<Rightarrow> nat \<Rightarrow> stack \<Rightarrow> nat" where
  "ahead t D st = csl t (D - top st) (Children (nd st (top st))) + after t D st (top st)"

lemma csl_split:
  assumes "i < length cs"
  shows "csl t h cs = csl t h (take i cs) + cslots t h (cs ! i) + csl t h (drop (Suc i) cs)"
  by (subst id_take_nth_drop [OF assms]) simp

lemma rest_less_ahead:
  assumes "nodes st ! top st = Some n" "index st = int i" "i < length (Children n)"
  shows "rest t D st < ahead t D st"
  using assms csl_split [OF assms(3), of t "D - top st"] cslots_pos [of t "D - top st" "Children n ! i"]
  by (simp add: rest_def ahead_def del: cslots_pos)

lemma push_ahead:
  assumes "nodes st ! top st = Some n" "i < length (Children n)" "resolve t (Children n ! i) = Some m" "top st < D"
    "top st' = Suc (top st)" "same_below (top st) st st'" "nodes st' ! top st = Some n"
    "indexes st' ! top st = int i" "nodes st' ! Suc (top st) = Some m"
  shows "ahead t D st' = cslots t (D - top st) (Children n ! i) + csl t (D - top st) (drop (Suc i) (Children n))
    + after t D st (top st)"
  using assms csl_Suc [OF assms(4,3)] after_same [OF assms(6), of t D] by (simp add: ahead_def)

lemma goDownLeft_ok:
  assumes "stack_inv t D st C" "top st < D" "D < maximumTreeDepth" "nodes st ! top st = Some n" "Children n \<noteq> []"
    "index st = 0"
  shows "\<exists>st'. goDownLeft st = Inr st' \<and> at_child t D st' C \<and> ahead t D st' \<le> ahead t D st"
  using assms
proof (induction "D - top st" arbitrary: st n rule: less_induct)
  case less
  note inv = less.prems(1) and tD = less.prems(2) and n = less.prems(4)
  show ?case
  proof (cases "first_dirty (\<lambda>cn. \<not> Leafy cn) (Children n) 0 0")
    case None
    then have "goDownLeft st = Inr st"
      using n by (simp add: goDownLeft.simps [of st] node_def)
    moreover have "at_child t D st C" using less.prems by (auto simp: at_child_def)
    ultimately show ?thesis by auto
  next
    case (Some r)
    obtain i m where r: "r = (i, m)" by (cases r)
    then have i: "i < length (Children n)" "childNode (Children n ! i) = Some m" "\<not> Leafy m"
      using first_dirty_Some [OF Some [unfolded r]] by simp_all
    have e: "D - top st = Suc (D - Suc (top st))" using tD by simp
    note rm = resolve_childNode [OF i(2)]
    obtain st1 where st1: "push (int i) (Some m) st = Inr st1" "stack_inv t D st1 C" "top st1 = Suc (top st)"
      "same_below (top st) st st1" "nodes st1 ! top st = Some n" "indexes st1 ! top st = int i"
      "nodes st1 ! Suc (top st) = Some m" "index st1 = 0"
      by (rule stack_inv_push [OF inv n i(1) rm tD]) (use tD less.prems(3) in simp)
    obtain m' where m': "resolve t (Children n ! i) = Some m'" "wfn t (D - Suc (top st)) m'" "Children m' \<noteq> []"
      by (rule wfc_nth_resolve [OF stack_inv_cconts(1) [OF inv n, unfolded e] i(1)])
    with rm have mm: "m' = m" by simp
    have "top st1 \<noteq> D" using wfn_Leafy [OF m'(2)] mm i(3) st1(3) by auto
    then have t1: "top st1 < D" using st1(3) tD by simp
    have dl: "D - top st1 < D - top st" using st1(3) tD by linarith
    obtain st' where st': "goDownLeft st1 = Inr st'" "at_child t D st' C" "ahead t D st' \<le> ahead t D st1"
      using less.hyps [OF dl st1(2) t1 less.prems(3), of m] st1(3,7,8) m'(3) mm by auto
    have "ahead t D st1 \<le> ahead t D st"
      using push_ahead [OF n i(1) rm tD st1(3-7)] csl_split [OF i(1), of t "D - top st"] n
      by (simp add: ahead_def [of t D st])
    moreover have "goDownLeft st = goDownLeft st1"
      using n Some r st1(1) by (simp add: goDownLeft.simps [of st] node_def)
    ultimately show ?thesis using st' by auto
  qed
qed


lemma csl_drop_le:
  assumes "i < i'" "i' < length cs"
  shows "cslots t h (cs ! i') + csl t h (drop (Suc i') cs) \<le> csl t h (drop (Suc i) cs)"
proof -
  obtain d where d: "i' = Suc i + d" using assms(1) by (metis add_Suc less_imp_Suc_add)
  have "csl t h (drop (Suc i) cs) = csl t h (take d (drop (Suc i) cs)) + cslots t h (drop (Suc i) cs ! d)
      + csl t h (drop (Suc d) (drop (Suc i) cs))"
    by (rule csl_split) (use assms(2) d in simp)
  moreover have "drop (Suc i) cs ! d = cs ! i'" "drop (Suc d) (drop (Suc i) cs) = drop (Suc i') cs"
    using d assms(2) by (simp_all add: add.commute)
  ultimately show ?thesis by simp
qed

lemma moveRight_step:
  assumes c: "at_child t D st C" and D: "D < maximumTreeDepth"
  shows "\<exists>go st'. moveRight t st = Inr (go, st') \<and>
    (if go then at_child t D st' C \<and> progress t D st st' else st' = st \<and> top st = 0)"
proof -
  obtain n i where inv: "stack_inv t D st C" and tD: "top st < D" and n: "nodes st ! top st = Some n"
    and i: "index st = int i" "i < length (Children n)"
    using c by (auto simp: at_child_def)
  note low = stack_inv_lower [OF inv]
  have ni: "nat (index st + 1) = Suc i" using i(1) by simp
  have rst: "rest t D st = csl t (D - top st) (drop (Suc i) (Children n)) + after t D st (top st)"
    using n i by (simp add: rest_def)
  show ?thesis
  proof (cases "first_dirty (\<lambda>cn. True) (Children n) 0 (Suc i)")
    case None
    then have mr: "moveRight t st = (if top st = 0 then Inr (False, st) else bindE (pop t st) (\<lambda>st'. Inr (True, st')))"
      using n ni by (simp add: moveRight_def node_def)
    show ?thesis
    proof (cases "top st")
      case 0
      then show ?thesis using mr by auto
    next
      case (Suc j)
      obtain p where p: "nodes st ! j = Some p" "0 \<le> indexes st ! j" "indexes st ! j < int (length (Children p))"
        by (rule path_ok_node [OF low(2), of j]) (use Suc in simp_all)
      have ne: "Children n \<noteq> []" using i(2) by auto
      obtain st' where st': "pop t st = Inr st'" "stack_inv t D st' C" "top st' = j"
        "indexes st' = indexes st" "same_below j st st'"
        "nodes st' ! j = Some (Node False (take (ix st j) (Children p) @ popped t n @
            drop (Suc (ix st j)) (Children p)) None)"
        by (rule pop_inv [OF inv Suc n p(1)])
      let ?A = "take (ix st j) (Children p)" and ?B = "drop (Suc (ix st j)) (Children p)"
      have lA: "length ?A = ix st j" using p by simp
      have n': "nodes st' ! j = Some (Node False (?A @ mkchild t n # ?B) None)"
        using st'(6) popped_nonempty [OF ne, of t] by simp
      have idx': "index st' = int (length ?A)" unfolding lA using st'(3,4) p(2) by (simp add: index_def)
      have jD: "j < D" using tD Suc by simp
      have "at_child t D st' C" by (rule at_child_intro [OF st'(2) jD st'(3) n' idx'])
      moreover have "rest t D st' = csl t (D - j) ?B + after t D st j"
        using rest_at [of st' _ ?A "mkchild t n" ?B t D] n' idx' st'(3) after_same [OF st'(5), of t D] by simp
      then have "progress t D st st'" using rst Suc p(1) by (simp add: progress_def)
      ultimately show ?thesis using mr Suc st'(1) by auto
    qed
  next
    case (Some r)
    obtain i' m where r: "r = (i', m)" by (cases r)
    then have i': "i < i'" "i' < length (Children n)" "childNode (Children n ! i') = Some m"
      using first_dirty_Some [OF Some [unfolded r]] by simp_all
    note rm = resolve_childNode [OF i'(3)]
    have le: "cslots t (D - top st) (Children n ! i') + csl t (D - top st) (drop (Suc i') (Children n)) + after t D st (top st)
        \<le> rest t D st"
      using csl_drop_le [OF i'(1,2), of t "D - top st"] by (simp add: rst)
    show ?thesis
    proof (cases "Leafy m")
      case True
      then have "moveRight t st = Inr (True, setIndex (int i') st)"
        using n ni Some r by (simp add: moveRight_def node_def)
      moreover have ns: "nodes (setIndex (int i') st) ! top st = Some n" "index (setIndex (int i') st) = int i'"
        using pos_setIndex(3,4) [OF low(1) n] by simp_all
      have "at_child t D (setIndex (int i') st) C"
        using stack_inv_setIndex [OF inv] tD ns i'(2) by (auto simp: at_child_def)
      moreover have "rest t D (setIndex (int i') st) = csl t (D - top st) (drop (Suc i') (Children n)) + after t D st (top st)"
        using ns after_same [OF same_below_setIndex [OF low(1)], of t D] by (simp add: rest_def)
      then have "progress t D st (setIndex (int i') st)"
        using le cslots_pos [of t "D - top st" "Children n ! i'"] unfolding progress_def by linarith
      ultimately show ?thesis by auto
    next
      case False
      have sc: "Stack_childNode t (int i') st = Inr (Some m)"
        by (rule Stack_childNode_other [OF n _ i'(2) rm]) (use i(1) i'(1) in \<open>simp add: index_def\<close>)
      obtain st1 where st1: "push (int i') (Some m) st = Inr st1" "stack_inv t D st1 C" "top st1 = Suc (top st)"
        "same_below (top st) st st1" "nodes st1 ! top st = Some n" "indexes st1 ! top st = int i'"
        "nodes st1 ! Suc (top st) = Some m" "index st1 = 0"
        by (rule stack_inv_push [OF inv n i'(2) rm tD]) (use tD D in simp)
      have n1: "nodes st1 ! top st1 = Some m" using st1(3,7) by simp
      note cc = stack_inv_cconts [OF st1(2) n1]
      have t1: "top st1 < D" using cc(5) False st1(3) tD by (cases "top st1 = D") auto
      have e: "D - top st = Suc (D - Suc (top st))" using tD by simp
      obtain m' where "resolve t (Children n ! i') = Some m'" "Children m' \<noteq> []"
        by (rule wfc_nth_resolve [OF stack_inv_cconts(1) [OF inv n, unfolded e] i'(2)])
      then have "Children m \<noteq> []" using rm by simp
      then obtain st2 where st2: "goDownLeft st1 = Inr st2" "at_child t D st2 C" "ahead t D st2 \<le> ahead t D st1"
        using goDownLeft_ok [OF st1(2) t1 D n1 _ st1(8)] by blast
      have "rest t D st2 < ahead t D st2"
        using st2(2) rest_less_ahead by (auto simp: at_child_def)
      then have "progress t D st st2"
        using st2(3) push_ahead [OF n i'(2) rm tD st1(3-7)] le by (simp add: progress_def)
      moreover have "moveRight t st = Inr (True, st2)"
        using n ni Some r False sc st1(1) st2(1) by (simp add: moveRight_def node_def pushIndex_def)
      ultimately show ?thesis using st2(2) by auto
    qed
  qed
qed

section \<open>The loop ends and keeps the entries\<close>

lemma iterate_step_ok:
  assumes "at_child t D st C" "D < maximumTreeDepth" "\<forall>p \<in> set C. entry_small t p"
  shows "\<exists>st' go. iterate_step t (rebalanceChild t) st = Inr (st', go) \<and>
    (if go then at_child t D st' C \<and> progress t D st st' else stack_inv t D st' C)"
proof -
  obtain n i where inv: "stack_inv t D st C" and n: "nodes st ! top st = Some n"
    and i: "index st = int i" "i < length (Children n)"
    using assms(1) by (auto simp: at_child_def)
  note ch = child_in [OF n i]
  obtain go st' where mr: "moveRight t st = Inr (go, st')"
    "if go then at_child t D st' C \<and> progress t D st st' else st' = st \<and> top st = 0"
    using moveRight_step [OF assms(1,2)] by blast
  show ?thesis
  proof (cases "childNode (Children n ! i) = None")
    case True
    then have "iterate_step t (rebalanceChild t) st = Inr (st', go)"
      using ch mr(1) by (simp add: iterate_step_def)
    with mr(2) inv show ?thesis by (cases go) auto
  next
    case False
    obtain chd st1 where rb: "rebalanceChild t st = Inr (chd, st1)"
      "if chd then at_child t D st1 C \<and> progress t D st st1 else st1 = st"
      using rebalanceChild_step [OF assms(1,2,3) ch False] by blast
    show ?thesis
    proof (cases chd)
      case True
      then have "iterate_step t (rebalanceChild t) st = Inr (st1, True)"
        using ch False rb(1) by (simp add: iterate_step_def)
      with rb(2) True show ?thesis by auto
    next
      case notch: False
      then have "iterate_step t (rebalanceChild t) st = Inr (st', go)"
        using ch False rb mr(1) by (simp add: iterate_step_def)
      with mr(2) inv show ?thesis by (cases go) auto
    qed
  qed
qed

definition loop_order :: "tree \<Rightarrow> nat \<Rightarrow> ((stack \<times> bool) res \<times> (stack \<times> bool) res) set" where
  "loop_order t D =
     inv_image (less_than <*lex*> less_than <*lex*> less_than)
       (\<lambda>r. case r of Inl e \<Rightarrow> (0, 0, 0)
            | Inr (st, go) \<Rightarrow> if go then (1 :: nat, rest t D st, weight t D st) else (0, 0, 0))"

lemma wf_loop_order: "wf (loop_order t D)"
  unfolding loop_order_def by (intro wf_inv_image wf_lex_prod wf_less_than)

lemma iterate_loop_ok:
  assumes "at_child t D st C" "D < maximumTreeDepth" "\<forall>p \<in> set C. entry_small t p"
  shows "\<exists>st'. iterate_loop t (rebalanceChild t) st = Inr st' \<and> stack_inv t D st' C"
proof -
  let ?b = "\<lambda>r :: (stack \<times> bool) res. case r of Inl e \<Rightarrow> False | Inr (st, go) \<Rightarrow> go"
  let ?c = "\<lambda>r :: (stack \<times> bool) res. case r of Inl e \<Rightarrow> Inl e
      | Inr (st, go) \<Rightarrow> iterate_step t (rebalanceChild t) st"
  let ?P = "\<lambda>r :: (stack \<times> bool) res. case r of Inl e \<Rightarrow> False
      | Inr (st, go) \<Rightarrow> stack_inv t D st C \<and> (go \<longrightarrow> at_child t D st C)"
  have step: "?P (?c s) \<and> (?c s, s) \<in> loop_order t D" if P: "?P s" and b: "?b s" for s
  proof -
    obtain st1 where s: "s = Inr (st1, True)" "at_child t D st1 C"
      using P b by (cases s) auto
    obtain st2 go where "iterate_step t (rebalanceChild t) st1 = Inr (st2, go)"
      "if go then at_child t D st2 C \<and> progress t D st1 st2 else stack_inv t D st2 C"
      using iterate_step_ok [OF s(2) assms(2,3)] by blast
    with s show ?thesis
      by (cases go) (auto simp: loop_order_def progress_def at_child_def)
  qed
  have init: "?P (Inr (st, True))" using assms(1) by (simp add: at_child_def)
  obtain r where r: "while_option ?b ?c (Inr (st, True)) = Some r"
    using wf_rel_while_option_Some [OF wf_loop_order, of ?P ?b ?c, OF _ _ init] step by blast
  have "?P r"
    by (rule while_option_rule [OF _ r, of ?P]) (use step init in blast)+
  then show ?thesis using r by (cases r) (auto simp: iterate_loop_def)
qed


lemma stack_inv_reset:
  assumes "stack_inv t D st C" "top st = 0"
  shows "Reset st = Inr (setIndex 0 st)" "stack_inv t D (setIndex 0 st) C" "top (setIndex 0 st) = 0"
    "index (setIndex 0 st) = 0" "nodes (setIndex 0 st) ! 0 = nodes st ! 0"
proof -
  note low = stack_inv_lower [OF assms(1)]
  obtain n where n: "nodes st ! top st = Some n" by (rule stack_inv_node [OF assms(1)])
  then show "Reset st = Inr (setIndex 0 st)" using assms(2) by (simp add: Reset_def)
  show "stack_inv t D (setIndex 0 st) C" by (rule stack_inv_setIndex [OF assms(1)])
  show "top (setIndex 0 st) = 0" "index (setIndex 0 st) = 0" "nodes (setIndex 0 st) ! 0 = nodes st ! 0"
    using assms(2) pos_setIndex(3,4) [OF low(1) n, of 0] n by simp_all
qed

lemma iterateMutating_ok:
  assumes "stack_inv t D st C" "top st = 0" "D < maximumTreeDepth" "\<forall>p \<in> set C. entry_small t p"
    "0 < D \<longrightarrow> C \<noteq> []"
  shows "\<exists>st'. iterateMutatingChildLeafFirst t (rebalanceChild t) st = Inr st' \<and> stack_inv t D st' C \<and> top st' = 0"
proof -
  let ?s = "setIndex 0 st"
  note rs = stack_inv_reset [OF assms(1,2)]
  obtain n where n: "nodes ?s ! top ?s = Some n" by (rule stack_inv_node [OF rs(2)])
  note cc = stack_inv_cconts [OF rs(2) n]
  show ?thesis
  proof (cases "D = 0")
    case True
    then have "Leafy n" using cc(5) by simp
    then show ?thesis
      using rs n by (simp add: iterateMutatingChildLeafFirst_def node_def)
  next
    case False
    then have nl: "\<not> Leafy n" and tD: "top ?s < D" using cc(5) rs(3) by auto
    have "Children n \<noteq> []" using cc(3) rs(3) assms(5) False by auto
    then obtain st1 where st1: "goDownLeft ?s = Inr st1" "at_child t D st1 C"
      using goDownLeft_ok [OF rs(2) tD assms(3) n _ rs(4)] by blast
    obtain st2 where st2: "iterate_loop t (rebalanceChild t) st1 = Inr st2" "stack_inv t D st2 C"
      using iterate_loop_ok [OF st1(2) assms(3,4)] by blast
    obtain st3 where st3: "popAll t st2 = Inr st3" "stack_inv t D st3 C" "top st3 = 0"
      by (rule popAll_inv [OF st2(2)])
    show ?thesis
      using rs(1,3) n nl st1(1) st2(1) st3 by (simp add: iterateMutatingChildLeafFirst_def node_def)
  qed
qed

section \<open>Shrinking the root\<close>

lemma mapE_childNodes:
  assumes inv: "stack_inv t D st C" and top: "top st = 0" and n: "nodes st ! 0 = Some n" and D: "D = Suc d" "D < maximumTreeDepth"
  obtains cns where "mapE (\<lambda>i. bindE (Stack_childNode t (int i) st) deref) [0..<length (Children n)] = Inr cns"
    "length cns = length (Children n)" "\<And>i. i < length cns \<Longrightarrow> resolve t (Children n ! i) = Some (cns ! i)"
proof -
  have n': "nodes st ! top st = Some n" using n top by simp
  note cc = stack_inv_cconts [OF inv n'] and low = stack_inv_lower [OF inv]
  define cns where "cns = map (\<lambda>i. the (resolve t (Children n ! i))) [0..<length (Children n)]"
  have w: "wfn t (Suc d) n" using cc(1) top D by simp
  have r: "resolve t (Children n ! i) = Some (cns ! i)" if "i < length (Children n)" for i
    by (rule wfc_nth_resolve [OF w that]) (use that in \<open>simp add: cns_def\<close>)
  have "mapE (\<lambda>i. bindE (Stack_childNode t (int i) st) deref) [0..<length (Children n)] = Inr cns"
    unfolding cns_def
  proof (rule mapE_Inr)
    fix i assume "i \<in> set [0..<length (Children n)]"
    then have i: "i < length (Children n)" by simp
    have "Stack_childNode t (int i) st = Inr (Some (cns ! i))"
      by (rule Stack_childNode_ok [OF n' low(3) i r [OF i]])
        (use top D stack_ok_lengths(1) [OF low(1)] in \<open>simp_all add: maximumTreeDepth_def\<close>)
    then show "bindE (Stack_childNode t (int i) st) deref = Inr (the (resolve t (Children n ! i)))"
      using r [OF i] by simp
  qed
  moreover have len: "length cns = length (Children n)" by (simp add: cns_def)
  moreover have "resolve t (Children n ! i) = Some (cns ! i)" if "i < length cns" for i
    by (rule r) (use that len in simp)
  ultimately show ?thesis by (rule that)
qed

lemma cconts_concat:
  assumes "length cns = length cs" "\<And>i. i < length cns \<Longrightarrow> resolve t (cs ! i) = Some (cns ! i)"
  shows "cconts t d (concat (map Children cns)) = cconts t (Suc d) cs"
  using assms
proof (induction cns arbitrary: cs)
  case (Cons m cns)
  then obtain c cs' where cs: "cs = c # cs'" by (cases cs) auto
  have "resolve t c = Some m" using Cons.prems(2) [of 0] cs by simp
  moreover have "cconts t d (concat (map Children cns)) = cconts t (Suc d) cs'"
  proof (rule Cons.IH)
    show "length cns = length cs'" using Cons.prems(1) cs by simp
    show "resolve t (cs' ! i) = Some (cns ! i)" if "i < length cns" for i
      using Cons.prems(2) [of "Suc i"] that cs by simp
  qed
  ultimately show ?case using cs by (simp add: ccont_resolve)
qed simp

lemma stack_inv_smallCount: "stack_inv t D (st\<lparr>smallCount := k\<rparr>) C \<longleftrightarrow> stack_inv t D st C"
proof -
  have s: "same_below i (st\<lparr>smallCount := k\<rparr>) st" for i by (simp add: same_below_def)
  show ?thesis
    using frame_same [OF s, of t D]
    by (simp add: stack_inv_def stack_ok_def cache_ok_def)
qed

lemma shrinkRoot_ok:
  assumes inv: "stack_inv t D st C" and top: "top st = 0" and D: "D < maximumTreeDepth"
  shows "\<exists>st' D'. shrinkRoot t st = Inr st' \<and> stack_inv t D' st' C \<and> top st' = 0 \<and> D' \<le> D"
proof -
  obtain n where n': "nodes st ! top st = Some n" by (rule stack_inv_node [OF inv])
  then have n: "nodes st ! 0 = Some n" using top by simp
  note cc = stack_inv_cconts [OF inv n'] and low = stack_inv_lower [OF inv]
  show ?thesis
  proof (cases "\<not> Leafy n \<and> Msgsize t n < smallSize t")
    case False
    then have "shrinkRoot t st = Inr st" using n' by (auto simp: shrinkRoot_def node_def)
    with inv top show ?thesis by auto
  next
    case True
    then obtain d where d: "D = Suc d" using cc(5) top by (cases D) auto
    obtain cns where cns: "mapE (\<lambda>i. bindE (Stack_childNode t (int i) st) deref) [0..<length (Children n)] = Inr cns"
      "length cns = length (Children n)" "\<And>i. i < length cns \<Longrightarrow> resolve t (Children n ! i) = Some (cns ! i)"
      by (rule mapE_childNodes [OF inv top n d D]) blast
    let ?cl = "concat (map Children cns)"
    show ?thesis
    proof (cases "(\<Sum>cn \<leftarrow> cns. Msgsize t cn) \<le> NodeMaximumSize t")
      case False
      then have "shrinkRoot t st = Inr st" using n' True cns(1) by (simp add: shrinkRoot_def node_def)
      with inv top show ?thesis by auto
    next
      case fits: True
      have w: "wfn t (Suc d) n" using cc(1) top d by simp
      have wm: "wfn t d (cns ! i)" if "i < length cns" for i
        by (rule wfc_nth_resolve [OF w, of i]) (use that cns(2,3) in auto)
      have wms: "\<forall>m \<in> set cns. wfn t d m" using wm by (auto simp: in_set_conv_nth)
      then have wcl: "\<forall>c \<in> set ?cl. wfc t d c" and lf: "\<forall>m \<in> set cns. Leafy m \<longleftrightarrow> d = 0"
        by (auto simp: wfn_eq)
      have C: "C = cconts t d ?cl" "ordered (cconts t d ?cl)"
        using cc(3) low(4) top d cconts_concat [OF cns(2,3), of d] by auto
      obtain st1 where st1: "rewriteNodeChildren t (map Some ?cl) st = Inr st1"
        "rewritten st (Node (Leafy n) ?cl None) st1"
        by (rule rewriteNodeChildren_ok [OF low(1) n' wcl C(2)])
      have t1: "top st1 = 0" and n1: "nodes st1 ! 0 = Some (Node False ?cl None)"
        and ok1: "stack_ok st1" and above: "\<forall>j. 0 < j \<and> j < maximumTreeDepth \<longrightarrow> nodes st1 ! j = None"
        using st1(2) top True by (auto simp: rewritten_def)
      show ?thesis
      proof (cases "list_ex Leafy cns")
        case True
        let ?s = "st1\<lparr>nodes := (nodes st1)[top st1 := Some (Node True ?cl None)]\<rparr>"
        have "d = 0" using True lf by (auto simp: list_ex_iff)
        have rw: "rewritten st1 (Node True ?cl None) ?s"
          using ok1 above t1 by (auto simp: rewritten_def stack_ok_def same_below_def)
        have "stack_inv t d ?s C"
          by (rule rewritten_inv [OF rw]) (use t1 wcl C \<open>d = 0\<close> in \<open>simp_all add: path_ok_def wfn_eq contents_eq\<close>)
        moreover have "shrinkRoot t st = Inr ?s"
          using n' \<open>\<not> Leafy n \<and> Msgsize t n < smallSize t\<close> cns(1) fits st1(1) n1 t1 True
          by (simp add: shrinkRoot_def node_def)
        ultimately show ?thesis using t1 d by auto
      next
        case nl: False
        show ?thesis
        proof (cases "d = 0")
          case False
          have "rewritten st (Node False ?cl None) st1" using st1(2) True by simp
          then have "stack_inv t d st1 C"
            by (rule rewritten_inv) (use top wcl C False in \<open>simp_all add: path_ok_def wfn_eq contents_eq\<close>)
          moreover have "shrinkRoot t st = Inr st1"
            using n' True cns(1) fits st1(1) n1 t1 nl by (simp add: shrinkRoot_def node_def)
          ultimately show ?thesis using t1 d by auto
        next
          case z: True
          then have "cns = []" using nl lf by (cases cns) auto
          then have e: "Children n = []" "?cl = []" using cns(2) by auto
          have "rewritten st (Node False [] None) st1" using st1(2) True e by simp
          then have "stack_inv t D st1 C"
            by (rule rewritten_inv) (use top C e d in \<open>simp_all add: path_ok_def wfn_eq contents_eq\<close>)
          moreover have "shrinkRoot t st = Inr st1"
            using n' True cns(1) fits st1(1) n1 t1 nl by (simp add: shrinkRoot_def node_def)
          ultimately show ?thesis using t1 by auto
        qed
      qed
    qed
  qed
qed

section \<open>Commit\<close>

text \<open>A stack at the root with a consistent cache is a transaction.\<close>

lemma stack_inv_tr_inv:
  assumes "stack_inv t D st C" "top st = 0" "D < maximumTreeDepth" "0 < D \<longrightarrow> C \<noteq> []"
  shows "tr_inv t D st C"
proof -
  obtain n where n: "nodes st ! top st = Some n" by (rule stack_inv_node [OF assms(1)])
  note cc = stack_inv_cconts [OF assms(1) n] and low = stack_inv_lower [OF assms(1)]
  have "contents t D n = C" using cc(3) assms(2) by (simp add: contents_eq)
  moreover have "0 < D \<longrightarrow> Children n \<noteq> []" using cc(3) assms(2,4) by auto
  ultimately show ?thesis
    using cc(1) n low assms by (auto simp: tr_inv_def clean_def wf_tree_def)
qed

theorem commit_ok:
  assumes "stack_inv t D st C" "D < maximumTreeDepth" "\<forall>p \<in> set C. entry_small t p" "0 < D \<longrightarrow> C \<noteq> []"
  shows "\<exists>n st' D'. commit t st = Inr (n, st') \<and> tr_inv t D' st' C \<and> D' \<le> D"
proof -
  obtain st1 where st1: "popAll t st = Inr st1" "stack_inv t D st1 C" "top st1 = 0"
    by (rule popAll_inv [OF assms(1)])
  show ?thesis
  proof (cases "smallCount st1 = 0")
    case True
    obtain n where "nodes st1 ! top st1 = Some n" by (rule stack_inv_node [OF st1(2)])
    then have "commit t st = Inr (n, st1)" using True st1(1) by (simp add: commit_def node_def)
    with stack_inv_tr_inv [OF st1(2,3) assms(2,4)] show ?thesis by blast
  next
    case False
    obtain st2 where st2: "iterateMutatingChildLeafFirst t (rebalanceChild t) st1 = Inr st2" "stack_inv t D st2 C" "top st2 = 0"
      using iterateMutating_ok [OF st1(2,3) assms(2,3,4)] by blast
    obtain st3 D' where st3: "shrinkRoot t st2 = Inr st3" "stack_inv t D' st3 C" "top st3 = 0" "D' \<le> D"
      using shrinkRoot_ok [OF st2(2,3) assms(2)] by blast
    obtain n where "nodes st3 ! top st3 = Some n" by (rule stack_inv_node [OF st3(2)])
    then have "commit t st = Inr (n, st3\<lparr>smallCount := 0\<rparr>)"
      using False st1(1) st2(1) st3(1) by (simp add: commit_def node_def)
    moreover have "tr_inv t D' (st3\<lparr>smallCount := 0\<rparr>) C"
      by (rule stack_inv_tr_inv) (use st3 assms stack_inv_smallCount in auto)
    ultimately show ?thesis using st3(4) by blast
  qed
qed

end
