(* ===== verification/IbMap.thy ===== *)
theory IbMap
  imports IbCommit
begin

text \<open>
  The operations of a transaction as operations on an ordered map. A transaction stands for
  the sorted list of its entries (\<open>tr_inv\<close>); \<^verbatim>\<open>Get\<close>, \<^verbatim>\<open>NextKey\<close> and \<^verbatim>\<open>PrevKey\<close> read it,
  \<^verbatim>\<open>Set\<close>, \<^verbatim>\<open>Delete\<close> and \<^verbatim>\<open>DeleteRange\<close> change it like \<open>al_set\<close>, \<open>al_del\<close> and
  \<open>al_del_range\<close>.

  The hypotheses are the ones the code relies on without checking them: keys are not empty,
  an entry is smaller than half a node, the tree is below the depth the stack has room for,
  and a deletion does not empty a tree of more than one level.
\<close>

section \<open>Set and Delete\<close>

definition tree_ok :: "tree \<Rightarrow> bool" where
  "tree_ok t \<longleftrightarrow> halfSize t \<le> NodeMaximumSize t"

lemma tree_ok_init: "tree_ok (Tree_Init t be)"
proof -
  have "x div 2 \<le> x" if "512 \<le> x" for x :: int using that by presburger
  then show ?thesis
    by (simp add: tree_ok_def Tree_Init_def setNodeMaximumSize_def minimumNodeMaximumSize_def Let_def)
qed

lemma search_stack_inv:
  assumes "clean t D root st" "cut_at t D st key" "nodes st ! D = Some n" "index st = int i" "i \<le> length (Children n)"
  shows "stack_inv t D st (contents t D root)" "nodes st ! top st = Some n"
    "posL t D st = ctxL t D st (top st) @ cconts t (D - top st) (take i (Children n))"
    "posR t D st = cconts t (D - top st) (drop i (Children n)) @ ctxR t D st (top st)"
    "contents t D root = posL t D st @ posR t D st" "ordered (contents t D root)" "top st = D"
  using assms clean_inv [OF assms(1)] clean_pos [OF assms(1)] stack_inv_lower(4) [OF clean_inv [OF assms(1)]]
  by (auto simp: cut_at_def posL_def posR_def)

lemma Node_Set_clean:
  assumes c: "clean t D root st" "top st = 0" and key: "key \<noteq> []" and ok: "tree_ok t"
    and small: "entry_small t (key, v)" "\<forall>p \<in> set (contents t D root). entry_small t p"
    and D: "Suc D < maximumTreeDepth"
  shows "\<exists>n st' D'. Node_Set t root key v st = Inr (n, st') \<and> tr_inv t D' st' (al_set key v (contents t D root)) \<and> D' \<le> Suc D"
proof -
  let ?C = "contents t D root" and ?nc = "NodeDataChild key v None"
  obtain st1 where st1: "Node_search t root key st = Inr st1" "clean t D root st1" "cut_at t D st1 key"
    using Node_search_cut [OF c] by blast
  have oc: "ordered ?C" using clean_parts(3) [OF c(1)] by (simp add: wf_tree_def)
  have o: "ordered (al_set key v ?C)" by (rule ordered_al_set [OF oc key])
  have small': "\<forall>p \<in> set (al_set key v ?C). entry_small t p" using small by (auto simp: al_set_def)
  have ne: "al_set key v ?C \<noteq> []" by (simp add: al_set_def)
  note fin = commit_ok [OF _ _ small']
  from st1(2,3) show ?thesis
  proof (cases rule: cut_cases)
    case (missing n i x)
    note si = search_stack_inv [OF st1(2,3) missing(1,2,3)]
    have C': "al_set key v ?C = ctxL t D st1 (top st1) @
        cconts t (D - top st1) (take i (Children n) @ ?nc # drop i (Children n)) @ ctxR t D st1 (top st1)"
      unfolding si(5) al_set_cut_insert [OF missing(7,8)] using si(3,4,7) by (simp add: entry_def)
    have wc: "wfc t (D - top st1) ?nc" using si(7) by (simp add: wfc_def)
    have fits: "Msgsize t (Node (Leafy n) [?nc] None) \<le> NodeMaximumSize t"
      using one_child_small [OF wc, of "Leafy n" None] small(1) si(7) ok by (simp add: entry_def tree_ok_def)
    obtain st2 D' where st2: "addChildAt t ?nc st1 = Inr st2" "stack_inv t D' st2 (al_set key v ?C)" "D' \<le> Suc D"
      using addChildAt_inv [OF si(1,2) missing(2,3) wc _ C' o] fits by blast
    obtain n' st3 D'' where st3: "commit t st2 = Inr (n', st3)" "tr_inv t D'' st3 (al_set key v ?C)" "D'' \<le> D'"
      using fin [OF st2(2)] st2(3) D ne by auto
    have "Node_Set t root key v st = Inr (n', st3)"
      using st1(1) missing(4,6) st2(1) st3(1) by (cases x) (fastforce simp: Node_Set_def Let_def)+
    with st3 st2(3) show ?thesis by (meson order_trans)
  next
    case (found n i u)
    note si = search_stack_inv [OF st1(2,3) found(1,2) less_imp_le [OF found(3)]]
    have C1: "?C = posL t D st1 @ (key, u) # tl (posR t D st1)" using si(5) found(7) by simp
    have C2: "al_set key v ?C = posL t D st1 @ (key, v) # tl (posR t D st1)"
      unfolding C1 by (rule al_set_cut_replace [OF found(6,8)])
    have "\<exists>st2. (if u \<noteq> v then rewriteAtIndex t True (Some ?nc) st1 else Inr st1) = Inr st2 \<and>
        stack_inv t D st2 (al_set key v ?C)"
    proof (cases "u = v")
      case True
      then show ?thesis using si(1) C1 C2 by simp
    next
      case False
      let ?cs = "take i (Children n) @ ?nc # drop (Suc i) (Children n)"
      have w: "\<forall>c \<in> set ?cs. wfc t (D - top st1) c"
        using stack_inv_cconts(2) [OF si(1,2)] si(7) by (auto simp: wfc_def dest: in_set_takeD in_set_dropD)
      have tl: "tl (posR t D st1) = cconts t (D - top st1) (drop (Suc i) (Children n)) @ ctxR t D st1 (top st1)"
        unfolding si(4) by (subst Cons_nth_drop_Suc [OF found(3), symmetric]) (simp add: si(7))
      have C3: "al_set key v ?C = ctxL t D st1 (top st1) @ cconts t (D - top st1) ?cs @ ctxR t D st1 (top st1)"
        unfolding C2 tl using si(3,7) by (simp add: entry_def)
      obtain st2 where "rewriteNodeChildren t (map Some ?cs) st1 = Inr st2" "stack_inv t D st2 (al_set key v ?C)"
        by (rule rewriteNodeChildren_inv [OF si(1,2) w C3 o])
      then show ?thesis using False rewriteAtIndex_replace [OF si(2) found(2,3), of t ?nc] by simp
    qed
    then obtain st2 where st2: "(if u \<noteq> v then rewriteAtIndex t True (Some ?nc) st1 else Inr st1) = Inr st2"
      "stack_inv t D st2 (al_set key v ?C)" by blast
    obtain n' st3 D'' where st3: "commit t st2 = Inr (n', st3)" "tr_inv t D'' st3 (al_set key v ?C)" "D'' \<le> D"
      using fin [OF st2(2)] D ne by auto
    have "Node_Set t root key v st = Inr (n', st3)"
      using st1(1) found(4) st2(1) st3(1) by (simp add: Node_Set_def)
    with st3 show ?thesis by (meson le_SucI)
  qed
qed

lemma Node_Delete_clean:
  assumes c: "clean t D root st" "top st = 0" and key: "key \<in> fst ` set (contents t D root)"
    and small: "\<forall>p \<in> set (contents t D root). entry_small t p"
    and ne: "0 < D \<longrightarrow> al_del key (contents t D root) \<noteq> []"
  shows "\<exists>n st' D'. Node_Delete t root key st = Inr (n, st') \<and> tr_inv t D' st' (al_del key (contents t D root)) \<and> D' \<le> D"
proof -
  let ?C = "contents t D root"
  obtain st1 where st1: "Node_search t root key st = Inr st1" "clean t D root st1" "cut_at t D st1 key"
    using Node_search_cut [OF c] by blast
  from st1(2,3) show ?thesis
  proof (cases rule: cut_cases)
    case (missing n i x)
    note si = search_stack_inv [OF st1(2,3) missing(1,2,3)]
    have "key \<notin> fst ` set ?C" unfolding si(5) using missing(7,8) by auto
    with key show ?thesis by blast
  next
    case (found n i u)
    note si = search_stack_inv [OF st1(2,3) found(1,2) less_imp_le [OF found(3)]]
    have C1: "?C = posL t D st1 @ (key, u) # tl (posR t D st1)" using si(5) found(7) by simp
    have C2: "al_del key ?C = posL t D st1 @ tl (posR t D st1)"
      unfolding C1 by (rule al_del_cut [OF found(6,8)])
    let ?A = "take i (Children n)" and ?B = "drop (Suc i) (Children n)"
    have cs: "Children n = ?A @ Children n ! i # ?B" by (rule id_take_nth_drop [OF found(3)])
    have idx: "index st1 = int (length ?A)" using found(2,3) by simp
    have tl: "tl (posR t D st1) = cconts t (D - top st1) ?B @ ctxR t D st1 (top st1)"
      unfolding si(4) by (subst Cons_nth_drop_Suc [OF found(3), symmetric]) (simp add: si(7))
    have C3: "ctxL t D st1 (top st1) @ cconts t (D - top st1) (?A @ ?B) @ ctxR t D st1 (top st1) = al_del key ?C"
      unfolding C2 tl si(3) by simp
    obtain st2 where st2: "rewriteAtIndex t True None st1 = Inr st2" "stack_inv t D st2 (al_del key ?C)"
      by (rule remove_at [OF si(1,2) cs idx]) (simp only: C3)
    have "\<forall>p \<in> set (al_del key ?C). entry_small t p" using small by (simp add: al_del_def)
    then obtain n' st3 D' where st3: "commit t st2 = Inr (n', st3)" "tr_inv t D' st3 (al_del key ?C)" "D' \<le> D"
      using commit_ok [OF st2(2) clean_parts(4) [OF c(1)] _ ne] by blast
    have "Node_Delete t root key st = Inr (n', st3)"
      using st1(1) found(4) st2(1) st3(1) by (simp add: Node_Delete_def)
    with st3 show ?thesis by blast
  qed
qed

lemma Node_Delete_missing:
  assumes c: "clean t D root st" "top st = 0" and key: "key \<notin> fst ` set (contents t D root)"
  shows "Node_Delete t root key st = Inl (PanicMsg ''ibp.Delete: Key missing'')"
proof -
  obtain st1 where st1: "Node_search t root key st = Inr st1" "clean t D root st1" "cut_at t D st1 key"
    using Node_search_cut [OF c] by blast
  from st1(2,3) show ?thesis
  proof (cases rule: cut_cases)
    case (missing n i x)
    then show ?thesis using st1(1) by (cases x) (auto simp: Node_Delete_def)
  next
    case (found n i u)
    note si = search_stack_inv [OF st1(2,3) found(1,2) less_imp_le [OF found(3)]]
    have "?thesis \<or> key \<in> fst ` set (contents t D root)" unfolding si(5) by (subst found(7)) simp
    with key show ?thesis by blast
  qed
qed

end
