(* ===== verification/IbRange.thy ===== *)
theory IbRange
  imports IbMap
begin

text \<open>
  \<^verbatim>\<open>DeleteRange\<close>: the two searches find the last entry below the range and the first one
  above it; the two paths agree down to some node and part there. What lies between the
  paths is cut off below that node on both sides, and the rest of it is dropped in the node
  itself.
\<close>

section \<open>Trimming\<close>

lemma trimLeft_ok:
  assumes "stack_inv t D st C" "nodes st ! top st = Some n" "index st = int i" "i < length (Children n)"
    "u \<le> top st" "nodes st ! u = Some p" "indexes st ! u = int k"
  shows "\<exists>st' c' C' l b. trimLeft t u st = Inr st' \<and> top st' = u \<and> stack_inv t D st' C' \<and> same_below u st st' \<and>
    indexes st' = indexes st \<and>
    nodes st' ! u = Some (Node l (take k (Children p) @ c' # drop (Suc k) (Children p)) b) \<and>
    ccont t (D - u) c' @ cconts t (D - u) (drop (Suc k) (Children p)) @ ctxR t D st u =
      cconts t (D - top st) (drop i (Children n)) @ ctxR t D st (top st)"
  using assms
proof (induction "top st" arbitrary: st C n i rule: less_induct)
  case less
  note inv = less.prems(1) and n = less.prems(2) and i = less.prems(3,4)
  note low = stack_inv_lower [OF inv] and cc = stack_inv_cconts [OF inv n]
  have dr: "drop i (Children n) = Children n ! i # drop (Suc i) (Children n)"
    by (rule Cons_nth_drop_Suc [OF i(2), symmetric])
  show ?case
  proof (cases "top st = u")
    case True
    then have "p = n" "k = i" using less.prems(6,7) n i(1) by (simp_all add: index_def)
    moreover have "Node (Leafy n) (take i (Children n) @ Children n ! i # drop (Suc i) (Children n)) (blockId n) = n"
      using id_take_nth_drop [OF i(2)] by (cases n) simp
    moreover have "trimLeft t u st = Inr st" using True by (simp add: trimLeft.simps [of t u st])
    moreover have "nodes st ! u = Some n" using n True by simp
    moreover have "ccont t (D - u) (Children n ! i) @ cconts t (D - u) (drop (Suc i) (Children n)) @ ctxR t D st u =
        cconts t (D - top st) (drop i (Children n)) @ ctxR t D st (top st)"
      using dr True by simp
    ultimately show ?thesis using inv True by (metis same_below_refl)
  next
    case False
    then obtain j where j: "top st = Suc j" "u \<le> j" using less.prems(5) by (cases "top st") auto
    let ?R = "cconts t (D - top st) (drop i (Children n)) @ ctxR t D st (top st)"
    obtain q where q: "nodes st ! j = Some q" "0 \<le> indexes st ! j" "indexes st ! j < int (length (Children q))"
      by (rule path_ok_node [OF low(2), of j]) (use j in simp_all)
    have "\<exists>st3 n3. (if int i > 0 then bindE (node st) (\<lambda>n. bindE (slice_from (Children n) (int i)) (\<lambda>cs.
          rewriteNodeChildrenWithCopyOf t cs st)) else Inr st) = Inr st3 \<and>
        stack_inv t D st3 (ctxL t D st (top st) @ ?R) \<and> top st3 = top st \<and> indexes st3 = indexes st \<and>
        same_below (top st) st st3 \<and> nodes st3 ! top st = Some n3 \<and> Children n3 = drop i (Children n)"
    proof (cases "i = 0")
      case True
      then show ?thesis using inv cc(3) n by auto
    next
      case False
      have w: "\<forall>c \<in> set (drop i (Children n)). wfc t (D - top st) c" using cc(2) by (auto dest: in_set_dropD)
      have "C = ctxL t D st (top st) @ cconts t (D - top st) (take i (Children n)) @ ?R"
        using cc(3) cconts_take_drop [of t "D - top st" "Children n" i] by simp
      then have o: "ordered (ctxL t D st (top st) @ ?R)" using ordered_drop_mid low(4) by metis
      obtain st3 where "rewriteNodeChildren t (map Some (drop i (Children n))) st = Inr st3"
        "rewritten st (Node (Leafy n) (drop i (Children n)) None) st3" "stack_inv t D st3 (ctxL t D st (top st) @ ?R)"
        by (rule rewriteNodeChildren_inv [OF inv n w refl o])
      then show ?thesis
        using False n i(2) by (auto simp: node_def slice_from_def rewriteNodeChildrenWithCopyOf_eq rewritten_def)
    qed
    then obtain st3 n3 where st3: "(if int i > 0 then bindE (node st) (\<lambda>n. bindE (slice_from (Children n) (int i)) (\<lambda>cs.
          rewriteNodeChildrenWithCopyOf t cs st)) else Inr st) = Inr st3"
      "stack_inv t D st3 (ctxL t D st (top st) @ ?R)" "top st3 = top st" "indexes st3 = indexes st"
      "same_below (top st) st st3" "nodes st3 ! top st = Some n3" "Children n3 = drop i (Children n)" by blast
    have ne: "Children n3 \<noteq> []" using st3(7) i(2) by simp
    have t3: "top st3 = Suc j" and n3: "nodes st3 ! top st3 = Some n3" and q3: "nodes st3 ! j = Some q"
      using st3 j q(1) by (simp_all add: same_below_def)
    obtain st4 where st4: "pop t st3 = Inr st4" "stack_inv t D st4 (ctxL t D st (top st) @ ?R)" "top st4 = j"
      "indexes st4 = indexes st3" "same_below j st3 st4"
      "nodes st4 ! j = Some (Node False (take (ix st3 j) (Children q) @ popped t n3 @ drop (Suc (ix st3 j)) (Children q)) None)"
      by (rule pop_inv [OF st3(2) t3 n3 q3])
    let ?k = "ix st j"
    let ?q = "take ?k (Children q) @ mkchild t n3 # drop (Suc ?k) (Children q)"
    have n4: "nodes st4 ! top st4 = Some (Node False ?q None)"
      using st4(3,6) st3(4) popped_nonempty [OF ne, of t] by simp
    have idx4: "index st4 = int ?k" using st4(3,4) st3(4) q(2) by (simp add: index_def)
    have "same_below j st st3" by (rule same_below_mono [OF st3(5)]) (use j(1) in simp)
    then have same4: "same_below j st st4" using st4(5) by (rule same_below_trans)
    have lk: "?k < length (Children q)" using q by simp
    have Dj: "D - j = Suc (D - top st)" using j(1) low(5) by simp
    have cq: "cconts t (D - j) (drop ?k ?q) @ ctxR t D st4 j = ?R"
      using lk st3(7) j(1) q(1) ctxR_same [OF same4, of t D] ccont_resolve [of t "mkchild t n3" n3 "D - top st"]
      by (simp add: Dj)
    have step: "trimLeft t u st = trimLeft t u st4"
      using st3(1) st4(1) False less.prems(5) i(1) by (simp add: trimLeft.simps [of t u st])
    show ?thesis
    proof (cases "j = u")
      case True
      have "trimLeft t u st4 = Inr st4" using True st4(3) by (simp add: trimLeft.simps [of t u st4])
      then have f: "trimLeft t u st = Inr st4" "top st4 = u" "same_below u st st4" "indexes st4 = indexes st"
        using step st4(3,4) st3(4) same4 True by simp_all
      have qp: "q = p" "?k = k" using True q less.prems(6,7) by simp_all
      have "ccont t (D - u) (mkchild t n3) @ cconts t (D - u) (drop (Suc k) (Children p)) @ ctxR t D st u = ?R"
        using cq True lk ctxR_same [OF same4, of t D] qp by simp
      moreover have "nodes st4 ! u = Some (Node False (take k (Children p) @ mkchild t n3 # drop (Suc k) (Children p)) None)"
        using n4 st4(3) True qp by simp
      ultimately show ?thesis using f st4(2) by blast
    next
      case False
      then have uj: "u < j" using j(2) by simp
      have pu: "nodes st4 ! u = Some p" "indexes st4 ! u = int k"
        using same4 uj less.prems(6,7) by (simp_all add: same_below_def)
      have lt: "top st4 < top st" and ut: "u \<le> top st4" using st4(3) j uj by simp_all
      have lq: "?k < length (Children (Node False ?q None))" using lk by simp
      obtain st' c' C' l b where r: "trimLeft t u st4 = Inr st'" "top st' = u" "stack_inv t D st' C'" "same_below u st4 st'"
        "indexes st' = indexes st4"
        "nodes st' ! u = Some (Node l (take k (Children p) @ c' # drop (Suc k) (Children p)) b)"
        "ccont t (D - u) c' @ cconts t (D - u) (drop (Suc k) (Children p)) @ ctxR t D st4 u =
          cconts t (D - top st4) (drop ?k (Children (Node False ?q None))) @ ctxR t D st4 (top st4)"
        using less.hyps [OF lt st4(2) n4 idx4 lq ut pu] by blast
      have su: "same_below u st st4" using same_below_mono [OF same4] uj by simp
      have "ccont t (D - u) c' @ cconts t (D - u) (drop (Suc k) (Children p)) @ ctxR t D st u = ?R"
        using r(7) cq st4(3) ctxR_same [OF su, of t D] by simp
      then show ?thesis
        using step r(1-3,5,6) same_below_trans [OF su r(4)] st4(4) st3(4) by auto
    qed
  qed
qed


lemma trimRight_ok:
  assumes "stack_inv t D st C" "nodes st ! top st = Some n" "index st = int i" "i < length (Children n)"
    "u \<le> top st" "nodes st ! u = Some p" "indexes st ! u = int k"
  shows "\<exists>st' c'. trimRight t u st = Inr st' \<and> top st' = u \<and> indexes st' = indexes st \<and>
    child st' = Inr (Some c') \<and> wfc t (D - u) c' \<and>
    ctxL t D st u @ cconts t (D - u) (take k (Children p)) @ ccont t (D - u) c' =
      ctxL t D st (top st) @ cconts t (D - top st) (take (Suc i) (Children n))"
  using assms
proof (induction "top st" arbitrary: st C n i p rule: less_induct)
  case less
  note inv = less.prems(1) and n = less.prems(2) and i = less.prems(3,4)
  note low = stack_inv_lower [OF inv] and cc = stack_inv_cconts [OF inv n]
  have tk: "take (Suc i) (Children n) = take i (Children n) @ [Children n ! i]"
    by (rule take_Suc_conv_app_nth [OF i(2)])
  show ?case
  proof (cases "top st = u")
    case True
    then have "p = n" "k = i" using less.prems(6,7) n i(1) by (simp_all add: index_def)
    moreover have "trimRight t u st = Inr st" using True by (simp add: trimRight.simps [of t u st])
    moreover have "wfc t (D - u) (Children n ! i)" using cc(2) i(2) True by simp
    ultimately show ?thesis using True tk child_in [OF n i] by simp
  next
    case False
    then obtain j where j: "top st = Suc j" "u \<le> j" using less.prems(5) by (cases "top st") auto
    let ?cs = "take (Suc i) (Children n)"
    let ?L = "ctxL t D st (top st) @ cconts t (D - top st) ?cs"
    obtain q where q: "nodes st ! j = Some q" "0 \<le> indexes st ! j" "indexes st ! j < int (length (Children q))"
      by (rule path_ok_node [OF low(2), of j]) (use j in simp_all)
    have "\<exists>st3 n3. (if int i < int (length (Children n)) - 1 then bindE (slice_upto (Children n) (int i + 1)) (\<lambda>cs.
          rewriteNodeChildrenWithCopyOf t cs st) else Inr st) = Inr st3 \<and>
        stack_inv t D st3 (?L @ ctxR t D st (top st)) \<and> top st3 = top st \<and> indexes st3 = indexes st \<and>
        same_below (top st) st st3 \<and> nodes st3 ! top st = Some n3 \<and> Children n3 = ?cs"
    proof (cases "int i < int (length (Children n)) - 1")
      case False
      then have "?cs = Children n" using i(2) by simp
      then show ?thesis using False inv cc(3) n by auto
    next
      case True
      have w: "\<forall>c \<in> set ?cs. wfc t (D - top st) c" using cc(2) by (auto dest: in_set_takeD)
      have "C = ?L @ cconts t (D - top st) (drop (Suc i) (Children n)) @ ctxR t D st (top st)"
        using cc(3) cconts_take_drop [of t "D - top st" "Children n" "Suc i"] by simp
      then have o: "ordered (ctxL t D st (top st) @ cconts t (D - top st) ?cs @ ctxR t D st (top st))"
        using ordered_drop_mid [of ?L] low(4) by simp
      have sl: "slice_upto (Children n) (int i + 1) = Inr ?cs"
        using i(2) by (simp add: slice_upto_def nat_add_distrib)
      obtain st3 where "rewriteNodeChildren t (map Some ?cs) st = Inr st3"
        "rewritten st (Node (Leafy n) ?cs None) st3"
        "stack_inv t D st3 (ctxL t D st (top st) @ cconts t (D - top st) ?cs @ ctxR t D st (top st))"
        by (rule rewriteNodeChildren_inv [OF inv n w refl o])
      then show ?thesis
        using True sl by (auto simp: rewriteNodeChildrenWithCopyOf_eq rewritten_def)
    qed
    then obtain st3 n3 where st3: "(if int i < int (length (Children n)) - 1 then bindE (slice_upto (Children n) (int i + 1)) (\<lambda>cs.
          rewriteNodeChildrenWithCopyOf t cs st) else Inr st) = Inr st3"
      "stack_inv t D st3 (?L @ ctxR t D st (top st))" "top st3 = top st" "indexes st3 = indexes st"
      "same_below (top st) st st3" "nodes st3 ! top st = Some n3" "Children n3 = ?cs" by blast
    have ne: "Children n3 \<noteq> []" using st3(7) tk by simp
    have t3: "top st3 = Suc j" and n3: "nodes st3 ! top st3 = Some n3" and q3: "nodes st3 ! j = Some q"
      using st3 j q(1) by (simp_all add: same_below_def)
    obtain st4 where st4: "pop t st3 = Inr st4" "stack_inv t D st4 (?L @ ctxR t D st (top st))" "top st4 = j"
      "indexes st4 = indexes st3" "same_below j st3 st4"
      "nodes st4 ! j = Some (Node False (take (ix st3 j) (Children q) @ popped t n3 @ drop (Suc (ix st3 j)) (Children q)) None)"
      by (rule pop_inv [OF st3(2) t3 n3 q3])
    let ?k = "ix st j"
    let ?q = "take ?k (Children q) @ mkchild t n3 # drop (Suc ?k) (Children q)"
    have n4: "nodes st4 ! top st4 = Some (Node False ?q None)"
      using st4(3,6) st3(4) popped_nonempty [OF ne, of t] by simp
    have idx4: "index st4 = int ?k" using st4(3,4) st3(4) q(2) by (simp add: index_def)
    have "same_below j st st3" by (rule same_below_mono [OF st3(5)]) (use j(1) in simp)
    then have same4: "same_below j st st4" using st4(5) by (rule same_below_trans)
    have lk: "?k < length (Children q)" using q by simp
    have Dj: "D - j = Suc (D - top st)" using j(1) low(5) by simp
    have cq: "ctxL t D st4 j @ cconts t (D - j) (take (Suc ?k) ?q) = ?L"
      using lk st3(7) j(1) q(1) ctxL_same [OF same4, of t D] ccont_resolve [of t "mkchild t n3" n3 "D - top st"]
      by (simp add: Dj)
    have step: "trimRight t u st = trimRight t u st4"
      using st3(1) st4(1) False less.prems(5) i(1) n by (simp add: trimRight.simps [of t u st] node_def)
    have lt: "top st4 < top st" and ut: "u \<le> top st4" using st4(3) j by simp_all
    have lq: "?k < length (Children (Node False ?q None))" using lk by simp
    obtain p4 where p4: "nodes st4 ! u = Some p4" "take k (Children p4) = take k (Children p)"
      "indexes st4 ! u = int k" "same_below u st st4"
    proof (cases "j = u")
      case True
      then show ?thesis
        using that [of "Node False ?q None"] n4 st4(3,4) st3(4) q(1) less.prems(6,7) same4 lk by simp
    next
      case False
      then show ?thesis
        using that [of p] same4 j(2) less.prems(6,7) same_below_mono [OF same4, of u] by (simp add: same_below_def)
    qed
    obtain st' c' where r: "trimRight t u st4 = Inr st'" "top st' = u" "indexes st' = indexes st4"
      "child st' = Inr (Some c')" "wfc t (D - u) c'"
      "ctxL t D st4 u @ cconts t (D - u) (take k (Children p4)) @ ccont t (D - u) c' =
        ctxL t D st4 (top st4) @ cconts t (D - top st4) (take (Suc ?k) (Children (Node False ?q None)))"
      using less.hyps [OF lt st4(2) n4 idx4 lq ut p4(1,3)] by blast
    have "ctxL t D st u @ cconts t (D - u) (take k (Children p)) @ ccont t (D - u) c' = ?L"
      using r(6) cq st4(3) ctxL_same [OF p4(4), of t D] p4(2) by simp
    then show ?thesis
      using step r(1-5) st4(4) st3(4) by auto
  qed
qed


section \<open>Where the two paths part\<close>

lemma uniqueDepth_spec:
  assumes "i \<le> top st" "\<forall>j < i. indexes st ! j = indexes st2 ! j"
  shows "uniqueDepth st st2 i \<le> top st \<and> (\<forall>j < uniqueDepth st st2 i. indexes st ! j = indexes st2 ! j) \<and>
    (uniqueDepth st st2 i < top st \<longrightarrow>
       indexes st ! uniqueDepth st st2 i \<noteq> indexes st2 ! uniqueDepth st st2 i)"
  using assms
proof (induction st st2 i rule: uniqueDepth.induct)
  case (1 st st2 i)
  show ?case
  proof (cases "i < top st \<and> indexes st ! i = indexes st2 ! i")
    case True
    then have "\<forall>j < Suc i. indexes st ! j = indexes st2 ! j" using "1.prems"(2) by (auto simp: less_Suc_eq)
    with "1.IH" [OF True] True show ?thesis by (simp add: uniqueDepth.simps [of st st2 i])
  next
    case False
    then have "uniqueDepth st st2 i = i" by (subst uniqueDepth.simps) auto
    with False "1.prems" show ?thesis by auto
  qed
qed

lemma clean_same_path:
  assumes a: "clean t D root a" and b: "clean t D root b" and u: "u \<le> top a" "u \<le> top b"
    and eq: "\<forall>j < u. indexes a ! j = indexes b ! j"
  shows "\<forall>j \<le> u. nodes b ! j = nodes a ! j" "same_below u a b"
proof -
  have n: "nodes b ! j = nodes a ! j" if "j \<le> u" for j
    using that
  proof (induction j)
    case 0
    then show ?case using clean_parts(2) [OF a] clean_parts(2) [OF b] by simp
  next
    case (Suc j)
    obtain n where na: "nodes a ! j = Some n" using clean_level_Some [OF a, of j] Suc.prems u by auto
    then have nb: "nodes b ! j = Some n" using Suc by simp
    have "j < top a" "j < top b" using Suc.prems u by simp_all
    then show ?case
      using clean_step_down(3) [OF a _ na] clean_step_down(3) [OF b _ nb] eq Suc.prems by simp
  qed
  then show "\<forall>j \<le> u. nodes b ! j = nodes a ! j" by blast
  then show "same_below u a b" using eq by (simp add: same_below_def)
qed

text \<open>The position of a stack seen from a level of its path.\<close>

lemma pos_from_level:
  assumes c: "clean t D root st" and i: "nodes st ! top st = Some n" "index st = int i" "i < length (Children n)"
    and u: "u \<le> top st" and p: "nodes st ! u = Some p"
  shows "\<exists>X Y. posL t D st = ctxL t D st u @ X \<and> posR t D st = Y @ ctxR t D st u \<and>
    X @ Y = cconts t (D - u) (Children p) \<and> Y \<noteq> []"
  using u p
proof (induction "top st - u" arbitrary: u p)
  case 0
  then have "u = top st" "p = n" using i(1) by simp_all
  moreover have "cconts t (D - top st) (drop i (Children n)) \<noteq> []"
  proof -
    have w: "\<forall>c \<in> set (Children n). wfc t (D - top st) c" by (rule clean_node [OF c]) (use i(1) in simp)
    have "drop i (Children n) \<noteq> []" using i(3) by simp
    then show ?thesis using w by (subst cconts_empty) (auto dest: in_set_dropD)
  qed
  moreover have "cconts t (D - top st) (take i (Children n)) @ cconts t (D - top st) (drop i (Children n)) =
      cconts t (D - top st) (Children n)" by (rule cconts_take_drop [symmetric])
  ultimately show ?case using i by (auto simp: posL_def posR_def)
next
  case (Suc d)
  then have lt: "u < top st" by simp
  obtain m where m: "nodes st ! Suc u = Some m" using clean_level_Some [OF c, of "Suc u"] lt by auto
  note sd = clean_step_down [OF c lt Suc.prems(2)]
  then have len: "ix st u < length (Children p)" by linarith
  have e: "D - u = Suc (D - Suc u)" using lt clean_parts(6) [OF c] by simp
  have cm: "ccont t (D - u) (Children p ! ix st u) = cconts t (D - Suc u) (Children m)"
    unfolding e by (rule ccont_resolve) (use sd(3) m in simp)
  have d: "d = top st - Suc u" using Suc.hyps(2) by simp
  obtain X Y where XY: "posL t D st = ctxL t D st (Suc u) @ X" "posR t D st = Y @ ctxR t D st (Suc u)"
    "X @ Y = cconts t (D - Suc u) (Children m)" "Y \<noteq> []"
    using Suc.hyps(1) [OF d Suc_leI [OF lt] m] by blast
  have "cconts t (D - u) (Children p) = (cconts t (D - u) (take (ix st u) (Children p)) @ X) @
      (Y @ cconts t (D - u) (drop (Suc (ix st u)) (Children p)))"
    using cconts_split [OF len, of t "D - u"] cm XY(3) by simp
  then show ?case using XY Suc.prems(2) by auto
qed

text \<open>The path to the earlier of two entries parts to the left.\<close>

lemma paths_part_left:
  assumes a: "clean t D root a" "top a = D" "nodes a ! D = Some na" "index a = int ia" "ia < length (Children na)"
    and b: "clean t D root b" "top b = D" "nodes b ! D = Some nb" "index b = int ib" "ib < length (Children nb)"
    and less: "length (posL t D a) < length (posL t D b)"
    and u: "u \<le> D" "\<forall>j < u. indexes a ! j = indexes b ! j" "u < D \<longrightarrow> indexes a ! u \<noteq> indexes b ! u"
  obtains p ka kb where "nodes a ! u = Some p" "nodes b ! u = Some p" "indexes a ! u = int ka" "indexes b ! u = int kb"
    "ka < kb" "kb < length (Children p)" "same_below u a b"
proof -
  have same: "\<forall>j \<le> u. nodes b ! j = nodes a ! j" "same_below u a b"
    by (rule clean_same_path [OF a(1) b(1)]; use u a(2) b(2) in simp)+
  obtain p where p: "nodes a ! u = Some p" using clean_level_Some [OF a(1), of u] a(2) u(1) by auto
  then have pb: "nodes b ! u = Some p" using same(1) by simp
  have idx: "\<exists>k. indexes s ! u = int k \<and> k < length (Children p) \<and>
      length (ctxL t D s u @ cconts t (D - u) (take k (Children p))) \<le> length (posL t D s) \<and>
      length (posL t D s) < length (ctxL t D s u @ cconts t (D - u) (take (Suc k) (Children p)))"
    if s: "clean t D root s" "top s = D" "nodes s ! D = Some n" "index s = int i" "i < length (Children n)" "nodes s ! u = Some p"
    for s n i
  proof (cases "u = D")
    case True
    then have "n = p" "indexes s ! u = int i" using s by (simp_all add: index_def)
    moreover have "posL t D s = ctxL t D s u @ map entry (take i (Children p))"
      using s True by (simp add: posL_def)
    ultimately show ?thesis using s(5) True by simp
  next
    case False
    then have lt: "u < top s" using u(1) s(2) by simp
    note sd = clean_step_down [OF s(1) lt s(6)]
    then have len: "ix s u < length (Children p)" by linarith
    obtain m where m: "nodes s ! Suc u = Some m" using clean_level_Some [OF s(1), of "Suc u"] lt by auto
    have e: "D - u = Suc (D - Suc u)" using lt s(2) by simp
    have cm: "ccont t (D - u) (Children p ! ix s u) = cconts t (D - Suc u) (Children m)"
      unfolding e by (rule ccont_resolve) (use sd(3) m in simp)
    have n': "nodes s ! top s = Some n" using s(2,3) by simp
    obtain X Y where XY: "posL t D s = ctxL t D s (Suc u) @ X"
      "X @ Y = cconts t (D - Suc u) (Children m)" "Y \<noteq> []"
      using pos_from_level [OF s(1) n' s(4,5) _ m] lt by auto
    have "length X < length (cconts t (D - Suc u) (Children m))" using XY(2,3) by (metis length_append length_greater_0_conv less_add_same_cancel1)
    moreover have "take (Suc (ix s u)) (Children p) = take (ix s u) (Children p) @ [Children p ! ix s u]"
      by (rule take_Suc_conv_app_nth [OF len])
    ultimately show ?thesis using XY(1) s(6) len sd(1) cm by (intro exI [of _ "ix s u"]) simp
  qed
  obtain ka where ka: "indexes a ! u = int ka" "ka < length (Children p)"
    "length (ctxL t D a u @ cconts t (D - u) (take ka (Children p))) \<le> length (posL t D a)"
    using idx [OF a p] by blast
  obtain kb where kb: "indexes b ! u = int kb" "kb < length (Children p)"
    "length (posL t D b) < length (ctxL t D b u @ cconts t (D - u) (take (Suc kb) (Children p)))"
    using idx [OF b pb] by blast
  have "ka < kb"
  proof (rule ccontr)
    assume nl: "\<not> ka < kb"
    show False
    proof (cases "ka = kb")
      case True
      then have "u = D" using u(1,3) ka(1) kb(1) by (cases "u = D") auto
      then have "na = nb" "ia = ib" using a b p pb ka kb True by (simp_all add: index_def)
      then have "posL t D a = posL t D b"
        using a b ctxL_same [OF same(2), of t D] \<open>u = D\<close> by (simp add: posL_def)
      then show False using less by simp
    next
      case False
      then have "Suc kb \<le> ka" using nl by simp
      then have "take ka (Children p) = take (Suc kb) (Children p) @ take (ka - Suc kb) (drop (Suc kb) (Children p))"
        by (metis le_add_diff_inverse take_add)
      then have "length (cconts t (D - u) (take (Suc kb) (Children p))) \<le> length (cconts t (D - u) (take ka (Children p)))"
        by simp
      then show False using ka(3) kb(3) less ctxL_same [OF same(2), of t D] by simp
    qed
  qed
  with that p pb ka kb same(2) show ?thesis by blast
qed


section \<open>The new children of the node where the paths part\<close>

lemma range_slices:
  fixes cl :: "ndchild list"
  assumes "k1 < k2" "k2 \<le> length cl"
  shows "bindE (make_nil (int (length cl) - (int k2 - int k1) + 1)) (\<lambda>ncl0.
       bindE (slice_upto cl (int k1)) (\<lambda>s.
       bindE (copy_at ncl0 0 (map Some s)) (\<lambda>ncl1.
       bindE (Inr (Some c)) (\<lambda>c.
       bindE (elem_set ncl1 (int k1) c) (\<lambda>ncl2.
       if int (length cl) > int k2
       then bindE (slice_from cl (int k2)) (\<lambda>s2. copy_at ncl2 (int k1 + 1) (map Some s2))
       else Inr ncl2)))))
    = Inr (map Some (take k1 cl @ c # drop k2 cl))"
proof -
  let ?pre = "map Some (take k1 cl)" and ?m = "length cl - k2"
  define N where "N = Suc (k1 + ?m)"
  have mk: "make_nil (int (length cl) - (int k2 - int k1) + 1) = Inr (replicate N None)"
  proof -
    have "int (length cl) - (int k2 - int k1) + 1 = int N" using assms by (simp add: N_def of_nat_diff)
    then show ?thesis by (simp add: make_nil_def)
  qed
  have sl: "slice_upto cl (int k1) = Inr (take k1 cl)" "slice_from cl (int k2) = Inr (drop k2 cl)"
    using assms by (simp_all add: slice_upto_def slice_from_def)
  have "N - k1 = Suc ?m" by (simp add: N_def)
  then have "copy_at (replicate N None) 0 ?pre = Inr (?pre @ replicate (Suc ?m) None)"
    using assms by (simp add: copy_at_def N_def del: replicate.simps)
  then have cp: "copy_at (replicate N None) 0 ?pre = Inr (?pre @ None # replicate ?m None)" by simp
  have es: "elem_set (?pre @ None # replicate ?m None) (int k1) (Some c) = Inr (?pre @ Some c # replicate ?m None)"
    using assms by (intro elem_set_middle) simp
  have "copy_at ((?pre @ [Some c]) @ replicate ?m None) (int k1 + 1) (map Some (drop k2 cl)) =
      Inr ((?pre @ [Some c]) @ map Some (drop k2 cl))"
    using assms by (intro copy_at_tail) simp_all
  then have ct: "copy_at (?pre @ Some c # replicate ?m None) (int k1 + 1) (map Some (drop k2 cl)) =
      Inr (?pre @ Some c # map Some (drop k2 cl))" by simp
  show ?thesis
    by (simp add: mk sl cp es ct)
qed

lemma range_slices_start:
  fixes cl :: "ndchild list"
  assumes "k2 \<le> length cl"
  shows "bindE (make_nil (int (length cl) - int k2)) (\<lambda>ncl.
       bindE (slice_from cl (int k2)) (\<lambda>s. copy_at ncl 0 (map Some s))) = Inr (map Some (drop k2 cl))"
  using assms by (simp add: make_nil_def slice_from_def copy_at_def nat_diff_distrib)

definition range_tail :: "tree \<Rightarrow> stack \<Rightarrow> stack \<Rightarrow> (node \<times> stack) res" where
  "range_tail t sta st2a =
     bindE (node st2a) (\<lambda>n2.
       let cl = Children n2;
           idx1 = indexes sta ! top sta;
           idx2 = indexes st2a ! top sta
       in bindE
            (if idx1 < 0
             then bindE (make_nil (int (length cl) - idx2)) (\<lambda>ncl.
                  bindE (slice_from cl idx2) (\<lambda>s. copy_at ncl 0 (map Some s)))
             else bindE (make_nil (int (length cl) - (idx2 - idx1) + 1)) (\<lambda>ncl0.
                  bindE (slice_upto cl idx1) (\<lambda>s.
                  bindE (copy_at ncl0 0 (map Some s)) (\<lambda>ncl1.
                  bindE (child sta) (\<lambda>c.
                  bindE (elem_set ncl1 idx1 c) (\<lambda>ncl2.
                  if int (length cl) > idx2
                  then bindE (slice_from cl idx2) (\<lambda>s2.
                       copy_at ncl2 (idx1 + 1) (map Some s2))
                  else Inr ncl2)))))) (\<lambda>ncl.
          bindE (rewriteNodeChildren t ncl st2a) (\<lambda>st3. commit t st3)))"

lemma Node_DeleteRange_unfold:
  assumes "\<not> key1 > key2" "searchLesser t self key1 (st0\<lparr>top := 0\<rparr>) = Inr st"
    "searchGreater t self key2 (st0\<lparr>top := 0\<rparr>) = Inr st2" "indexes st \<noteq> indexes st2"
    "trimLeft t (uniqueDepth st st2 0) st2 = Inr st2a" "trimRight t (uniqueDepth st st2 0) st = Inr sta"
  shows "Node_DeleteRange t self key1 key2 st0 = range_tail t sta st2a"
proof -
  have ne: "st \<noteq> st2" using assms(4) by auto
  show ?thesis
    using assms ne unfolding Node_DeleteRange_def range_tail_def by (simp add: Let_def)
qed

lemma range_tail_mid:
  assumes "nodes st2a ! top st2a = Some n" "indexes sta ! top sta = int k1" "indexes st2a ! top sta = int k2"
    "child sta = Inr (Some c)" "k1 < k2" "k2 \<le> length (Children n)"
  shows "range_tail t sta st2a =
    bindE (rewriteNodeChildren t (map Some (take k1 (Children n) @ c # drop k2 (Children n))) st2a) (\<lambda>st3. commit t st3)"
proof -
  have "\<not> int k1 < 0" by simp
  then show ?thesis
    unfolding range_tail_def node_def assms(1-4) deref_simps bindE_Inr Let_def
    using range_slices [OF assms(5,6), of c] by (simp only: if_False bindE_Inr)
qed

lemma range_tail_start:
  assumes "nodes st2a ! top st2a = Some n" "indexes sta ! top sta = -1" "indexes st2a ! top sta = int k2"
    "k2 \<le> length (Children n)"
  shows "range_tail t sta st2a =
    bindE (rewriteNodeChildren t (map Some (drop k2 (Children n))) st2a) (\<lambda>st3. commit t st3)"
proof -
  have "(-1 :: int) < 0" by simp
  then show ?thesis
    unfolding range_tail_def node_def assms(1-3) deref_simps bindE_Inr Let_def
    using range_slices_start [OF assms(4)] by (simp only: if_True bindE_Inr)
qed

text \<open>The common end of all cases: the new children are known and the result is committed.\<close>

lemma range_finish:
  assumes inv: "stack_inv t D st2a C" and n: "nodes st2a ! top st2a = Some n"
    and w: "\<forall>c \<in> set cs. wfc t (D - top st2a) c"
    and C': "C' = ctxL t D st2a (top st2a) @ cconts t (D - top st2a) cs @ ctxR t D st2a (top st2a)" "ordered C'"
    and D: "D < maximumTreeDepth" "\<forall>p \<in> set C'. entry_small t p" "0 < D \<longrightarrow> C' \<noteq> []"
    and tail: "range_tail t sta st2a = bindE (rewriteNodeChildren t (map Some cs) st2a) (\<lambda>st3. commit t st3)"
  shows "\<exists>n st' D'. range_tail t sta st2a = Inr (n, st') \<and> tr_inv t D' st' C' \<and> D' \<le> D"
proof -
  obtain st3 where "rewriteNodeChildren t (map Some cs) st2a = Inr st3" "stack_inv t D st3 C'"
    by (rule rewriteNodeChildren_inv [OF inv n w C'])
  with commit_ok [OF _ D, of st3] tail show ?thesis by auto
qed


text \<open>What has to be known after the two searches for the rest of \<^verbatim>\<open>DeleteRange\<close> to produce
  the entries \<open>C'\<close>.\<close>

definition range_ready :: "tree \<Rightarrow> nat \<Rightarrow> stack \<Rightarrow> stack \<Rightarrow> kv list \<Rightarrow> bool" where
  "range_ready t D a b C' \<longleftrightarrow>
     indexes a \<noteq> indexes b \<and>
     (\<exists>sta st2a C n cs. trimLeft t (uniqueDepth a b 0) b = Inr st2a \<and> trimRight t (uniqueDepth a b 0) a = Inr sta \<and>
        stack_inv t D st2a C \<and> nodes st2a ! top st2a = Some n \<and> (\<forall>c \<in> set cs. wfc t (D - top st2a) c) \<and>
        C' = ctxL t D st2a (top st2a) @ cconts t (D - top st2a) cs @ ctxR t D st2a (top st2a) \<and>
        range_tail t sta st2a = bindE (rewriteNodeChildren t (map Some cs) st2a) (\<lambda>st3. commit t st3))"

lemma indexes_differ: "indexes a ! u \<noteq> indexes b ! u \<Longrightarrow> indexes a \<noteq> indexes b"
  by auto

text \<open>A stack at an entry of a leaf.\<close>

definition at_entry :: "tree \<Rightarrow> nat \<Rightarrow> node \<Rightarrow> stack \<Rightarrow> node \<Rightarrow> nat \<Rightarrow> bool" where
  "at_entry t D root st n i \<longleftrightarrow>
     clean t D root st \<and> top st = D \<and> nodes st ! D = Some n \<and> index st = int i \<and> i < length (Children n)"

lemma at_entry_first_index:
  assumes "at_entry t D root st n i"
  obtains k where "indexes st ! 0 = int k" "k < length (Children root)"
proof (cases "D = 0")
  case True
  then show ?thesis using assms that [of i] clean_parts(2) [of t D root st] by (auto simp: at_entry_def index_def)
next
  case False
  then have "0 < top st" "clean t D root st" using assms by (auto simp: at_entry_def)
  with clean_step_down(1,2) [of t D root st 0 root] clean_parts(2) [of t D root st] that [of "ix st 0"] show ?thesis
    by auto
qed

lemma range_both:
  assumes a: "at_entry t D root a na ia" and b: "at_entry t D root b nb ib"
    and less: "length (posL t D a) < length (posL t D b)"
  shows "range_ready t D a b ((ctxL t D a D @ cconts t 0 (take (Suc ia) (Children na))) @
    cconts t 0 (drop ib (Children nb)) @ ctxR t D b D)"
proof -
  have a': "clean t D root a" "top a = D" "nodes a ! D = Some na" "index a = int ia" "ia < length (Children na)"
    and b': "clean t D root b" "top b = D" "nodes b ! D = Some nb" "index b = int ib" "ib < length (Children nb)"
    using a b by (auto simp: at_entry_def)
  define u where "u = uniqueDepth a b 0"
  have u: "u \<le> D" "\<forall>j < u. indexes a ! j = indexes b ! j" "u < D \<longrightarrow> indexes a ! u \<noteq> indexes b ! u"
    using uniqueDepth_spec [of 0 a b] a'(2) by (simp_all add: u_def)
  obtain p ka kb where p: "nodes a ! u = Some p" "nodes b ! u = Some p" "indexes a ! u = int ka" "indexes b ! u = int kb"
    "ka < kb" "kb < length (Children p)" "same_below u a b"
    by (rule paths_part_left [OF a' b' less u])
  have na: "nodes a ! top a = Some na" "u \<le> top a" and nb: "nodes b ! top b = Some nb" "u \<le> top b"
    using a'(2,3) b'(2,3) u(1) by simp_all
  obtain st2a c2 C l bi where tl: "trimLeft t u b = Inr st2a" "top st2a = u" "stack_inv t D st2a C" "same_below u b st2a"
    "indexes st2a = indexes b" "nodes st2a ! u = Some (Node l (take kb (Children p) @ c2 # drop (Suc kb) (Children p)) bi)"
    "ccont t (D - u) c2 @ cconts t (D - u) (drop (Suc kb) (Children p)) @ ctxR t D b u =
      cconts t (D - top b) (drop ib (Children nb)) @ ctxR t D b (top b)"
    using trimLeft_ok [OF clean_inv [OF b'(1)] nb(1) b'(4,5) nb(2) p(2,4)] by blast
  obtain sta c1 where tr: "trimRight t u a = Inr sta" "top sta = u" "indexes sta = indexes a" "child sta = Inr (Some c1)"
    "wfc t (D - u) c1" "ctxL t D a u @ cconts t (D - u) (take ka (Children p)) @ ccont t (D - u) c1 =
      ctxL t D a (top a) @ cconts t (D - top a) (take (Suc ia) (Children na))"
    using trimRight_ok [OF clean_inv [OF a'(1)] na(1) a'(4,5) na(2) p(1,3)] by blast
  let ?cl = "take kb (Children p) @ c2 # drop (Suc kb) (Children p)"
  let ?cs = "take ka (Children p) @ c1 # c2 # drop (Suc kb) (Children p)"
  have n2: "nodes st2a ! top st2a = Some (Node l ?cl bi)" using tl(2,6) by simp
  have w2: "\<forall>c \<in> set ?cl. wfc t (D - u) c" using stack_inv_cconts(2) [OF tl(3) n2] tl(2) by simp
  have e: "take ka ?cl = take ka (Children p)" "drop kb ?cl = c2 # drop (Suc kb) (Children p)"
    using p(5,6) by (simp_all add: min_def)
  have "set (take ka (Children p)) \<subseteq> set (take kb (Children p))" using p(5) by (simp add: set_take_subset_set_take)
  then have w: "\<forall>c \<in> set ?cs. wfc t (D - top st2a) c" using w2 tr(5) tl(2) by auto
  have kl: "kb \<le> length ?cl" using p(6) by simp
  have "range_tail t sta st2a = bindE (rewriteNodeChildren t (map Some ?cs) st2a) (\<lambda>st3. commit t st3)"
  proof -
    have i: "indexes sta ! top sta = int ka" "indexes st2a ! top sta = int kb" using tr(2,3) tl(5) p(3,4) by simp_all
    from range_tail_mid [OF n2 i tr(4) p(5), of t] kl show ?thesis by (simp only: node.sel e)
  qed
  moreover have "(ctxL t D a D @ cconts t 0 (take (Suc ia) (Children na))) @ cconts t 0 (drop ib (Children nb)) @ ctxR t D b D =
      ctxL t D st2a (top st2a) @ cconts t (D - top st2a) ?cs @ ctxR t D st2a (top st2a)"
    using tl(2,7) tr(6) a'(2) b'(2) ctxL_same [OF same_below_trans [OF p(7) tl(4)], of t D] ctxR_same [OF tl(4), of t D] by simp
  moreover have "indexes a \<noteq> indexes b" by (rule indexes_differ [of a u]) (use p(3,4,5) in simp)
  ultimately show ?thesis
    unfolding range_ready_def u_def [symmetric] using tl(1,3) tr(1) n2 w by blast
qed

lemma range_to_end:
  assumes a: "at_entry t D root a na ia" and b: "clean t D root b" "top b = 0" "index b = int (length (Children root))"
  shows "range_ready t D a b (ctxL t D a D @ cconts t 0 (take (Suc ia) (Children na)))"
proof -
  have a': "clean t D root a" "top a = D" "nodes a ! D = Some na" "index a = int ia" "ia < length (Children na)"
    using a by (auto simp: at_entry_def)
  obtain k where k: "indexes a ! 0 = int k" "k < length (Children root)" by (rule at_entry_first_index [OF a])
  have b0: "indexes b ! 0 = int (length (Children root))" using b(2,3) by (simp add: index_def)
  have u: "uniqueDepth a b 0 = 0"
    using uniqueDepth_spec [of 0 a b] k b0 by (cases "uniqueDepth a b 0") auto
  have na: "nodes a ! top a = Some na" using a'(2,3) by simp
  obtain sta c1 where tr: "trimRight t 0 a = Inr sta" "top sta = 0" "indexes sta = indexes a" "child sta = Inr (Some c1)"
    "wfc t (D - 0) c1" "ctxL t D a 0 @ cconts t (D - 0) (take k (Children root)) @ ccont t (D - 0) c1 =
      ctxL t D a (top a) @ cconts t (D - top a) (take (Suc ia) (Children na))"
    using trimRight_ok [OF clean_inv [OF a'(1)] na a'(4,5) le0 clean_parts(2) [OF a'(1)] k(1)] by blast
  have tl: "trimLeft t 0 b = Inr b" using b(2) by (simp add: trimLeft.simps [of t 0 b])
  let ?cs = "take k (Children root) @ c1 # drop (length (Children root)) (Children root)"
  have n2: "nodes b ! top b = Some root" using clean_parts(2) [OF b(1)] b(2) by simp
  note inv = clean_inv [OF b(1)]
  have w: "\<forall>c \<in> set ?cs. wfc t (D - top b) c"
    using stack_inv_cconts(2) [OF inv n2] tr(5) b(2) by (auto dest: in_set_takeD)
  have "range_tail t sta b = bindE (rewriteNodeChildren t (map Some ?cs) b) (\<lambda>st3. commit t st3)"
    using range_tail_mid [OF n2 _ _ tr(4) k(2), of t] by (simp add: tr(2,3) k(1) b0)
  moreover have "ctxL t D a D @ cconts t 0 (take (Suc ia) (Children na)) =
      ctxL t D b (top b) @ cconts t (D - top b) ?cs @ ctxR t D b (top b)"
    using tr(6) a'(2) b(2) by simp
  moreover have "indexes a \<noteq> indexes b" by (rule indexes_differ [of a 0]) (use k b0 in simp)
  ultimately show ?thesis
    unfolding range_ready_def u using tl tr(1) inv n2 w by blast
qed

lemma range_from_start:
  assumes a: "clean t D root a" "top a = 0" "index a = -1" and b: "at_entry t D root b nb ib"
  shows "range_ready t D a b (cconts t 0 (drop ib (Children nb)) @ ctxR t D b D)"
proof -
  have b': "clean t D root b" "top b = D" "nodes b ! D = Some nb" "index b = int ib" "ib < length (Children nb)"
    using b by (auto simp: at_entry_def)
  obtain k where k: "indexes b ! 0 = int k" "k < length (Children root)" by (rule at_entry_first_index [OF b])
  have a0: "indexes a ! 0 = -1" using a(2,3) by (simp add: index_def)
  have u: "uniqueDepth a b 0 = 0" using a(2) by (simp add: uniqueDepth.simps)
  have nb: "nodes b ! top b = Some nb" using b'(2,3) by simp
  obtain st2a c2 C l bi where tl: "trimLeft t 0 b = Inr st2a" "top st2a = 0" "stack_inv t D st2a C"
    "indexes st2a = indexes b" "nodes st2a ! 0 = Some (Node l (take k (Children root) @ c2 # drop (Suc k) (Children root)) bi)"
    "ccont t (D - 0) c2 @ cconts t (D - 0) (drop (Suc k) (Children root)) @ ctxR t D b 0 =
      cconts t (D - top b) (drop ib (Children nb)) @ ctxR t D b (top b)"
    using trimLeft_ok [OF clean_inv [OF b'(1)] nb b'(4,5) le0 clean_parts(2) [OF b'(1)] k(1)] by blast
  have tr: "trimRight t 0 a = Inr a" using a(2) by (simp add: trimRight.simps [of t 0 a])
  let ?cl = "take k (Children root) @ c2 # drop (Suc k) (Children root)"
  let ?cs = "c2 # drop (Suc k) (Children root)"
  have n2: "nodes st2a ! top st2a = Some (Node l ?cl bi)" using tl(2,5) by simp
  have w: "\<forall>c \<in> set ?cs. wfc t (D - top st2a) c" using stack_inv_cconts(2) [OF tl(3) n2] by simp
  have e: "drop k ?cl = ?cs" "k \<le> length ?cl" using k(2) by simp_all
  have "range_tail t a st2a = bindE (rewriteNodeChildren t (map Some ?cs) st2a) (\<lambda>st3. commit t st3)"
    using range_tail_start [OF n2, of a k t] e by (simp add: a(2) a0 tl(4) k(1))
  moreover have "cconts t 0 (drop ib (Children nb)) @ ctxR t D b D =
      ctxL t D st2a (top st2a) @ cconts t (D - top st2a) ?cs @ ctxR t D st2a (top st2a)"
    using tl(2,6) b'(2) by simp
  moreover have "indexes a \<noteq> indexes b" by (rule indexes_differ [of a 0]) (use k a0 in simp)
  ultimately show ?thesis
    unfolding range_ready_def u using tl(1,3) tr n2 w by blast
qed

lemma range_everything:
  assumes a: "clean t D root a" "top a = 0" "index a = -1"
    and b: "clean t D root b" "top b = 0" "index b = int (length (Children root))"
  shows "range_ready t D a b []"
proof -
  have u: "uniqueDepth a b 0 = 0" using a(2) by (simp add: uniqueDepth.simps)
  have i: "indexes a ! 0 = -1" "indexes b ! 0 = int (length (Children root))" using a b by (simp_all add: index_def)
  have t: "trimRight t 0 a = Inr a" "trimLeft t 0 b = Inr b"
    using a(2) b(2) by (simp_all add: trimRight.simps [of t 0 a] trimLeft.simps [of t 0 b])
  have n: "nodes b ! top b = Some root" using clean_parts(2) [OF b(1)] b(2) by simp
  have "range_tail t a b = bindE (rewriteNodeChildren t (map Some []) b) (\<lambda>st3. commit t st3)"
    using range_tail_start [OF n, of a "length (Children root)" t] by (simp add: a(2) i)
  moreover have "indexes a \<noteq> indexes b" by (rule indexes_differ [of a 0]) (use i in simp)
  moreover have "[] = ctxL t D b (top b) @ cconts t (D - top b) [] @ ctxR t D b (top b)" using b(2) by simp
  moreover have "\<forall>c \<in> set []. wfc t (D - top b) c" by simp
  ultimately show ?thesis
    unfolding range_ready_def u using t clean_inv [OF b(1)] n by blast
qed

lemma Node_DeleteRange_clean:
  assumes c0: "clean t D root st0" "top st0 = 0" and keys: "key1 \<le> key2"
    and small: "\<forall>p \<in> set (contents t D root). entry_small t p"
    and ne: "0 < D \<longrightarrow> al_del_range key1 key2 (contents t D root) \<noteq> []"
  shows "\<exists>n st' D'. Node_DeleteRange t root key1 key2 st0 = Inr (n, st') \<and>
    tr_inv t D' st' (al_del_range key1 key2 (contents t D root)) \<and> D' \<le> D"
proof -
  let ?C = "contents t D root"
  have s0: "st0\<lparr>top := 0\<rparr> = st0" by (rule top_update_same [OF c0(2)])
  obtain a L1 R1 where a: "searchLesser t root key1 st0 = Inr a" "moved_back t D root L1 R1 a"
    "?C = L1 @ R1" "\<forall>p \<in> set L1. fst p < key1" "\<forall>p \<in> set R1. key1 \<le> fst p"
    using searchLesser_pos [OF c0, of key1] by blast
  obtain b L2 R2 where b: "searchGreater t root key2 st0 = Inr b" "clean t D root b"
    "posL t D b = L2" "posR t D b = R2" "?C = L2 @ R2" "\<forall>p \<in> set L2. \<not> key2 < fst p" "\<forall>p \<in> set R2. key2 < fst p"
    "if R2 = [] then top b = 0 \<and> index b = int (length (Children root))
      else top b = D \<and> 0 \<le> index b \<and> index b < int (length (Children (nd b D)))"
    using searchGreater_pos [OF c0, of key2] by blast
  have ca: "clean t D root a" using a(2) by (simp add: moved_back_def)
  have root: "nodes a ! 0 = Some root" "nodes b ! 0 = Some root"
    using clean_parts(2) [OF ca] clean_parts(2) [OF b(2)] .
  have oC: "ordered ?C" using clean_parts(3) [OF c0(1)] by (simp add: wf_tree_def)
  have LR: "L1 @ R1 = L2 @ R2" using a(3) b(5) by simp
  note cut = al_del_range_cut [OF LR a(4,5) b(6,7) keys]
  have C': "al_del_range key1 key2 ?C = L1 @ R2" using cut(1) a(3) by simp
  have small': "\<forall>p \<in> set (L1 @ R2). entry_small t p"
    using small [unfolded a(3)] small [unfolded b(5)] by (simp add: ball_Un)
  have o': "ordered (L1 @ R2)" using ordered_al_del_range [OF oC, of key1 key2] C' by simp
  have Dm: "D < maximumTreeDepth" by (rule clean_parts(4) [OF ca])
  have "range_ready t D a b (L1 @ R2)"
  proof -
    have A: "\<exists>na ia. at_entry t D root a na ia \<and> L1 = ctxL t D a D @ cconts t 0 (take (Suc ia) (Children na)) \<and>
        length (posL t D a) < length L1" if "L1 \<noteq> []"
    proof -
      have m: "top a = D" "0 \<le> index a" "index a < int (length (Children (nd a D)))"
        "posL t D a = butlast L1" "posR t D a = last L1 # R1"
        using a(2) that by (auto simp: moved_back_def)
      obtain na where na: "nodes a ! D = Some na" by (rule clean_node [OF ca]) (use m(1) in simp)
      obtain i where i: "index a = int i" "i < length (Children na)"
        using m(2,3) na by (metis nonneg_int_cases of_nat_less_iff option.sel)
      have ent: "entry (Children na ! i) = last L1"
        using leaf_here(2) [OF ca m(1) i(1) na i(2)] m(5) by simp
      have "L1 = posL t D a @ [last L1]" using that m(4) by simp
      also have "\<dots> = ctxL t D a D @ cconts t 0 (take (Suc i) (Children na))"
        using take_Suc_conv_app_nth [OF i(2)] m(1) na ent i(1) by (simp add: posL_def)
      finally have "L1 = ctxL t D a D @ cconts t 0 (take (Suc i) (Children na))" .
      moreover have "at_entry t D root a na i" using i na m(1) ca by (simp add: at_entry_def)
      moreover have "length (posL t D a) < length L1" using m(4) that by simp
      ultimately show ?thesis by blast
    qed
    have B: "\<exists>nb ib. at_entry t D root b nb ib \<and> R2 = cconts t 0 (drop ib (Children nb)) @ ctxR t D b D" if "R2 \<noteq> []"
    proof -
      have m: "top b = D" "0 \<le> index b" "index b < int (length (Children (nd b D)))" using b(8) that by auto
      obtain nb where nb: "nodes b ! D = Some nb" by (rule clean_node [OF b(2)]) (use m(1) in simp)
      obtain i where i: "index b = int i" "i < length (Children nb)"
        using m(2,3) nb by (metis nonneg_int_cases of_nat_less_iff option.sel)
      have "R2 = cconts t 0 (drop i (Children nb)) @ ctxR t D b D"
        using b(4) m(1) nb i(1) by (simp add: posR_def)
      moreover have "at_entry t D root b nb i" using i nb m(1) b(2) by (simp add: at_entry_def)
      ultimately show ?thesis by blast
    qed
    have left: "top a = 0 \<and> index a = -1" if "L1 = []" using a(2) that by (simp add: moved_back_def)
    have right: "top b = 0 \<and> index b = int (length (Children root))" if "R2 = []" using b(8) that by simp
    consider "L1 = []" "R2 = []" | "L1 = []" "R2 \<noteq> []" | "L1 \<noteq> []" "R2 = []" | "L1 \<noteq> []" "R2 \<noteq> []" by blast
    then show ?thesis
    proof cases
      case 1
      then show ?thesis using range_everything [OF ca _ _ b(2)] left right by simp
    next
      case 2
      then show ?thesis using range_from_start [OF ca] left B by auto
    next
      case 3
      then show ?thesis using range_to_end [OF _ b(2)] right A by auto
    next
      case 4
      obtain na ia where na: "at_entry t D root a na ia" "L1 = ctxL t D a D @ cconts t 0 (take (Suc ia) (Children na))"
        "length (posL t D a) < length L1" using A [OF 4(1)] by blast
      obtain nb ib where nb: "at_entry t D root b nb ib" "R2 = cconts t 0 (drop ib (Children nb)) @ ctxR t D b D"
        using B [OF 4(2)] by blast
      have "length (posL t D a) < length (posL t D b)" using na(3) cut(2) b(3) by simp
      from range_both [OF na(1) nb(1) this] show ?thesis using na(2) nb(2) by simp
    qed
  qed
  then obtain sta st2a C n cs where r: "indexes a \<noteq> indexes b"
    "trimLeft t (uniqueDepth a b 0) b = Inr st2a" "trimRight t (uniqueDepth a b 0) a = Inr sta"
    "stack_inv t D st2a C" "nodes st2a ! top st2a = Some n" "\<forall>c \<in> set cs. wfc t (D - top st2a) c"
    "L1 @ R2 = ctxL t D st2a (top st2a) @ cconts t (D - top st2a) cs @ ctxR t D st2a (top st2a)"
    "range_tail t sta st2a = bindE (rewriteNodeChildren t (map Some cs) st2a) (\<lambda>st3. commit t st3)"
    unfolding range_ready_def by blast
  have "\<not> key2 < key1" using keys by (simp add: not_less)
  have "Node_DeleteRange t root key1 key2 st0 = range_tail t sta st2a"
    by (rule Node_DeleteRange_unfold [OF \<open>\<not> key2 < key1\<close> _ _ r(1,2,3)]) (simp_all add: s0 a(1) b(1))
  moreover have ne': "0 < D \<longrightarrow> L1 @ R2 \<noteq> []" using ne C' by simp
  ultimately show ?thesis
    using range_finish [OF r(4,5,6,7) o' Dm small' ne' r(8)] C' by simp
qed

end
