(* ===== verification/IbOps.thy ===== *)
theory IbOps
  imports IbRange
begin

text \<open>
  The interface the rest of the program has to the tree: an ordered map with string keys.
  The locale \<open>ordered_map\<close> states what \<^verbatim>\<open>Transaction\<close> promises; the facts about subtrees
  (entries with a common key prefix, src/ibtree/ibtransaction.go) are proved in it once, and
  the transaction of the model is its interpretation.
\<close>

section \<open>The interface\<close>

locale ordered_map =
  fixes inv :: "nat \<Rightarrow> 's \<Rightarrow> kv list \<Rightarrow> bool"
    and limit :: nat
    and fits :: "kv \<Rightarrow> bool"
    and get :: "gostring \<Rightarrow> 's \<Rightarrow> (gostring option \<times> 's) res"
    and nextk :: "gostring \<Rightarrow> 's \<Rightarrow> (gostring option \<times> 's) res"
    and prevk :: "gostring \<Rightarrow> 's \<Rightarrow> (gostring option \<times> 's) res"
    and set_op :: "gostring \<Rightarrow> gostring \<Rightarrow> 's \<Rightarrow> 's res"
    and del :: "gostring \<Rightarrow> 's \<Rightarrow> 's res"
    and del_range :: "gostring \<Rightarrow> gostring \<Rightarrow> 's \<Rightarrow> 's res"
  assumes inv_ordered: "inv d s C \<Longrightarrow> ordered C"
    and get_law: "inv d s C \<Longrightarrow> \<exists>s'. get k s = Inr (map_of C k, s') \<and> inv d s' C"
    and next_law: "inv d s C \<Longrightarrow> \<exists>s'. nextk k s = Inr (al_next k C, s') \<and> inv d s' C"
    and prev_law: "inv d s C \<Longrightarrow> \<exists>s'. prevk k s = Inr (al_prev k C, s') \<and> inv d s' C"
    and set_law: "inv d s C \<Longrightarrow> k \<noteq> [] \<Longrightarrow> fits (k, v) \<Longrightarrow> \<forall>p \<in> set C. fits p \<Longrightarrow> Suc d < limit \<Longrightarrow>
      \<exists>s' d'. set_op k v s = Inr s' \<and> inv d' s' (al_set k v C) \<and> d' \<le> Suc d"
    and del_law: "inv d s C \<Longrightarrow> k \<in> fst ` set C \<Longrightarrow> \<forall>p \<in> set C. fits p \<Longrightarrow> 0 < d \<longrightarrow> al_del k C \<noteq> [] \<Longrightarrow>
      \<exists>s' d'. del k s = Inr s' \<and> inv d' s' (al_del k C) \<and> d' \<le> d"
    and del_range_law: "inv d s C \<Longrightarrow> k1 \<le> k2 \<Longrightarrow> \<forall>p \<in> set C. fits p \<Longrightarrow>
      0 < d \<longrightarrow> al_del_range k1 k2 C \<noteq> [] \<Longrightarrow>
      \<exists>s' d'. del_range k1 k2 s = Inr s' \<and> inv d' s' (al_del_range k1 k2 C) \<and> d' \<le> d"
begin

lemma get_after_set:
  assumes "inv d s C" "k \<noteq> []" "fits (k, v)" "\<forall>p \<in> set C. fits p" "Suc d < limit"
  shows "\<exists>s1 s2. set_op k v s = Inr s1 \<and> get k' s1 = Inr (if k' = k then Some v else map_of C k', s2)"
proof -
  obtain s1 d' where s1: "set_op k v s = Inr s1" "inv d' s1 (al_set k v C)"
    using set_law [OF assms] by blast
  obtain s2 where "get k' s1 = Inr (map_of (al_set k v C) k', s2)" using get_law [OF s1(2)] by blast
  with s1(1) show ?thesis using map_of_al_set [OF inv_ordered [OF assms(1)], of k v] by auto
qed

lemma get_after_del:
  assumes "inv d s C" "k \<in> fst ` set C" "\<forall>p \<in> set C. fits p" "0 < d \<longrightarrow> al_del k C \<noteq> []"
  shows "\<exists>s1 s2. del k s = Inr s1 \<and> get k' s1 = Inr (if k' = k then None else map_of C k', s2)"
proof -
  obtain s1 d' where s1: "del k s = Inr s1" "inv d' s1 (al_del k C)"
    using del_law [OF assms] by blast
  obtain s2 where "get k' s1 = Inr (map_of (al_del k C) k', s2)" using get_law [OF s1(2)] by blast
  with s1(1) show ?thesis using map_of_al_del [of k C] by auto
qed

end

section \<open>Keys with a common prefix\<close>

definition sub_view :: "gostring \<Rightarrow> kv list \<Rightarrow> kv list" where
  "sub_view pre C =
     map (\<lambda>p. (drop (length pre) (fst p), snd p)) (filter (\<lambda>p. take (length pre) (fst p) = pre) C)"

lemma prefix_less_iff: "pre @ a < pre @ b \<longleftrightarrow> a < (b :: gostring)"
  by (induction pre) simp_all

lemma take_prefix_conv: "take (length pre) x = pre \<longleftrightarrow> (\<exists>m. x = pre @ m)"
  by (metis append_eq_conv_conj append_take_drop_id)

text \<open>Keys of at least the prefix's length compare by their first part.\<close>

lemma less_by_prefix:
  fixes x :: gostring
  assumes "length pre \<le> length x" "take (length pre) x \<noteq> pre"
  shows "pre @ m < x \<longleftrightarrow> pre < take (length pre) x" "x < pre @ m \<longleftrightarrow> take (length pre) x < pre"
proof -
  let ?h = "take (length pre) x" and ?r = "drop (length pre) x"
  have l: "length ?h = length pre" using assms(1) by simp
  have x: "x = ?h @ ?r" by simp
  show "pre @ m < x \<longleftrightarrow> pre < ?h"
    using append_less_same_length [of pre ?h m ?r] l assms(2) by (metis x)
  show "x < pre @ m \<longleftrightarrow> ?h < pre"
    using append_less_same_length [of ?h pre ?r m] l assms(2) by (metis x)
qed

lemma map_of_sub_view: "map_of (sub_view pre C) k = map_of C (pre @ k)"
proof (induction C)
  case (Cons p C)
  show ?case
  proof (cases "take (length pre) (fst p) = pre")
    case True
    then obtain m where m: "fst p = pre @ m" by (auto simp: take_prefix_conv)
    with Cons show ?thesis by (cases p) (auto simp: sub_view_def)
  next
    case False
    then have "fst p \<noteq> pre @ k" by auto
    with Cons False show ?thesis by (cases p) (auto simp: sub_view_def)
  qed
qed (simp add: sub_view_def)


lemma stripTreePrefix_long:
  assumes "length pre \<le> length x"
  shows "stripTreePrefix pre (Some x) =
    Inr (if take (length pre) x = pre then Some (drop (length pre) x) else None)"
  using assms by (simp add: stripTreePrefix_def slice_upto_def slice_from_def)

lemma filter_sub_view:
  "filter (\<lambda>p. P (fst p)) (sub_view pre C) =
     sub_view pre (filter (\<lambda>p. P (drop (length pre) (fst p))) C)"
  by (induction C) (simp_all add: sub_view_def)

lemma sub_view_next: "filter (\<lambda>p. k < fst p) (sub_view pre C) = sub_view pre (filter (\<lambda>p. pre @ k < fst p) C)"
  by (induction C) (auto simp: sub_view_def take_prefix_conv prefix_less_iff)

lemma sub_view_prev: "filter (\<lambda>p. fst p < k) (sub_view pre C) = sub_view pre (filter (\<lambda>p. fst p < pre @ k) C)"
  by (induction C) (auto simp: sub_view_def take_prefix_conv prefix_less_iff)

text \<open>The neighbour of a key in the whole map, cut to the prefix, is the neighbour among the
  keys with the prefix. Keys shorter than the prefix are excluded: the code would slice
  beyond their end.\<close>

lemma strip_next:
  assumes "ordered C" "\<forall>p \<in> set C. length pre \<le> length (fst p)"
  shows "stripTreePrefix pre (al_next (pre @ k) C) = Inr (al_next k (sub_view pre C))"
proof (cases "filter (\<lambda>p. pre @ k < fst p) C")
  case Nil
  then show ?thesis by (simp add: al_next_def sub_view_next) (simp add: sub_view_def stripTreePrefix_def)
next
  case (Cons p F)
  have pC: "p \<in> set C" "pre @ k < fst p" and FC: "\<forall>q \<in> set F. q \<in> set C"
    using arg_cong [OF Cons, of set] by auto
  have "ordered (p # F)" using ordered_filter [OF assms(1), of "\<lambda>p. pre @ k < fst p"] Cons by simp
  then have less: "\<forall>q \<in> set F. fst p < fst q" by (simp add: ordered_Cons)
  have len: "length pre \<le> length (fst p)" using assms(2) pC by blast
  have whole: "al_next (pre @ k) C = Some (fst p)" using Cons by (simp add: al_next_def)
  show ?thesis
  proof (cases "take (length pre) (fst p) = pre")
    case True
    then have "al_next k (sub_view pre C) = Some (drop (length pre) (fst p))"
      by (simp add: al_next_def sub_view_next Cons) (simp add: sub_view_def)
    then show ?thesis using whole stripTreePrefix_long [OF len] True by simp
  next
    case False
    have "take (length pre) (fst q) \<noteq> pre" if "q \<in> set F" for q
    proof
      assume "take (length pre) (fst q) = pre"
      then obtain m where "fst q = pre @ m" by (auto simp: take_prefix_conv)
      then have "take (length pre) (fst p) < pre" using less that less_by_prefix(2) [OF len False] by auto
      moreover have "pre < take (length pre) (fst p)" using pC(2) less_by_prefix(1) [OF len False] by simp
      ultimately show False by simp
    qed
    then have "sub_view pre (p # F) = []" using False by (simp add: sub_view_def filter_empty_conv)
    then have "al_next k (sub_view pre C) = None" by (simp add: al_next_def sub_view_next Cons)
    then show ?thesis using whole stripTreePrefix_long [OF len] False by simp
  qed
qed

lemma strip_prev:
  assumes "ordered C" "\<forall>p \<in> set C. length pre \<le> length (fst p)"
  shows "stripTreePrefix pre (al_prev (pre @ k) C) = Inr (al_prev k (sub_view pre C))"
proof (cases "filter (\<lambda>p. fst p < pre @ k) C" rule: rev_cases)
  case Nil
  then show ?thesis by (simp add: al_prev_def sub_view_prev) (simp add: sub_view_def stripTreePrefix_def)
next
  case (snoc F p)
  have pC: "p \<in> set C" "fst p < pre @ k" and FC: "\<forall>q \<in> set F. q \<in> set C"
    using arg_cong [OF snoc, of set] by auto
  have "ordered (F @ [p])" using ordered_filter [OF assms(1), of "\<lambda>p. fst p < pre @ k"] snoc by simp
  then have less: "\<forall>q \<in> set F. fst q < fst p" by (simp add: ordered_append)
  have len: "length pre \<le> length (fst p)" using assms(2) pC by blast
  have whole: "al_prev (pre @ k) C = Some (fst p)" using snoc by (simp add: al_prev_def)
  show ?thesis
  proof (cases "take (length pre) (fst p) = pre")
    case True
    then have "al_prev k (sub_view pre C) = Some (drop (length pre) (fst p))"
      by (simp add: al_prev_def sub_view_prev snoc) (simp add: sub_view_def)
    then show ?thesis using whole stripTreePrefix_long [OF len] True by simp
  next
    case False
    have "take (length pre) (fst q) \<noteq> pre" if "q \<in> set F" for q
    proof
      assume "take (length pre) (fst q) = pre"
      then obtain m where "fst q = pre @ m" by (auto simp: take_prefix_conv)
      then have "pre < take (length pre) (fst p)" using less that less_by_prefix(1) [OF len False] by auto
      moreover have "take (length pre) (fst p) < pre" using pC(2) less_by_prefix(2) [OF len False] by simp
      ultimately show False by simp
    qed
    then have "sub_view pre (F @ [p]) = []" using False by (simp add: sub_view_def filter_empty_conv)
    then have "al_prev k (sub_view pre C) = None" by (simp add: al_prev_def sub_view_prev snoc)
    then show ?thesis using whole stripTreePrefix_long [OF len] False by simp
  qed
qed

lemma sub_view_set:
  assumes "ordered C"
  shows "map_of (sub_view pre (al_set (pre @ k) v C)) = (map_of (sub_view pre C))(k \<mapsto> v)"
    "q \<noteq> pre @ k \<Longrightarrow> map_of (al_set (pre @ k) v C) q = map_of C q"
  by (simp_all add: fun_eq_iff map_of_sub_view map_of_al_set [OF assms])

context ordered_map
begin

text \<open>A client that prefixes its keys sees the entries with its prefix.\<close>

lemma sub_next:
  assumes "inv d s C" "\<forall>p \<in> set C. length pre \<le> length (fst p)"
  shows "\<exists>s'. bindE (nextk (pre @ k) s) (\<lambda>(nk, s'). bindE (stripTreePrefix pre nk) (\<lambda>r. Inr (r, s'))) =
      Inr (al_next k (sub_view pre C), s') \<and> inv d s' C"
proof -
  obtain s' where "nextk (pre @ k) s = Inr (al_next (pre @ k) C, s')" "inv d s' C"
    using next_law [OF assms(1)] by blast
  with strip_next [OF inv_ordered [OF assms(1)] assms(2), of k] show ?thesis by simp
qed

lemma sub_prev:
  assumes "inv d s C" "\<forall>p \<in> set C. length pre \<le> length (fst p)"
  shows "\<exists>s'. bindE (prevk (pre @ k) s) (\<lambda>(nk, s'). bindE (stripTreePrefix pre nk) (\<lambda>r. Inr (r, s'))) =
      Inr (al_prev k (sub_view pre C), s') \<and> inv d s' C"
proof -
  obtain s' where "prevk (pre @ k) s = Inr (al_prev (pre @ k) C, s')" "inv d s' C"
    using prev_law [OF assms(1)] by blast
  with strip_prev [OF inv_ordered [OF assms(1)] assms(2), of k] show ?thesis by simp
qed

lemma sub_get:
  assumes "inv d s C"
  shows "\<exists>s'. get (pre @ k) s = Inr (map_of (sub_view pre C) k, s') \<and> inv d s' C"
  using get_law [OF assms, of "pre @ k"] by (simp add: map_of_sub_view)

end

section \<open>Transactions are such a map\<close>

lemma tr_ordered: "tr_inv t D tr C \<Longrightarrow> ordered C"
  by (erule tr_inv_obtain)

lemma Tr_Get_law: "tr_inv t D tr C \<Longrightarrow> \<exists>tr'. Tr_Get t k tr = Inr (map_of C k, tr') \<and> tr_inv t D tr' C"
  by (erule tr_inv_obtain) (use Node_Get_clean [of t D _ tr k] in \<open>fastforce simp: Tr_Get_def\<close>)

lemma Tr_NextKey_law: "tr_inv t D tr C \<Longrightarrow> \<exists>tr'. Tr_NextKey t k tr = Inr (al_next k C, tr') \<and> tr_inv t D tr' C"
  by (erule tr_inv_obtain) (use Node_NextKey_clean [of t D _ tr k] in \<open>fastforce simp: Tr_NextKey_def\<close>)

lemma Tr_PrevKey_law: "tr_inv t D tr C \<Longrightarrow> \<exists>tr'. Tr_PrevKey t k tr = Inr (al_prev k C, tr') \<and> tr_inv t D tr' C"
  by (erule tr_inv_obtain) (use Node_PrevKey_clean [of t D _ tr k] in \<open>fastforce simp: Tr_PrevKey_def\<close>)

lemma Tr_Set_law:
  assumes "tr_inv t D tr C" "tree_ok t" "k \<noteq> []" "entry_small t (k, v)" "\<forall>p \<in> set C. entry_small t p"
    "Suc D < maximumTreeDepth"
  shows "\<exists>tr' D'. Tr_Set t k v tr = Inr tr' \<and> tr_inv t D' tr' (al_set k v C) \<and> D' \<le> Suc D"
proof -
  obtain root where r: "clean t D root tr" "top tr = 0" "contents t D root = C" "Root tr = Inr root"
    by (rule tr_inv_obtain [OF assms(1)])
  from Node_Set_clean [OF r(1,2) assms(3,2,4)] assms(5,6) r(3,4) show ?thesis
    by (auto simp: Tr_Set_def)
qed

lemma Tr_Delete_law:
  assumes "tr_inv t D tr C" "k \<in> fst ` set C" "\<forall>p \<in> set C. entry_small t p" "0 < D \<longrightarrow> al_del k C \<noteq> []"
  shows "\<exists>tr' D'. Tr_Delete t k tr = Inr tr' \<and> tr_inv t D' tr' (al_del k C) \<and> D' \<le> D"
proof -
  obtain root where r: "clean t D root tr" "top tr = 0" "contents t D root = C" "Root tr = Inr root"
    by (rule tr_inv_obtain [OF assms(1)])
  from Node_Delete_clean [OF r(1,2), of k] assms(2-4) r(3,4) show ?thesis
    by (fastforce simp: Tr_Delete_def)
qed

lemma Tr_DeleteRange_law:
  assumes "tr_inv t D tr C" "k1 \<le> k2" "\<forall>p \<in> set C. entry_small t p" "0 < D \<longrightarrow> al_del_range k1 k2 C \<noteq> []"
  shows "\<exists>tr' D'. Tr_DeleteRange t k1 k2 tr = Inr tr' \<and> tr_inv t D' tr' (al_del_range k1 k2 C) \<and> D' \<le> D"
proof -
  obtain root where r: "clean t D root tr" "top tr = 0" "contents t D root = C" "Root tr = Inr root"
    by (rule tr_inv_obtain [OF assms(1)])
  from Node_DeleteRange_clean [OF r(1,2) assms(2)] assms(3-4) r(3,4) show ?thesis
    by (auto simp: Tr_DeleteRange_def)
qed

text \<open>A transaction on a configured tree: the invariant together with the configuration.\<close>

definition tr_map :: "tree \<Rightarrow> nat \<Rightarrow> stack \<Rightarrow> kv list \<Rightarrow> bool" where
  "tr_map t D tr C \<longleftrightarrow> tree_ok t \<and> tr_inv t D tr C"

interpretation trmap: ordered_map "tr_map t" maximumTreeDepth "entry_small t" "Tr_Get t" "Tr_NextKey t" "Tr_PrevKey t"
  "Tr_Set t" "Tr_Delete t" "Tr_DeleteRange t" for t
proof (unfold_locales, goal_cases)
  case (1 d s C)
  then show ?case by (auto simp: tr_map_def intro: tr_ordered)
next
  case (2 d s C k)
  then show ?case using Tr_Get_law [of t d s C k] by (auto simp: tr_map_def)
next
  case (3 d s C k)
  then show ?case using Tr_NextKey_law [of t d s C k] by (auto simp: tr_map_def)
next
  case (4 d s C k)
  then show ?case using Tr_PrevKey_law [of t d s C k] by (auto simp: tr_map_def)
next
  case (5 d s C k v)
  then show ?case using Tr_Set_law [of t d s C k v] by (auto simp: tr_map_def)
next
  case (6 d s C k)
  then show ?case using Tr_Delete_law [of t d s C k] by (auto simp: tr_map_def)
next
  case (7 d s C k1 k2)
  then show ?case using Tr_DeleteRange_law [of t d s C k1 k2] by (auto simp: tr_map_def)
qed

end
