(* ===== verification/TreeProps.thy ===== *)
theory TreeProps
  imports IbOps
begin

text \<open>
  What a user of src/ibtree can rely on: the properties of \<^verbatim>\<open>Transaction\<close> and \<^verbatim>\<open>SubTree\<close>,
  each with an instance on a small tree. \<open>served\<close> is the set of transactions that a client
  reaches from a fresh root with calls inside the limits of the code; it pairs the
  transaction with the sorted list of entries the calls should have left.
\<close>

section \<open>Definitions\<close>

text \<open>The number of levels below a node, following the first children.\<close>

primrec height :: "tree \<Rightarrow> nat \<Rightarrow> node \<Rightarrow> nat" where
  "height t 0 n = 0"
| "height t (Suc f) n =
     (if Leafy n then 0
      else case Children n of
        [] \<Rightarrow> 0
      | c # _ \<Rightarrow> (case resolve t c of None \<Rightarrow> 0 | Some m \<Rightarrow> Suc (height t f m)))"

definition tr_height :: "tree \<Rightarrow> stack \<Rightarrow> nat" where
  "tr_height t tr = (case nodes tr ! 0 of None \<Rightarrow> 0 | Some n \<Rightarrow> height t maximumTreeDepth n)"

inductive served :: "tree \<Rightarrow> stack \<Rightarrow> kv list \<Rightarrow> bool" for t where
  fresh: "NewTransaction (Some (NewRoot t)) = Inr tr \<Longrightarrow> served t tr []"
| gets: "served t tr C \<Longrightarrow> Tr_Get t k tr = Inr (r, tr') \<Longrightarrow> served t tr' C"
| nexts: "served t tr C \<Longrightarrow> Tr_NextKey t k tr = Inr (r, tr') \<Longrightarrow> served t tr' C"
| prevs: "served t tr C \<Longrightarrow> Tr_PrevKey t k tr = Inr (r, tr') \<Longrightarrow> served t tr' C"
| sets: "served t tr C \<Longrightarrow> k \<noteq> [] \<Longrightarrow> entry_small t (k, v) \<Longrightarrow> Suc (tr_height t tr) < maximumTreeDepth \<Longrightarrow>
    Tr_Set t k v tr = Inr tr' \<Longrightarrow> served t tr' (al_set k v C)"
| deletes: "served t tr C \<Longrightarrow> k \<in> fst ` set C \<Longrightarrow> (0 < tr_height t tr \<longrightarrow> al_del k C \<noteq> []) \<Longrightarrow>
    Tr_Delete t k tr = Inr tr' \<Longrightarrow> served t tr' (al_del k C)"
| delete_ranges: "served t tr C \<Longrightarrow> k1 \<le> k2 \<Longrightarrow> (0 < tr_height t tr \<longrightarrow> al_del_range k1 k2 C \<noteq> []) \<Longrightarrow>
    Tr_DeleteRange t k1 k2 tr = Inr tr' \<Longrightarrow> served t tr' (al_del_range k1 k2 C)"

text \<open>A tree with the default node size and the sizes of the serialisation package, no storage
  behind it, and a transaction on a root that holds the given entries in one leaf.\<close>

definition demo_tree :: tree where
  "demo_tree = Tree_Init \<lparr>NodeMaximumSize = 0, halfSize = 0, smallSize = 0, placeholderValue = [],
     backend = None, msgp = wire_sizes\<rparr> None"

definition leaf_tr :: "kv list \<Rightarrow> stack" where
  "leaf_tr C = emptyStack\<lparr>nodes := (nodes emptyStack)
     [0 := Some (Node True (map (\<lambda>(k, v). NodeDataChild k v None) C) None)]\<rparr>"

text \<open>A tree of two levels in memory, with small leaves, and its transaction.\<close>

definition two_leaves :: node where
  "two_leaves = Node False
     [NodeDataChild [1] (placeholderValue demo_tree) (Some (Node True [NodeDataChild [1] [7] None, NodeDataChild [2] [8] None] None)),
      NodeDataChild [3] (placeholderValue demo_tree) (Some (Node True [NodeDataChild [3] [9] None, NodeDataChild [4] [7] None] None))] None"

definition two_tr :: stack where
  "two_tr = emptyStack\<lparr>nodes := (nodes emptyStack)[0 := Some two_leaves]\<rparr>"

abbreviation two_kvs :: "kv list" where
  "two_kvs \<equiv> [([1], [7]), ([2], [8]), ([3], [9]), ([4], [7])]"

section \<open>Auxiliary facts\<close>

lemma height_wf: "wfn t D n \<Longrightarrow> (0 < D \<longrightarrow> Children n \<noteq> []) \<Longrightarrow> D \<le> f \<Longrightarrow> height t f n = D"
proof (induction f arbitrary: D n)
  case (Suc f)
  show ?case
  proof (cases D)
    case 0
    then show ?thesis using Suc.prems by (simp add: wfn_Leafy)
  next
    case (Suc d)
    then have w: "wfn t (Suc d) n" "\<not> Leafy n" "Children n \<noteq> []" using Suc.prems by (auto simp: wfn_Leafy)
    then obtain m where m: "resolve t (Children n ! 0) = Some m" "wfn t d m" "Children m \<noteq> []"
      by (elim wfc_nth_resolve [of t d n 0]) auto
    then have "height t f m = d" using Suc.IH [of d m] Suc.prems Suc by simp
    then show ?thesis using w m Suc by (cases "Children n") simp_all
  qed
qed simp

lemma tr_height: "tr_inv t D tr C \<Longrightarrow> tr_height t tr = D"
  by (auto simp: tr_inv_def clean_def wf_tree_def tr_height_def intro!: height_wf)

lemma leaf_tr_inv: "ordered C \<Longrightarrow> tr_inv t 0 (leaf_tr C) C"
proof -
  assume o: "ordered C"
  have e: "map entry (map (\<lambda>(k, v). NodeDataChild k v None) C) = C"
    by (induction C) (auto simp: entry_def)
  let ?r = "Node True (map (\<lambda>(k, v). NodeDataChild k v None) C) None"
  have n0: "nodes (leaf_tr C) ! 0 = Some ?r"
    by (simp add: leaf_tr_def emptyStack_def maximumTreeDepth_def)
  have "clean t 0 ?r (leaf_tr C)"
    unfolding clean_def n0 using o e
    by (auto simp: leaf_tr_def emptyStack_def maximumTreeDepth_def stack_ok_def cache_ok_def wf_tree_def nth_list_update)
  then show ?thesis using e unfolding tr_inv_def by (intro conjI exI [of _ ?r]) (simp_all add: leaf_tr_def emptyStack_def)
qed

lemma NewTransaction_inv:
  assumes "NewTransaction (Some (NewRoot t)) = Inr tr"
  shows "tr_inv t 0 tr []"
proof -
  have "tr = leaf_tr []" using assms by (simp add: NewTransaction_def NewRoot_def leaf_tr_def)
  then show ?thesis using leaf_tr_inv [of "[]" t] by (simp add: ordered_def)
qed

lemma demo_tree_ok: "tree_ok demo_tree"
  unfolding demo_tree_def by (rule tree_ok_init)

lemma demo_small: "length k + max (length v) 32 < 238 \<Longrightarrow> entry_small demo_tree (k, v)"
  by (simp add: entry_small_def demo_tree_def wire_sizes_def Tree_Init_def setNodeMaximumSize_def minimumNodeMaximumSize_def
      hashSize_def bytes_of_def Let_def)

lemma served_inv:
  assumes "served t tr C" "tree_ok t"
  shows "(\<exists>D. tr_inv t D tr C) \<and> (\<forall>p \<in> set C. entry_small t p)"
  using assms(1)
proof induction
  case (fresh tr)
  then show ?case using NewTransaction_inv by auto
next
  case (gets tr C k r tr')
  then show ?case using Tr_Get_law [of t _ tr C k] by fastforce
next
  case (nexts tr C k r tr')
  then show ?case using Tr_NextKey_law [of t _ tr C k] by fastforce
next
  case (prevs tr C k r tr')
  then show ?case using Tr_PrevKey_law [of t _ tr C k] by fastforce
next
  case (sets tr C k v tr')
  then obtain D where D: "tr_inv t D tr C" by blast
  then have "Suc D < maximumTreeDepth" using sets.hyps tr_height by metis
  then show ?case using Tr_Set_law [OF D assms(2), of k v] sets by (auto simp: al_set_def)
next
  case (deletes tr C k tr')
  then obtain D where D: "tr_inv t D tr C" by blast
  then have "0 < D \<longrightarrow> al_del k C \<noteq> []" using deletes.hyps tr_height by metis
  then show ?case using Tr_Delete_law [OF D, of k] deletes by (auto simp: al_del_def)
next
  case (delete_ranges tr C k1 k2 tr')
  then obtain D where D: "tr_inv t D tr C" by blast
  then have "0 < D \<longrightarrow> al_del_range k1 k2 C \<noteq> []" using delete_ranges.hyps tr_height by metis
  then show ?case using Tr_DeleteRange_law [OF D, of k1 k2] delete_ranges by (auto simp: al_del_range_def)
qed


text \<open>Between operations no small leaf waits to be merged: reading does not touch the count, and
  \<^verbatim>\<open>commit\<close> leaves it at zero.\<close>

abbreviation same_small :: "stack \<Rightarrow> stack \<Rightarrow> bool" where
  "same_small st st' \<equiv> smallCount st' = smallCount st"

lemma same_push: "push i p st = Inr st' \<Longrightarrow> same_small st st'"
  by (auto simp: push_def Let_def res_simps split: if_splits)

lemma same_pushIndex: "pushIndex t i st = Inr st' \<Longrightarrow> same_small st st'"
  by (auto simp: pushIndex_def res_simps dest!: same_push)

lemma search_loop_step:
  assumes "search_loop t key st = Inr st'"
  shows "(\<exists>i. st' = setIndex i st) \<or> (\<exists>i p st2. push i p st = Inr st2 \<and> search_loop t key st2 = Inr st')"
  using assms by (subst (asm) search_loop.simps) (simp add: Let_def res_simps split: if_splits option.splits; blast)

lemma same_search_loop: "search_loop t key st = Inr st' \<Longrightarrow> same_small st st'"
proof (induction "length (nodes st) - top st" arbitrary: st rule: less_induct)
  case less
  from search_loop_step [OF less.prems] show ?case
  proof (elim disjE exE conjE)
    fix i p st2 assume 2: "push i p st = Inr st2" "search_loop t key st2 = Inr st'"
    have "length (nodes st2) - top st2 < length (nodes st) - top st" using push_top [OF 2(1)] by linarith
    from less.hyps [OF this 2(2)] show ?thesis using same_push [OF 2(1)] by simp
  qed simp
qed

lemma same_goDownLeftAny_loop: "goDownLeftAny_loop t i st = Inr st' \<Longrightarrow> same_small st st'"
proof (induction t i st arbitrary: st' rule: goDownLeftAny_loop.induct)
  case (1 t i st)
  from "1.prems" show ?case
    by (subst (asm) goDownLeftAny_loop.simps) (simp add: res_simps split: if_splits; metis "1.IH" same_pushIndex)
qed

lemma same_goDownRight_loop: "goDownRight_loop t i st = Inr st' \<Longrightarrow> same_small st st'"
proof (induction t i st arbitrary: st' rule: goDownRight_loop.induct)
  case (1 t i st)
  from "1.prems" show ?case
    by (subst (asm) goDownRight_loop.simps)
      (simp add: res_simps split: if_splits; metis "1.IH" same_pushIndex setIndex_fields(4))
qed

lemma same_goNextLeaf: "goNextLeaf t st = Inr (r, st') \<Longrightarrow> same_small st st'"
proof (induction t st arbitrary: st' rule: goNextLeaf.induct)
  case (1 t st)
  from "1.prems" show ?case
    by (subst (asm) goNextLeaf.simps)
      (auto simp: Let_def popNode_def res_simps split: if_splits dest!: same_goDownLeftAny_loop "1.IH")
qed

lemma same_goPreviousLeaf: "goPreviousLeaf t st = Inr (r, st') \<Longrightarrow> same_small st st'"
proof (induction t st arbitrary: st' rule: goPreviousLeaf.induct)
  case (1 t st)
  from "1.prems" show ?case
    by (subst (asm) goPreviousLeaf.simps)
      (auto simp: Let_def popNode_def res_simps split: if_splits dest!: same_goDownRight_loop "1.IH")
qed

lemma same_Node_search: "Node_search t self key st = Inr st' \<Longrightarrow> same_small st st'"
  by (auto simp: Node_search_def Stack_search_def res_simps split: if_splits option.splits dest!: same_search_loop)

lemma same_searchGreater: "searchGreater t self key st = Inr st' \<Longrightarrow> same_small st st'"
  by (auto simp: searchGreater_def res_simps split: if_splits option.splits dest!: same_Node_search same_goNextLeaf)

lemma same_searchLesser: "searchLesser t self key st = Inr st' \<Longrightarrow> same_small st st'"
  by (auto simp: searchLesser_def res_simps split: if_splits option.splits dest!: same_Node_search same_goPreviousLeaf)

lemma commit_small: "commit t st = Inr (n, st') \<Longrightarrow> smallCount st' = 0"
  by (auto simp: commit_def res_simps split: if_splits)

lemma served_small: "served t tr C \<Longrightarrow> smallCount tr = 0"
proof (induction rule: served.induct)
  case (fresh tr)
  then show ?case by (auto simp: NewTransaction_def emptyStack_def split: if_splits)
next
  case (gets tr C k r tr')
  then show ?case by (auto simp: Tr_Get_def Node_Get_def Let_def res_simps split: option.splits if_splits dest!: same_Node_search)
next
  case (nexts tr C k r tr')
  then show ?case by (auto simp: Tr_NextKey_def Node_NextKey_def res_simps dest!: same_searchGreater)
next
  case (prevs tr C k r tr')
  then show ?case by (auto simp: Tr_PrevKey_def Node_PrevKey_def res_simps dest!: same_searchLesser)
next
  case (sets tr C k v tr')
  then show ?case by (auto simp: Tr_Set_def Node_Set_def Let_def res_simps dest!: commit_small)
next
  case (deletes tr C k tr')
  then show ?case by (auto simp: Tr_Delete_def Node_Delete_def res_simps split: if_splits dest!: commit_small)
next
  case (delete_ranges tr C k1 k2 tr')
  then show ?case by (auto simp: Tr_DeleteRange_def Node_DeleteRange_def Let_def res_simps split: if_splits dest!: commit_small)
qed

text \<open>The search in a root above the leaves that has no children.\<close>

lemma search_empty_root:
  assumes "nodes st ! 0 = Some (Node False [] None)" "top st = 0"
  shows "Node_search t (Node False [] None) key st = Inl (PanicMsg ''nil child node'')"
  using assms
  by (simp add: Node_search_def Stack_search_def search_loop.simps node_def Stack_childNode_def sortSearch.simps)

text \<open>Deleting all entries of a tree of more than one level empties its root.\<close>

lemma DeleteRange_everything:
  assumes c: "clean t D root st" "top st = 0" "smallCount st = 0" and D: "0 < D" and k: "k1 \<le> k2"
    and all: "\<forall>p \<in> set (contents t D root). k1 \<le> fst p \<and> fst p \<le> k2"
  shows "\<exists>st'. Node_DeleteRange t root k1 k2 st = Inr (Node False [] None, st') \<and> nodes st' ! 0 = Some (Node False [] None) \<and> top st' = 0"
proof -
  let ?C = "contents t D root"
  have s0: "st\<lparr>top := 0\<rparr> = st" by (rule top_update_same [OF c(2)])
  obtain a L1 R1 where a: "searchLesser t root k1 st = Inr a" "moved_back t D root L1 R1 a" "?C = L1 @ R1" "\<forall>p \<in> set L1. fst p < k1"
    using searchLesser_pos [OF c(1,2), of k1] by blast
  obtain b L2 R2 where b: "searchGreater t root k2 st = Inr b" "clean t D root b" "posR t D b = R2" "?C = L2 @ R2"
    "\<forall>p \<in> set R2. k2 < fst p" "if R2 = [] then top b = 0 \<and> index b = int (length (Children root))
      else top b = D \<and> 0 \<le> index b \<and> index b < int (length (Children (nd b D)))"
    using searchGreater_pos [OF c(1,2), of k2] by blast
  have "L1 = []"
  proof (cases L1)
    case (Cons q qs)
    then have "q \<in> set ?C" "fst q < k1" using a(3,4) by auto
    then show ?thesis using all by (meson leD)
  qed
  moreover have "R2 = []"
  proof (cases R2)
    case (Cons q qs)
    then have "q \<in> set ?C" "k2 < fst q" using b(4,5) by auto
    then show ?thesis using all by (meson leD)
  qed
  ultimately have a0: "clean t D root a" "top a = 0" "index a = -1" and b0: "top b = 0" "index b = int (length (Children root))"
    using a(2) b(6) by (auto simp: moved_back_def)
  have n: "nodes b ! 0 = Some root" by (rule clean_parts(2) [OF b(2)])
  have ib: "indexes a ! 0 = -1" "indexes b ! 0 = int (length (Children root))" using a0 b0 by (simp_all add: index_def)
  have u: "uniqueDepth a b 0 = 0" using a0(2) by (simp add: uniqueDepth.simps)
  have t: "trimRight t (uniqueDepth a b 0) a = Inr a" "trimLeft t (uniqueDepth a b 0) b = Inr b"
    unfolding u using a0(2) b0(1) by (simp_all add: trimRight.simps [of t 0 a] trimLeft.simps [of t 0 b])
  have "indexes a \<noteq> indexes b" by (rule indexes_differ [of a 0]) (use ib in simp)
  moreover have "\<not> k2 < k1" using k by (simp add: not_less)
  ultimately have "Node_DeleteRange t root k1 k2 st = range_tail t a b"
    by (intro Node_DeleteRange_unfold [OF _ _ _ _ t(2,1)]) (simp_all add: s0 a(1) b(1))
  also have "\<dots> = bindE (rewriteNodeChildren t [] b) (\<lambda>st3. commit t st3)"
    using range_tail_start [of b root a "length (Children root)" t] n b0(1) by (simp add: a0(2) ib)
  finally have r: "Node_DeleteRange t root k1 k2 st = bindE (rewriteNodeChildren t [] b) (\<lambda>st3. commit t st3)" .
  have "wf_tree t D root" using clean_parts(3) [OF c(1)] .
  then have leafy: "\<not> Leafy root" using D by (cases D) (auto simp: wf_tree_def)
  have sc: "smallCount b = 0" using same_searchGreater [OF b(1)] c(3) by simp
  have len: "0 < length (nodes b)" using b(2) by (simp add: clean_def stack_ok_def maximumTreeDepth_def)
  let ?b = "invalidateSubNodes (b\<lparr>nodes := (nodes b)[0 := Some (Node False [] None)]\<rparr>)"
  have "rewriteNodeChildren t [] b = Inr ?b"
    using n leafy b0(1) by (simp add: rewriteNodeChildren_def node_def Let_def CheckNodeStructure_def)
  moreover have "commit t ?b = Inr (Node False [] None, ?b)"
    using b0(1) sc len by (simp add: commit_def popAll.simps node_def)
  ultimately show ?thesis using r b0(1) len by (intro exI [of _ ?b]) simp
qed

lemma demo_fresh: "NewTransaction (Some (NewRoot t)) = Inr (leaf_tr [])"
  by (simp add: NewTransaction_def NewRoot_def leaf_tr_def)

lemma demo_set: "Tr_Set demo_tree [1] [2] (leaf_tr []) = Inr (leaf_tr [([1], [2])])"
  by code_simp

lemma demo_served: "served demo_tree (leaf_tr [([1], [2])]) [([1], [2])]"
proof -
  have "tr_inv demo_tree 0 (leaf_tr []) []" using leaf_tr_inv [of "[]"] by simp
  then have "served demo_tree (leaf_tr [([1], [2])]) (al_set [1] [2] [])"
    by (intro served.sets [OF served.fresh [OF demo_fresh] _ _ _ demo_set] demo_small)
      (simp_all add: tr_height maximumTreeDepth_def)
  then show ?thesis by (simp add: al_set_def)
qed

lemma two_tr_inv_any: "tr_inv (demo_tree\<lparr>backend := be\<rparr>) 1 two_tr two_kvs"
proof -
  have n0: "nodes two_tr ! 0 = Some two_leaves"
    by (simp add: two_tr_def emptyStack_def maximumTreeDepth_def)
  have "clean (demo_tree\<lparr>backend := be\<rparr>) 1 two_leaves two_tr"
    unfolding clean_def n0
    by (auto simp: two_tr_def two_leaves_def emptyStack_def maximumTreeDepth_def stack_ok_def cache_ok_def wf_tree_def
        nth_list_update resolve_def ordered_def entry_def)
  then show ?thesis unfolding tr_inv_def
    by (intro conjI exI [of _ two_leaves]) (simp_all add: two_tr_def emptyStack_def two_leaves_def resolve_def entry_def)
qed

lemma two_tr_inv: "tr_inv demo_tree 1 two_tr two_kvs"
  using two_tr_inv_any [of "backend demo_tree"] by simp

lemma two_small: "\<forall>p \<in> set two_kvs. entry_small demo_tree p"
  by (auto intro!: demo_small)

section \<open>Properties\<close>

text \<open>C1: A transaction reached from a fresh root by any sequence of reads, writes and deletes
  inside the limits answers every read from the entries those calls left: \<^verbatim>\<open>Get\<close> the value last
  set, \<^verbatim>\<open>NextKey\<close> the smallest larger key and \<^verbatim>\<open>PrevKey\<close> the largest smaller key. No read
  panics or loops, and the entries are sorted without duplicates.\<close>

theorem transaction_reads:
  assumes "served t tr C" "tree_ok t"
  shows "ordered C \<and> (\<exists>tr'. Tr_Get t k tr = Inr (map_of C k, tr') \<and> served t tr' C) \<and>
    (\<exists>tr'. Tr_NextKey t k tr = Inr (al_next k C, tr') \<and> served t tr' C) \<and>
    (\<exists>tr'. Tr_PrevKey t k tr = Inr (al_prev k C, tr') \<and> served t tr' C)"
proof -
  obtain D where D: "tr_inv t D tr C" using served_inv [OF assms] by blast
  show ?thesis
    using tr_ordered [OF D] Tr_Get_law [OF D, of k] Tr_NextKey_law [OF D, of k] Tr_PrevKey_law [OF D, of k]
      served.gets [OF assms(1)] served.nexts [OF assms(1)] served.prevs [OF assms(1)] by blast
qed

theorem transaction_reads_witness:
  "\<exists>tr'. Tr_Get demo_tree [1] (leaf_tr [([1], [2])]) = Inr (Some [2], tr')"
  using transaction_reads [OF demo_served demo_tree_ok, of "[1]"] by auto

text \<open>C2: On any well-formed transaction, setting a non-empty key to a value that fits half a
  node returns without a panic while the tree is below its maximum depth, the tree grows by at
  most one level, and its entries are the old ones with that key updated.\<close>

theorem transaction_set:
  assumes "tr_inv t D tr C" "tree_ok t" "k \<noteq> []" "\<forall>p \<in> set ((k, v) # C). entry_small t p"
    "Suc D < maximumTreeDepth"
  shows "\<exists>tr' D'. Tr_Set t k v tr = Inr tr' \<and> tr_inv t D' tr' (al_set k v C) \<and> D' \<le> Suc D"
  using Tr_Set_law [OF assms(1-3)] assms(4,5) by auto

theorem transaction_set_witness:
  "\<exists>tr' D'. Tr_Set demo_tree [3] [1] two_tr = Inr tr' \<and>
     tr_inv demo_tree D' tr' (al_set [3] [1] two_kvs) \<and> D' \<le> Suc 1"
  by (rule transaction_set [OF two_tr_inv demo_tree_ok]) (auto intro!: demo_small simp: maximumTreeDepth_def)

text \<open>C5: Reading any key after a \<^verbatim>\<open>Set\<close> gives the value just set for that key and the old value
  for every other key.\<close>

theorem transaction_get_after_set:
  assumes "tr_map t D tr C" "k \<noteq> []" "\<forall>p \<in> set ((k, v) # C). entry_small t p" "Suc D < maximumTreeDepth"
  shows "\<exists>tr1 tr2. Tr_Set t k v tr = Inr tr1 \<and>
    Tr_Get t k' tr1 = Inr (if k' = k then Some v else map_of C k', tr2)"
  using trmap.get_after_set [OF assms(1,2)] assms(3,4) by auto

theorem transaction_get_after_set_witness:
  "\<exists>tr1 tr2. Tr_Set demo_tree [5] [1] two_tr = Inr tr1 \<and> Tr_Get demo_tree [2] tr1 = Inr (Some [8], tr2)"
  using transaction_get_after_set [of demo_tree 1 two_tr two_kvs "[5]" "[1]" "[2]"]
    two_tr_inv demo_tree_ok two_small demo_small [of "[5]" "[1]"]
  by (simp add: tr_map_def maximumTreeDepth_def)

text \<open>C4: Deleting a key that is present returns without a panic (unless it is the last entry of
  a tree of several levels) and leaves the tree with every other entry and no higher.\<close>

theorem transaction_delete:
  assumes "tr_inv t D tr C" "k \<in> fst ` set C" "\<forall>p \<in> set C. entry_small t p" "0 < D \<longrightarrow> al_del k C \<noteq> []"
  shows "\<exists>tr' D'. Tr_Delete t k tr = Inr tr' \<and> tr_inv t D' tr' (al_del k C) \<and> D' \<le> D"
  by (rule Tr_Delete_law [OF assms])

theorem transaction_delete_witness:
  "\<exists>tr' D'. Tr_Delete demo_tree [2] two_tr = Inr tr' \<and>
     tr_inv demo_tree D' tr' [([1], [7]), ([3], [9]), ([4], [7])] \<and> D' \<le> 1"
  using transaction_delete [OF two_tr_inv _ two_small, of "[2]"] by (simp add: al_del_def)

text \<open>C11: Deleting a key that is not in the tree panics, and does nothing else.\<close>

theorem transaction_delete_missing:
  assumes "tr_inv t D tr C" "k \<notin> fst ` set C"
  shows "Tr_Delete t k tr = Inl (PanicMsg ''ibp.Delete: Key missing'')"
proof -
  obtain root where r: "clean t D root tr" "top tr = 0" "contents t D root = C" "Root tr = Inr root"
    by (rule tr_inv_obtain [OF assms(1)])
  with Node_Delete_missing [OF r(1,2)] assms(2) show ?thesis by (simp add: Tr_Delete_def)
qed

theorem transaction_delete_missing_witness:
  "Tr_Delete demo_tree [9] two_tr = Inl (PanicMsg ''ibp.Delete: Key missing'')"
  by (rule transaction_delete_missing [OF two_tr_inv]) simp

text \<open>C3: Deleting a key range with something left outside it returns without a panic and leaves
  exactly the entries outside the (closed) range, in a tree that is no higher; the range ends
  need not be keys of the tree. The sibling case where nothing is left is the one excluded.\<close>

theorem transaction_delete_range:
  assumes "tr_inv t D tr C" "k1 \<le> k2" "\<forall>p \<in> set C. entry_small t p" "0 < D \<longrightarrow> al_del_range k1 k2 C \<noteq> []"
  shows "\<exists>tr' D'. Tr_DeleteRange t k1 k2 tr = Inr tr' \<and> tr_inv t D' tr' (al_del_range k1 k2 C) \<and> D' \<le> D"
  by (rule Tr_DeleteRange_law [OF assms])

theorem transaction_delete_range_witness:
  "\<exists>tr' D'. Tr_DeleteRange demo_tree [2] [3, 1] two_tr = Inr tr' \<and>
     tr_inv demo_tree D' tr' [([1], [7]), ([4], [7])] \<and> D' \<le> 1"
proof -
  have "al_del_range [2] [3, 1] two_kvs = [([1], [7]), ([4], [7])]" by (simp add: al_del_range_def)
  then show ?thesis using transaction_delete_range [OF two_tr_inv _ two_small, of "[2]" "[3, 1]"] by simp
qed

text \<open>C12: In every reachable transaction on a tree of more than one level, deleting all entries
  with one \<^verbatim>\<open>DeleteRange\<close> returns, but leaves a root on which every later \<^verbatim>\<open>Get\<close>, \<^verbatim>\<open>Set\<close>,
  \<^verbatim>\<open>Delete\<close>, \<^verbatim>\<open>NextKey\<close> and \<^verbatim>\<open>PrevKey\<close> panics, for every key.\<close>

theorem delete_range_everything_breaks:
  assumes "served t tr C" "tree_ok t" "0 < tr_height t tr" "k1 \<le> k2" "\<forall>p \<in> set C. k1 \<le> fst p \<and> fst p \<le> k2"
  shows "\<exists>tr'. Tr_DeleteRange t k1 k2 tr = Inr tr' \<and>
    (\<forall>k v. Tr_Get t k tr' = Inl (PanicMsg ''nil child node'') \<and> Tr_Set t k v tr' = Inl (PanicMsg ''nil child node'') \<and>
      Tr_Delete t k tr' = Inl (PanicMsg ''nil child node'') \<and> Tr_NextKey t k tr' = Inl (PanicMsg ''nil child node'') \<and>
      Tr_PrevKey t k tr' = Inl (PanicMsg ''nil child node''))"
proof -
  obtain D where D: "tr_inv t D tr C" using served_inv [OF assms(1,2)] by blast
  obtain root where r: "clean t D root tr" "top tr = 0" "contents t D root = C" "Root tr = Inr root"
    by (rule tr_inv_obtain [OF D])
  have "0 < D" using tr_height [OF D] assms(3) by simp
  then obtain tr' where tr': "Node_DeleteRange t root k1 k2 tr = Inr (Node False [] None, tr')"
      "nodes tr' ! 0 = Some (Node False [] None)" "top tr' = 0"
    using DeleteRange_everything [OF r(1,2) served_small [OF assms(1)] _ assms(4)] assms(5) r(3) by auto
  have R: "Root tr' = Inr (Node False [] None)" using tr'(2,3) by (simp add: Root_def node_def)
  note s = search_empty_root [OF tr'(2,3)]
  have "Tr_DeleteRange t k1 k2 tr = Inr tr'" using tr'(1) r(4) by (simp add: Tr_DeleteRange_def)
  moreover have "Tr_Get t k tr' = Inl (PanicMsg ''nil child node'')" "Tr_Set t k v tr' = Inl (PanicMsg ''nil child node'')"
      "Tr_Delete t k tr' = Inl (PanicMsg ''nil child node'')" "Tr_NextKey t k tr' = Inl (PanicMsg ''nil child node'')"
      "Tr_PrevKey t k tr' = Inl (PanicMsg ''nil child node'')" for k v
    by (simp_all add: Tr_Get_def Tr_Set_def Tr_Delete_def Tr_NextKey_def Tr_PrevKey_def Node_Get_def Node_Set_def Node_Delete_def
        Node_NextKey_def Node_PrevKey_def searchGreater_def searchLesser_def R s)
  ultimately show ?thesis by blast
qed

text \<open>Three entries of moderate size make a tree of two levels.\<close>

definition big_value :: gostring where "big_value = replicate 200 0"

definition three_tr :: stack where
  "three_tr = (case bindE (Tr_Set demo_tree [1] big_value (leaf_tr [])) (\<lambda>a. bindE (Tr_Set demo_tree [2] big_value a) (Tr_Set demo_tree [3] big_value)) of
     Inl e \<Rightarrow> leaf_tr [] | Inr tr \<Rightarrow> tr)"

lemma three_height:
  "\<not> isl (bindE (Tr_Set demo_tree [1] big_value (leaf_tr [])) (\<lambda>a. bindE (Tr_Set demo_tree [2] big_value a) (Tr_Set demo_tree [3] big_value))) \<and>
   tr_height demo_tree three_tr = 1"
  by code_simp

lemma three_served: "served demo_tree three_tr [([1], big_value), ([2], big_value), ([3], big_value)]"
proof -
  obtain a b where ab: "Tr_Set demo_tree [1] big_value (leaf_tr []) = Inr a" "Tr_Set demo_tree [2] big_value a = Inr b"
      "Tr_Set demo_tree [3] big_value b = Inr three_tr"
    using three_height by (auto simp: three_tr_def isl_def res_simps split: sum.splits)
  have small: "entry_small demo_tree ([i], big_value)" for i by (rule demo_small) (simp add: big_value_def)
  have step: "tr_inv demo_tree D x C \<Longrightarrow> D \<le> 2 \<Longrightarrow> Suc (tr_height demo_tree x) < maximumTreeDepth" for D x C
    by (simp add: tr_height maximumTreeDepth_def)
  have 0: "tr_inv demo_tree 0 (leaf_tr []) []" using leaf_tr_inv [of "[]"] by simp
  obtain D1 where 1: "tr_inv demo_tree D1 a [([1], big_value)]" "D1 \<le> 1"
    using Tr_Set_law [OF 0 demo_tree_ok, of "[1]" big_value] small ab(1) by (auto simp: al_set_def maximumTreeDepth_def)
  obtain D2 where 2: "tr_inv demo_tree D2 b [([1], big_value), ([2], big_value)]" "D2 \<le> 2"
    using Tr_Set_law [OF 1(1) demo_tree_ok, of "[2]" big_value] small 1(2) ab(2) by (auto simp: al_set_def maximumTreeDepth_def)
  have "served demo_tree a (al_set [1] big_value [])"
    by (rule served.sets [OF served.fresh [OF demo_fresh] _ small step [OF 0] ab(1)]) simp_all
  then have "served demo_tree b (al_set [2] big_value (al_set [1] big_value []))"
    by (rule served.sets [OF _ _ small step [OF 1(1)] ab(2)]) (use 1(2) in simp_all)
  then have "served demo_tree three_tr (al_set [3] big_value (al_set [2] big_value (al_set [1] big_value [])))"
    by (rule served.sets [OF _ _ small step [OF 2(1)] ab(3)]) (use 2(2) in simp_all)
  then show ?thesis by (simp add: al_set_def)
qed

theorem delete_range_everything_breaks_witness:
  "\<exists>tr'. Tr_DeleteRange demo_tree [1] [3] three_tr = Inr tr' \<and> Tr_Get demo_tree [2] tr' = Inl (PanicMsg ''nil child node'')"
  using delete_range_everything_breaks [OF three_served demo_tree_ok, of "[1]" "[3]"] three_height by auto

text \<open>C6: Through a subtree with a key prefix, \<^verbatim>\<open>Get\<close>, \<^verbatim>\<open>NextKey\<close> and \<^verbatim>\<open>PrevKey\<close> answer as a
  transaction would that holds only the entries with the prefix, their keys without it, as long
  as no key of the tree is shorter than the prefix.\<close>

theorem subtree_reads:
  assumes "tr_map t D tr C" "\<forall>p \<in> set C. length pre \<le> length (fst p)"
  shows "(\<exists>tr'. Sub_Get t pre k tr = Inr (map_of (sub_view pre C) k, tr') \<and> tr_map t D tr' C) \<and>
    (\<exists>tr'. Sub_NextKey t pre k tr = Inr (al_next k (sub_view pre C), tr') \<and> tr_map t D tr' C) \<and>
    (\<exists>tr'. Sub_PrevKey t pre k tr = Inr (al_prev k (sub_view pre C), tr') \<and> tr_map t D tr' C)"
  using trmap.sub_get [OF assms(1), of pre k] trmap.sub_next [OF assms, of k] trmap.sub_prev [OF assms, of k]
  by (simp add: Sub_Get_def Sub_NextKey_def Sub_PrevKey_def addTreePrefix_def)

theorem subtree_reads_witness:
  "\<exists>tr'. Sub_NextKey demo_tree [2] [1] (leaf_tr [([1, 9], [7]), ([2, 1], [8]), ([2, 4], [9]), ([3, 1], [7])]) = Inr (Some [4], tr')"
proof -
  let ?C = "[([1, 9], [7]), ([2, 1], [8]), ([2, 4], [9]), ([3, 1], [7])] :: kv list"
  have "ordered ?C" by (simp add: ordered_def)
  then have "tr_map demo_tree 0 (leaf_tr ?C) ?C" by (simp add: tr_map_def leaf_tr_inv demo_tree_ok)
  from subtree_reads [OF this, of "[2]" "[1]"] show ?thesis
    by (auto simp: sub_view_def al_next_def)
qed

text \<open>C7: Setting a key through a subtree changes that key of the subtree and no entry outside
  the prefix.\<close>

theorem subtree_set:
  assumes "tr_map t D tr C" "pre \<noteq> []" "\<forall>p \<in> set ((pre @ k, v) # C). entry_small t p" "Suc D < maximumTreeDepth"
  shows "\<exists>tr' D' C'. Sub_Set t pre k v tr = Inr tr' \<and> tr_map t D' tr' C' \<and>
    map_of (sub_view pre C') = (map_of (sub_view pre C))(k \<mapsto> v) \<and>
    (\<forall>q. take (length pre) q \<noteq> pre \<longrightarrow> map_of C' q = map_of C q)"
proof -
  have o: "ordered C" by (rule trmap.inv_ordered [OF assms(1)])
  obtain tr' D' where "Tr_Set t (pre @ k) v tr = Inr tr'" "tr_map t D' tr' (al_set (pre @ k) v C)"
    using trmap.set_law [OF assms(1), of "pre @ k" v] assms(2-4) by auto
  then show ?thesis using sub_view_set [OF o, where pre = pre and k = k and v = v]
    by (intro exI [of _ tr'] exI [of _ D'] exI [of _ "al_set (pre @ k) v C"])
      (simp add: Sub_Set_def addTreePrefix_def, metis append_eq_conv_conj)
qed

theorem subtree_set_witness:
  "\<exists>tr' D' C'. Sub_Set demo_tree [2] [9] [1] two_tr = Inr tr' \<and> tr_map demo_tree D' tr' C' \<and>
    map_of (sub_view [2] C') = (map_of (sub_view [2] two_kvs))([9] \<mapsto> [1]) \<and>
    (\<forall>q. take (length [2]) q \<noteq> [2] \<longrightarrow> map_of C' q = map_of two_kvs q)"
  using subtree_set [of demo_tree 1 two_tr two_kvs "[2]" "[9]" "[1]"] two_tr_inv demo_tree_ok two_small
    demo_small [of "[2, 9]" "[1]"]
  by (simp add: tr_map_def maximumTreeDepth_def)

text \<open>C13: A subtree's \<^verbatim>\<open>NextKey\<close> panics when the next key of the tree is shorter than the prefix,
  because the key is cut before its length is looked at.\<close>

theorem subtree_next_short_key:
  assumes "tr_map t D tr C" "al_next (pre @ k) C = Some x" "length x < length pre"
  shows "Sub_NextKey t pre k tr = Inl IndexRange"
proof -
  obtain tr' where "Tr_NextKey t (pre @ k) tr = Inr (Some x, tr')"
    using trmap.next_law [OF assms(1), of "pre @ k"] assms(2) by auto
  with assms(3) show ?thesis
    by (simp add: Sub_NextKey_def addTreePrefix_def stripTreePrefix_def slice_upto_def)
qed

theorem subtree_next_short_key_witness:
  "Sub_NextKey demo_tree [2, 2] [1] two_tr = Inl IndexRange"
  by (rule subtree_next_short_key [of _ 1 _ two_kvs _ _ "[3]"])
    (simp_all add: tr_map_def two_tr_inv [simplified] demo_tree_ok al_next_def)

end
