(* ===== verification/IbStore.thy ===== *)
theory IbStore
  imports IbNode
begin

text \<open>
  Saving and loading nodes: the generated serialisation of \<^verbatim>\<open>NodeData\<close>
  (src/ibtree/ibtree\_greenpack\_gen.go), its framing in a typed block (src/ibtree/nodedata.go),
  \<^verbatim>\<open>CommitTo\<close> and the leaf-first iteration (src/ibtree/ibtree.go), and the in-memory
  \<^verbatim>\<open>DummyBackend\<close> (src/ibtree/dummybackend.go).

  The locale \<open>node_store\<close> is what \<^verbatim>\<open>CommitTo\<close> needs of a \<^verbatim>\<open>TreeSaver\<close> and \<^verbatim>\<open>TreeLoader\<close>: nodes
  are addressed by their content and what has been saved stays readable. In it, a committed
  tree reads the same from its root id as the tree in memory did. The \<^verbatim>\<open>DummyBackend\<close> is its
  interpretation, for a hash function without collisions on the nodes that are saved.
\<close>

section \<open>Generated serialisation\<close>

definition NodeDataChild_MarshalMsg :: "'n msgp_lib \<Rightarrow> ndchild \<Rightarrow> gostring \<Rightarrow> gostring" where
  "NodeDataChild_MarshalMsg L z b =
     (let b = b @ [0x92];
          b = AppendString L b (Key z)
      in AppendString L b (Value z))"

definition NodeData_MarshalMsg :: "'n msgp_lib \<Rightarrow> nodedata \<Rightarrow> gostring \<Rightarrow> gostring" where
  "NodeData_MarshalMsg L z b =
     (let b = b @ [0x92];
          b = AppendBool L b (fst z);
          b = AppendArrayHeader L b (len32 (snd z))
      in foldl (\<lambda>b c.
           let b = b @ [0x92];
               b = AppendString L b (Key c)
           in AppendString L b (Value c)) b (snd z))"

definition NodeDataChild_body :: "'n msgp_lib \<Rightarrow> ('n, ndchild) rd" where
  "NodeDataChild_body L =
     rbind (expect_array L 2) (\<lambda>_.
     rbind (ReadStringBytes L) (\<lambda>k.
     rbind (ReadStringBytes L) (\<lambda>v. rret (NodeDataChild k v None))))"

definition NodeDataChild_UnmarshalMsg :: "'n msgp_lib \<Rightarrow> gostring \<Rightarrow> msg_err + ndchild \<times> gostring" where
  "NodeDataChild_UnmarshalMsg L bts = unmarshal_top L (NodeDataChild_body L) bts"

text \<open>The target of \<^verbatim>\<open>UnmarshalMsg\<close> is a fresh \<^verbatim>\<open>NodeData\<close>, as in both its callers, so every
  child pointer is nil before it is read. A nil on the wire leaves the pointer nil.\<close>

definition NodeData_UnmarshalMsg ::
  "'n msgp_lib \<Rightarrow> gostring \<Rightarrow> msg_err + (bool \<times> ndchild option list) \<times> gostring" where
  "NodeData_UnmarshalMsg L bts =
     unmarshal_top L
       (rbind (expect_array L 2) (\<lambda>_.
        rbind (ReadBoolBytes L) (\<lambda>leafy. \<lambda>(n, bts).
          if AlwaysNil L n then rret (leafy, []) (n, bts)
          else
            rbind (ReadArrayHeaderBytes L) (\<lambda>k.
            rbind (rtimes (unat k) (\<lambda>(n, bts).
                     if PeekNil L n bts then rbind (ReadNilBytes L) (\<lambda>_. rret None) (n, bts)
                     else rbind (NodeDataChild_body L) (\<lambda>c. rret (Some c)) (n, bts))) (\<lambda>cs.
            rret (leafy, cs))) (n, bts)))) bts"

section \<open>Typed blocks\<close>

definition BDT_NODE :: byte where "BDT_NODE = 7"

text \<open>The buffer has room for \<^verbatim>\<open>Msgsize\<close> bytes behind the type byte and is serialised into in
  place; an encoding that were longer than \<^verbatim>\<open>Msgsize\<close> would be sliced beyond the buffer.\<close>

definition ToBytes :: "'n msgp_lib \<Rightarrow> nodedata \<Rightarrow> gostring res" where
  "ToBytes L nd =
     (let b = NodeData_MarshalMsg L nd []
      in if int (length b) \<le> NodeData_Msgsize (sizes L) nd then Inr (BDT_NODE # b) else Inl IndexRange)"

text \<open>A child pointer that was read as nil makes every later use of the node panic; the model
  has no nil children and reports that panic here.\<close>

definition nodedata_of :: "msg_err + (bool \<times> ndchild option list) \<times> gostring \<Rightarrow> nodedata res" where
  "nodedata_of r =
     (case r of
        Inl e \<Rightarrow> Inl (PanicMsg e)
      | Inr ((leafy, cs), rest) \<Rightarrow>
          (if None \<in> set cs then Inl NilPointer else Inr (leafy, map the cs)))"

definition NewNodeDataFromBytes :: "'n msgp_lib \<Rightarrow> gostring \<Rightarrow> nodedata option res" where
  "NewNodeDataFromBytes L bd =
     bindE (arr_get bd 0) (\<lambda>dt.
       if dt \<noteq> BDT_NODE then Inr None
       else bindE (nodedata_of (NodeData_UnmarshalMsg L (tl bd))) (\<lambda>nd. Inr (Some nd)))"

section \<open>Committing\<close>

fun CommitTo :: "(nodedata \<Rightarrow> 's \<Rightarrow> (gostring \<times> 's) res) \<Rightarrow> node \<Rightarrow> 's \<Rightarrow> ((node \<times> gostring) \<times> 's) res"
and commitChildren ::
  "(nodedata \<Rightarrow> 's \<Rightarrow> (gostring \<times> 's) res) \<Rightarrow> ndchild list \<Rightarrow> 's \<Rightarrow> (ndchild list \<times> 's) res" where
  "CommitTo save (Node leafy cs (Some bid)) s = Inr ((Node leafy cs (Some bid), bid), s)"
| "CommitTo save (Node leafy cs None) s =
     bindE (if leafy then Inr (cs, s) else commitChildren save cs s) (\<lambda>(cl, s1).
     bindE (save (leafy, cl) s1) (\<lambda>(bid, s2).
     bindE (slice_upto bid 10) (\<lambda>_.
       Inr ((Node leafy cl (Some bid), bid), s2))))"
| "commitChildren save [] s = Inr ([], s)"
| "commitChildren save (NodeDataChild k v None # cs) s =
     bindE (commitChildren save cs s) (\<lambda>(cl, s1). Inr (NodeDataChild k v None # cl, s1))"
| "commitChildren save (NodeDataChild k v (Some m) # cs) s =
     bindE (CommitTo save m s) (\<lambda>((n, bid), s1).
     bindE (commitChildren save cs s1) (\<lambda>(cl, s2). Inr (NodeDataChild k bid None # cl, s2)))"

text \<open>The nodes in memory in the order of \<^verbatim>\<open>iterateLeafFirst\<close>, and its two uses.\<close>

fun iterateLeafFirst :: "node \<Rightarrow> node list"
and iterateChildren :: "ndchild list \<Rightarrow> node list" where
  "iterateLeafFirst (Node leafy cs bid) = iterateChildren cs @ [Node leafy cs bid]"
| "iterateChildren [] = []"
| "iterateChildren (NodeDataChild k v None # cs) = iterateChildren cs"
| "iterateChildren (NodeDataChild k v (Some m) # cs) = iterateLeafFirst m @ iterateChildren cs"

definition checkTreeStructure :: "node \<Rightarrow> unit res" where
  "checkTreeStructure n = bindE (mapE CheckNodeStructure (iterateLeafFirst n)) (\<lambda>_. Inr ())"

definition nestedNodeCount :: "node \<Rightarrow> int" where
  "nestedNodeCount n = foldl (\<lambda>cnt m. cnt + 1) 0 (iterateLeafFirst n)"

section \<open>DummyBackend\<close>

record dummyBackend =
  h2nd :: "gostring \<Rightarrow> gostring option"
  loads :: int
  saves :: int

definition Dummy_Init :: dummyBackend where
  "Dummy_Init = \<lparr>h2nd = Map.empty, loads = 0, saves = 0\<rparr>"

definition Dummy_LoadNode :: "'n msgp_lib \<Rightarrow> gostring \<Rightarrow> dummyBackend \<Rightarrow> (nodedata \<times> dummyBackend) res" where
  "Dummy_LoadNode L bid s =
     bindE (nodedata_of (NodeData_UnmarshalMsg L (case h2nd s bid of None \<Rightarrow> [] | Some b \<Rightarrow> b)))
       (\<lambda>nd. Inr (nd, s\<lparr>loads := loads s + 1\<rparr>))"

definition Dummy_SaveNode ::
  "'n msgp_lib \<Rightarrow> (gostring \<Rightarrow> gostring) \<Rightarrow> nodedata \<Rightarrow> dummyBackend \<Rightarrow> (gostring \<times> dummyBackend) res" where
  "Dummy_SaveNode L sha nd s =
     (let b = NodeData_MarshalMsg L nd [];
          bid = sha b;
          s1 = s\<lparr>h2nd := (h2nd s)(bid \<mapsto> b)\<rparr>
      in bindE (CheckNodeStructure (Node (fst nd) (snd nd) None)) (\<lambda>_. Inr (bid, s1)))"


section \<open>Round trips\<close>

definition child_enc :: "'n msgp_lib \<Rightarrow> ndchild \<Rightarrow> gostring" where
  "child_enc L c = 0x92 # AppendString L [] (Key c) @ AppendString L [] (Value c)"

text \<open>A node that can be written: its lengths fit the headers and its children are not in memory.\<close>

definition short_child :: "ndchild \<Rightarrow> bool" where
  "short_child c \<longleftrightarrow> short (Key c) \<and> short (Value c)"

definition plain_data :: "nodedata \<Rightarrow> bool" where
  "plain_data nd \<longleftrightarrow> short (snd nd) \<and> (\<forall>c \<in> set (snd nd). short_child c \<and> childNode c = None)"

lemma NodeDataChild_MarshalMsg_eq:
  "msgp_ok L \<Longrightarrow> NodeDataChild_MarshalMsg L c b = b @ child_enc L c"
  by (simp add: NodeDataChild_MarshalMsg_def child_enc_def msgp_append Let_def)

lemma NodeData_MarshalMsg_eq:
  assumes "msgp_ok L"
  shows "NodeData_MarshalMsg L nd b =
    b @ 0x92 # AppendBool L [] (fst nd) @ AppendArrayHeader L [] (len32 (snd nd)) @ concat (map (child_enc L) (snd nd))"
proof -
  have "foldl (\<lambda>b c. let b = b @ [0x92]; b = AppendString L b (Key c) in AppendString L b (Value c)) a cs
      = a @ concat (map (child_enc L) cs)" for a cs
    by (induction cs arbitrary: a) (simp_all add: child_enc_def msgp_append [OF assms] Let_def)
  then show ?thesis by (simp add: NodeData_MarshalMsg_def msgp_append [OF assms] Let_def)
qed

lemma NodeDataChild_body_ok:
  assumes "msgp_ok L" "\<not> AlwaysNil L n" "short_child c"
  shows "NodeDataChild_body L (n, child_enc L c @ r) = Inr (NodeDataChild (Key c) (Value c) None, n, r)"
  using assms by (simp add: NodeDataChild_body_def child_enc_def expect_array_ok msgp_read short_child_def)

lemma NodeData_roundtrip:
  assumes "msgp_ok L" "plain_data nd"
  shows "NodeData_UnmarshalMsg L (NodeData_MarshalMsg L nd [] @ r) = Inr ((fst nd, map Some (snd nd)), r)"
proof -
  let ?child = "\<lambda>(n, bts). if PeekNil L n bts then rbind (ReadNilBytes L) (\<lambda>_. rret None) (n, bts)
    else rbind (NodeDataChild_body L) (\<lambda>c. rret (Some c)) (n, bts)"
  note live = msgp_nil(3) [OF assms(1)]
  have child: "?child (nbs_Init L, child_enc L c @ r) = Inr (Some c, nbs_Init L, r)" if "c \<in> set (snd nd)" for c r
  proof -
    have "childNode c = None" "short_child c" using that assms(2) by (auto simp: plain_data_def)
    then have "NodeDataChild (Key c) (Value c) None = c" "short_child c" by (cases c, simp)+
    moreover have "\<not> PeekNil L (nbs_Init L) (child_enc L c @ r)"
      using live by (simp add: msgp_nil [OF assms(1)] child_enc_def)
    ultimately show ?thesis using NodeDataChild_body_ok [OF assms(1) live, of c r] by simp
  qed
  have loop: "rtimes (length (snd nd)) ?child (nbs_Init L, concat (map (child_enc L) (snd nd)) @ r) =
      Inr (map Some (snd nd), nbs_Init L, r)"
    by (rule rtimes_ok) (rule child)
  have "unat (len32 (snd nd)) = length (snd nd)" using assms(2) by (simp add: plain_data_def unat_len32)
  then show ?thesis
    unfolding NodeData_UnmarshalMsg_def
    using live loop
    by (intro unmarshal_top_ok [OF assms(1)])
      (simp_all add: NodeData_MarshalMsg_eq [OF assms(1)] expect_array_ok [OF assms(1)] msgp_read [OF assms(1)])
qed

lemma child_enc_bound:
  "msgp_ok L \<Longrightarrow> short_child c \<Longrightarrow> int (length (child_enc L c)) \<le> NodeDataChild_Msgsize (sizes L) c"
  using msgp_bound(4) [of L "Key c"] msgp_bound(4) [of L "Value c"]
  by (simp add: child_enc_def NodeDataChild_Msgsize_def short_child_def)

lemma NodeData_MarshalMsg_bound:
  assumes "msgp_ok L" "\<forall>c \<in> set (snd nd). short_child c"
  shows "int (length (NodeData_MarshalMsg L nd [])) \<le> NodeData_Msgsize (sizes L) nd"
proof -
  have "int (length (concat (map (child_enc L) cs))) \<le> (\<Sum>c \<leftarrow> cs. NodeDataChild_Msgsize (sizes L) c)"
    if "\<forall>c \<in> set cs. short_child c" for cs
    using that
  proof (induction cs)
    case (Cons c cs)
    then show ?case using child_enc_bound [OF assms(1), of c] by simp
  qed simp
  from this [OF assms(2)] msgp_bound(1,2) [OF assms(1)] show ?thesis
    by (simp add: NodeData_MarshalMsg_eq [OF assms(1)] NodeData_Msgsize_sum add_mono)
qed

lemma ToBytes_roundtrip:
  assumes "msgp_ok L" "plain_data nd"
  shows "\<exists>b. ToBytes L nd = Inr b \<and> NewNodeDataFromBytes L b = Inr (Some nd)"
proof -
  have b: "ToBytes L nd = Inr (BDT_NODE # NodeData_MarshalMsg L nd [])"
    using NodeData_MarshalMsg_bound [OF assms(1), of nd] assms(2) by (simp add: ToBytes_def plain_data_def)
  have "NodeData_UnmarshalMsg L (NodeData_MarshalMsg L nd []) = Inr ((fst nd, map Some (snd nd)), [])"
    using NodeData_roundtrip [OF assms, of "[]"] by simp
  with b show ?thesis by (auto simp: NewNodeDataFromBytes_def nodedata_of_def)
qed


section \<open>What committing writes\<close>

text \<open>With ids determined by the content, \<open>node_id\<close> is the id a node will have, \<open>saved\<close> its
  children as they are written, and \<open>written\<close> the data that \<^verbatim>\<open>CommitTo\<close> saves.\<close>

fun node_id :: "(nodedata \<Rightarrow> gostring) \<Rightarrow> node \<Rightarrow> gostring"
and saved :: "(nodedata \<Rightarrow> gostring) \<Rightarrow> ndchild list \<Rightarrow> ndchild list" where
  "node_id H (Node leafy cs (Some b)) = b"
| "node_id H (Node leafy cs None) = H (leafy, if leafy then cs else saved H cs)"
| "saved H [] = []"
| "saved H (NodeDataChild k v None # cs) = NodeDataChild k v None # saved H cs"
| "saved H (NodeDataChild k v (Some m) # cs) = NodeDataChild k (node_id H m) None # saved H cs"

fun written :: "(nodedata \<Rightarrow> gostring) \<Rightarrow> node \<Rightarrow> nodedata list"
and written_below :: "(nodedata \<Rightarrow> gostring) \<Rightarrow> ndchild list \<Rightarrow> nodedata list" where
  "written H (Node leafy cs (Some b)) = []"
| "written H (Node leafy cs None) =
     (if leafy then [] else written_below H cs) @ [(leafy, if leafy then cs else saved H cs)]"
| "written_below H [] = []"
| "written_below H (NodeDataChild k v None # cs) = written_below H cs"
| "written_below H (NodeDataChild k v (Some m) # cs) = written H m @ written_below H cs"

text \<open>A node in memory that has an id is what is stored under it.\<close>

definition kept :: "(gostring \<Rightarrow> nodedata option) \<Rightarrow> node \<Rightarrow> bool" where
  "kept load n \<longleftrightarrow>
     (\<forall>m \<in> set (iterateLeafFirst n). \<forall>b. blockId m = Some b \<longrightarrow> load b = Some (Leafy m, Children m))"

abbreviation loading :: "tree \<Rightarrow> (gostring \<Rightarrow> nodedata option) \<Rightarrow> tree" where
  "loading t load \<equiv> t\<lparr>backend := Some load\<rparr>"

lemma resolve_mono:
  assumes "\<forall>x d. load x = Some d \<longrightarrow> load' x = Some d" "resolve (loading t load) c = Some m"
  shows "resolve (loading t load') c = Some m"
  using assms by (auto simp: resolve_def split: option.splits)

lemma loading_mono:
  assumes "\<forall>x d. load x = Some d \<longrightarrow> load' x = Some d"
  shows "wfn (loading t load) h n \<Longrightarrow>
    wfn (loading t load') h n \<and> contents (loading t load') h n = contents (loading t load) h n"
proof (induction h arbitrary: n)
  case (Suc h)
  have c: "\<exists>m. resolve (loading t load') c = Some m \<and> wfn (loading t load') h m \<and> Children m \<noteq> [] \<and>
      Key c = Key (hd (Children m)) \<and> resolve (loading t load) c = Some m \<and>
      contents (loading t load') h m = contents (loading t load) h m \<and> length (Value c) \<le> length (placeholderValue t)"
    if "c \<in> set (Children n)" for c
    using Suc that resolve_mono [OF assms] by fastforce
  then have "concat (map (\<lambda>c. case resolve (loading t load') c of None \<Rightarrow> [] | Some m \<Rightarrow> contents (loading t load') h m) cs) =
      concat (map (\<lambda>c. case resolve (loading t load) c of None \<Rightarrow> [] | Some m \<Rightarrow> contents (loading t load) h m) cs)"
    if "set cs \<subseteq> set (Children n)" for cs
    using that by (induction cs) fastforce+
  then show ?case using c Suc.prems by fastforce
qed (simp_all)

definition saved_child :: "(nodedata \<Rightarrow> gostring) \<Rightarrow> ndchild \<Rightarrow> ndchild" where
  "saved_child H c =
     NodeDataChild (Key c) (case childNode c of None \<Rightarrow> Value c | Some m \<Rightarrow> node_id H m) None"

lemma saved_map: "saved H cs = map (saved_child H) cs"
proof (induction cs)
  case (Cons c cs)
  then show ?case by (cases c; cases "childNode c") (auto simp: saved_child_def)
qed simp

lemma iterateLeafFirst_child:
  "c \<in> set cs \<Longrightarrow> childNode c = Some m \<Longrightarrow> set (iterateLeafFirst m) \<subseteq> set (iterateChildren cs)"
proof (induction cs)
  case (Cons c' cs)
  then show ?case by (cases c'; cases "childNode c'") auto
qed simp

lemma kept_mono: "kept load n \<Longrightarrow> \<forall>x d. load x = Some d \<longrightarrow> load' x = Some d \<Longrightarrow> kept load' n"
  by (simp add: kept_def)

text \<open>A child before and after it is written: the same key and the same entries below.\<close>

definition same_below_child :: "tree \<Rightarrow> nat \<Rightarrow> ndchild \<Rightarrow> tree \<Rightarrow> ndchild \<Rightarrow> bool" where
  "same_below_child t h c t' c' \<longleftrightarrow> Key c' = Key c \<and> wfc t' h c' \<and> ccont t' h c' = ccont t h c"

lemma same_below_child_mono:
  assumes "same_below_child t0 h c (loading t load) c'" "\<forall>x d. load x = Some d \<longrightarrow> load' x = Some d"
  shows "same_below_child t0 h c (loading t load') c'"
proof (cases h)
  case 0
  then show ?thesis using assms(1) by (simp add: same_below_child_def wfc_def ccont_def)
next
  case (Suc d)
  from assms(1) obtain m where m: "resolve (loading t load) c' = Some m" "wfn (loading t load) d m"
    and rest: "Children m \<noteq> []" "Key c' = Key (hd (Children m))" "Key c' = Key c" "length (Value c') \<le> length (placeholderValue t)"
      "contents (loading t load) d m = ccont t0 h c"
    by (auto simp: same_below_child_def wfc_def ccont_def Suc)
  then show ?thesis
    using resolve_mono [OF assms(2) m(1)] loading_mono [OF assms(2) m(2)]
    by (simp add: same_below_child_def wfc_def ccont_def Suc)
qed

lemma wfc_same_below:
  "wfc (loading t load) h c \<Longrightarrow> \<forall>x d. load x = Some d \<longrightarrow> load' x = Some d \<Longrightarrow>
     same_below_child (loading t load) h c (loading t load') c"
  by (rule same_below_child_mono) (simp_all add: same_below_child_def)

text \<open>A node and the node its commit returns: stored under its id, with the same entries.\<close>

definition committed ::
  "('s \<Rightarrow> bool) \<Rightarrow> ('s \<Rightarrow> gostring \<Rightarrow> nodedata option) \<Rightarrow> (nodedata \<Rightarrow> gostring) \<Rightarrow>
    tree \<Rightarrow> nat \<Rightarrow> 's \<Rightarrow> node \<Rightarrow> node \<Rightarrow> 's \<Rightarrow> bool" where
  "committed ok load idof t h s n n' s' \<longleftrightarrow>
     ok s' \<and> (\<forall>x d. load s x = Some d \<longrightarrow> load s' x = Some d) \<and>
     blockId n' = Some (node_id idof n) \<and> load s' (node_id idof n) = Some (Leafy n', Children n') \<and>
     wfn (loading t (load s')) h n' \<and>
     contents (loading t (load s')) h n' = contents (loading t (load s)) h n \<and>
     map Key (Children n') = map Key (Children n)"

section \<open>What committing needs of a store\<close>

locale node_store =
  fixes inv :: "'s \<Rightarrow> bool"
    and load :: "'s \<Rightarrow> gostring \<Rightarrow> nodedata option"
    and save :: "nodedata \<Rightarrow> 's \<Rightarrow> (gostring \<times> 's) res"
    and idof :: "nodedata \<Rightarrow> gostring"
    and storable :: "nodedata \<Rightarrow> bool"
  assumes id_length: "inv s \<Longrightarrow> load s b = Some nd \<Longrightarrow> length b = hashSize"
    and save_law: "inv s \<Longrightarrow> storable nd \<Longrightarrow>
      \<exists>s'. save nd s = Inr (idof nd, s') \<and> inv s' \<and> load s' (idof nd) = Some nd \<and>
        (\<forall>x d. load s x = Some d \<longrightarrow> load s' x = Some d)"
begin

lemma commitChildren_ok:
  assumes node: "\<And>n s. inv s \<Longrightarrow> wfn (loading t (load s)) h n \<Longrightarrow> kept (load s) n \<Longrightarrow>
      \<forall>nd \<in> set (written idof n). storable nd \<Longrightarrow>
      \<exists>n' s'. CommitTo save n s = Inr ((n', node_id idof n), s') \<and> committed inv load idof t h s n n' s'"
    and ph: "length (placeholderValue t) = hashSize"
  shows "inv s \<Longrightarrow> \<forall>c \<in> set cs. wfc (loading t (load s)) (Suc h) c \<Longrightarrow>
      \<forall>c \<in> set cs. \<forall>m. childNode c = Some m \<longrightarrow> kept (load s) m \<Longrightarrow>
      \<forall>nd \<in> set (written_below idof cs). storable nd \<Longrightarrow>
      \<exists>s'. commitChildren save cs s = Inr (map (saved_child idof) cs, s') \<and> inv s' \<and>
        (\<forall>x d. load s x = Some d \<longrightarrow> load s' x = Some d) \<and>
        (\<forall>c \<in> set cs. same_below_child (loading t (load s)) (Suc h) c (loading t (load s')) (saved_child idof c))"
proof (induction cs arbitrary: s)
  case (Cons c cs)
  obtain k v p where c: "c = NodeDataChild k v p" by (cases c)
  have wc: "wfc (loading t (load s)) (Suc h) c" using Cons.prems by simp
  show ?case
  proof (cases p)
    case None
    have sc: "saved_child idof c = c" by (simp add: c None saved_child_def)
    obtain s' where s': "commitChildren save cs s = Inr (map (saved_child idof) cs, s')" "inv s'"
        "\<forall>x d. load s x = Some d \<longrightarrow> load s' x = Some d"
        "\<forall>c \<in> set cs. same_below_child (loading t (load s)) (Suc h) c (loading t (load s')) (saved_child idof c)"
      using Cons.IH [of s] Cons.prems by (auto simp: c None)
    have "same_below_child (loading t (load s)) (Suc h) c (loading t (load s')) (saved_child idof c)"
      unfolding sc by (rule wfc_same_below [OF wc s'(3)])
    then show ?thesis using s' sc by (simp add: c None)
  next
    case (Some m)
    have r: "resolve (loading t (load s)) c = Some m" by (simp add: c Some resolve_def)
    then have wm: "wfn (loading t (load s)) h m" "Children m \<noteq> []" "k = Key (hd (Children m))"
      "ccont (loading t (load s)) (Suc h) c = contents (loading t (load s)) h m"
      using wc by (auto simp: wfc_def ccont_def c)
    obtain n' s1 where n': "CommitTo save m s = Inr ((n', node_id idof m), s1)" and cm: "committed inv load idof t h s m n' s1"
      using node [OF Cons.prems(1) wm(1)] Cons.prems by (auto simp: c Some)
    have s1: "inv s1" "\<forall>x d. load s x = Some d \<longrightarrow> load s1 x = Some d" using cm by (simp_all add: committed_def)
    have w1: "\<forall>c \<in> set cs. wfc (loading t (load s1)) (Suc h) c"
      using wfc_same_below [OF _ s1(2)] Cons.prems(2) by (simp add: same_below_child_def)
    have k1: "\<forall>c \<in> set cs. \<forall>m. childNode c = Some m \<longrightarrow> kept (load s1) m"
      using Cons.prems(3) kept_mono [OF _ s1(2)] by simp
    obtain s2 where s2: "commitChildren save cs s1 = Inr (map (saved_child idof) cs, s2)" "inv s2"
        "\<forall>x d. load s1 x = Some d \<longrightarrow> load s2 x = Some d"
        "\<forall>c \<in> set cs. same_below_child (loading t (load s1)) (Suc h) c (loading t (load s2)) (saved_child idof c)"
      using Cons.IH [OF s1(1) w1 k1] Cons.prems(4) by (auto simp: c Some)
    have sc: "saved_child idof c = NodeDataChild k (node_id idof m) None" by (simp add: c Some saved_child_def)
    have n'_eq: "Node (Leafy n') (Children n') (Some (node_id idof m)) = n'"
      using cm by (cases n') (simp add: committed_def)
    have mk: "map Key (Children n') = map Key (Children m)" using cm by (simp add: committed_def)
    then have ne: "Children n' \<noteq> []" using wm(2) by force
    then have keys: "Children n' \<noteq> []" "Key (hd (Children n')) = k"
      using wm(2,3) arg_cong [OF mk, of hd] by (simp_all add: hd_map)
    have "same_below_child (loading t (load s)) (Suc h) c (loading t (load s1)) (saved_child idof c)"
      unfolding same_below_child_def wm(4)
    proof (intro conjI)
      have r1: "resolve (loading t (load s1)) (saved_child idof c) = Some n'"
        using cm n'_eq by (simp add: sc resolve_def committed_def)
      show "wfc (loading t (load s1)) (Suc h) (saved_child idof c)"
        using cm keys r1 id_length [OF s1(1), of "node_id idof m"] ph
        by (simp add: wfc_def committed_def) (simp add: sc)
      show "ccont (loading t (load s1)) (Suc h) (saved_child idof c) = contents (loading t (load s)) h m"
        using cm r1 by (simp add: ccont_def committed_def)
    qed (simp add: saved_child_def)
    then have first: "same_below_child (loading t (load s)) (Suc h) c (loading t (load s2)) (saved_child idof c)"
      by (rule same_below_child_mono [OF _ s2(3)])
    have "ccont (loading t (load s1)) (Suc h) x = ccont (loading t (load s)) (Suc h) x" if "x \<in> set cs" for x
      using wfc_same_below [OF _ s1(2), of t "Suc h" x] Cons.prems(2) that by (simp add: same_below_child_def)
    then have "\<forall>c \<in> set cs. same_below_child (loading t (load s)) (Suc h) c (loading t (load s2)) (saved_child idof c)"
      using s2(4) by (simp add: same_below_child_def)
    then show ?thesis using n' s2 s1 first by (simp add: c Some sc [unfolded c Some])
  qed
qed simp

lemma CommitTo_ok:
  assumes ph: "length (placeholderValue t) = hashSize"
  shows "inv s \<Longrightarrow> wfn (loading t (load s)) h n \<Longrightarrow> kept (load s) n \<Longrightarrow>
    \<forall>nd \<in> set (written idof n). storable nd \<Longrightarrow>
    \<exists>n' s'. CommitTo save n s = Inr ((n', node_id idof n), s') \<and> committed inv load idof t h s n n' s'"
proof (induction h arbitrary: n s)
  case 0
  obtain l cs b where n: "n = Node l cs b" by (cases n)
  show ?case
  proof (cases b)
    case None
    have l: l using 0 by (simp add: n)
    then obtain s' where s': "save (l, cs) s = Inr (idof (l, cs), s')" "inv s'" "load s' (idof (l, cs)) = Some (l, cs)"
        "\<forall>x d. load s x = Some d \<longrightarrow> load s' x = Some d"
      using save_law [OF 0(1), of "(l, cs)"] 0(4) by (auto simp: n None)
    then show ?thesis using l 0(2) id_length [OF s'(2,3)]
      by (auto simp: n None committed_def slice_upto_def hashSize_def)
  next
    case (Some x)
    then show ?thesis using 0 by (auto simp: n committed_def kept_def)
  qed
next
  case (Suc h)
  obtain l cs b where n: "n = Node l cs b" by (cases n)
  show ?case
  proof (cases b)
    case None
    have l: "\<not> l" and wf: "\<forall>c \<in> set cs. wfc (loading t (load s)) (Suc h) c" using Suc.prems(2) by (simp_all add: n wfn_eq)
    have k: "\<forall>c \<in> set cs. \<forall>m. childNode c = Some m \<longrightarrow> kept (load s) m"
      using Suc.prems(3) iterateLeafFirst_child by (fastforce simp: n None kept_def)
    obtain s1 where s1: "commitChildren save cs s = Inr (map (saved_child idof) cs, s1)" "inv s1"
        "\<forall>x d. load s x = Some d \<longrightarrow> load s1 x = Some d"
        "\<forall>c \<in> set cs. same_below_child (loading t (load s)) (Suc h) c (loading t (load s1)) (saved_child idof c)"
      using commitChildren_ok [OF Suc.IH ph Suc.prems(1) wf k] Suc.prems(4) l by (fastforce simp: n None)
    let ?nd = "(False, map (saved_child idof) cs)"
    obtain s2 where s2: "save ?nd s1 = Inr (idof ?nd, s2)" "inv s2" "load s2 (idof ?nd) = Some ?nd"
        "\<forall>x d. load s1 x = Some d \<longrightarrow> load s2 x = Some d"
      using save_law [OF s1(2), of ?nd] Suc.prems(4) l by (auto simp: n None saved_map)
    have sb: "\<forall>c \<in> set cs. same_below_child (loading t (load s)) (Suc h) c (loading t (load s2)) (saved_child idof c)"
      using s1(4) same_below_child_mono [OF _ s2(4)] by blast
    then have "concat (map (ccont (loading t (load s2)) (Suc h)) (map (saved_child idof) cs)) =
        concat (map (ccont (loading t (load s)) (Suc h)) cs)"
      by (induction cs) (auto simp: same_below_child_def)
    moreover have "node_id idof n = idof ?nd" using l by (simp add: n None saved_map)
    ultimately have "committed inv load idof t (Suc h) s n (Node False (map (saved_child idof) cs) (Some (idof ?nd))) s2"
      using sb s1(3) s2 l
      by (auto simp: committed_def contents_eq wfn_eq same_below_child_def n saved_child_def)
    moreover have "CommitTo save n s = Inr ((Node False (map (saved_child idof) cs) (Some (idof ?nd)), node_id idof n), s2)"
      using s1(1) s2(1) id_length [OF s2(2,3)] l by (simp add: n None saved_map slice_upto_def hashSize_def)
    ultimately show ?thesis by blast
  next
    case (Some x)
    then show ?thesis using Suc.prems by (auto simp: n committed_def kept_def)
  qed
qed

end

section \<open>DummyBackend is such a store\<close>

definition dummy_load :: "'n msgp_lib \<Rightarrow> dummyBackend \<Rightarrow> gostring \<Rightarrow> nodedata option" where
  "dummy_load L s bid = (case Dummy_LoadNode L bid s of Inl e \<Rightarrow> None | Inr (nd, s') \<Rightarrow> Some nd)"

definition dummy_inv :: "'n msgp_lib \<Rightarrow> (gostring \<Rightarrow> gostring) \<Rightarrow> gostring set \<Rightarrow> dummyBackend \<Rightarrow> bool" where
  "dummy_inv L sha S s \<longleftrightarrow>
     msgp_ok L \<and> (\<forall>b. length (sha b) = hashSize) \<and> inj_on sha S \<and>
     (\<forall>x b. h2nd s x = Some b \<longrightarrow> x = sha b \<and> b \<in> S)"

definition dummy_id :: "'n msgp_lib \<Rightarrow> (gostring \<Rightarrow> gostring) \<Rightarrow> nodedata \<Rightarrow> gostring" where
  "dummy_id L sha nd = sha (NodeData_MarshalMsg L nd [])"

definition dummy_fits :: "'n msgp_lib \<Rightarrow> gostring set \<Rightarrow> nodedata \<Rightarrow> bool" where
  "dummy_fits L S nd \<longleftrightarrow> plain_data nd \<and> NodeData_MarshalMsg L nd [] \<in> S"

definition dummy_storable :: "'n msgp_lib \<Rightarrow> gostring set \<Rightarrow> nodedata \<Rightarrow> bool" where
  "dummy_storable L S nd \<longleftrightarrow> dummy_fits L S nd \<and> CheckNodeStructure (Node (fst nd) (snd nd) None) = Inr ()"

text \<open>The keys of the nodes that are written are in order, because those of the tree are.\<close>

lemma CheckNodeStructure_keys: "map Key cs = map Key cs' \<Longrightarrow> CheckNodeStructure_loop p cs = CheckNodeStructure_loop p cs'"
proof (induction p cs arbitrary: cs' rule: CheckNodeStructure_loop.induct)
  case (2 p c cs)
  then obtain c' ds where "cs' = c' # ds" "Key c = Key c'" "map Key cs = map Key ds" by auto
  with "2.IH" show ?case by (simp split: option.split)
qed simp

lemma written_below_child:
  "nd \<in> set (written_below H cs) \<Longrightarrow> \<exists>c \<in> set cs. \<exists>m. childNode c = Some m \<and> nd \<in> set (written H m)"
proof (induction cs)
  case (Cons c cs)
  then show ?case by (cases c; cases "childNode c") auto
qed simp

lemma written_sorted:
  "wfn t d n \<Longrightarrow> ordered (contents t d n) \<Longrightarrow> nd \<in> set (written H n) \<Longrightarrow> CheckNodeStructure_loop None (snd nd) = Inr ()"
proof (induction d arbitrary: n)
  case 0
  obtain l cs b where n: "n = Node l cs b" by (cases n)
  have "nd = (l, cs)" using 0 n by (cases b) auto
  then show ?case using CheckNodeStructure_ok [of cs t 0] 0 n by (simp add: wfn_eq contents_eq del: wfn.simps contents.simps)
next
  case (Suc d)
  obtain l cs b where n: "n = Node l cs b" by (cases n)
  have w: "\<forall>c \<in> set cs. wfc t (Suc d) c" "ordered (concat (map (ccont t (Suc d)) cs))" "\<not> l"
    using Suc.prems n by (simp_all add: wfn_eq contents_eq del: wfn.simps contents.simps)
  consider "nd = (l, saved H cs)" | "nd \<in> set (written_below H cs)" using Suc.prems(3) n w(3) by (cases b) auto
  then show ?case
  proof cases
    case 1
    have "map Key (saved H cs) = map Key cs" by (simp add: saved_map saved_child_def)
    then show ?thesis using 1 CheckNodeStructure_keys [of "saved H cs" cs] CheckNodeStructure_ok [OF w(1,2)] by simp
  next
    case 2
    then obtain c m where c: "c \<in> set cs" "childNode c = Some m" "nd \<in> set (written H m)"
      using written_below_child by blast
    have m: "wfn t d m" "ccont t (Suc d) c = contents t d m" using w(1) c(1,2) by (auto simp: wfc_def resolve_def ccont_def)
    obtain xs ys where "cs = xs @ c # ys" using split_list [OF c(1)] by blast
    then have "ordered (contents t d m)" using w(2) m(2) by (simp add: ordered_append)
    then show ?thesis using Suc.IH [OF m(1) _ c(3)] by blast
  qed
qed

lemma written_storable:
  assumes "wf_tree t d n" "\<forall>nd \<in> set (written H n). dummy_fits L S nd"
  shows "\<forall>nd \<in> set (written H n). dummy_storable L S nd"
proof
  fix nd assume nd: "nd \<in> set (written H n)"
  have "CheckNodeStructure_loop None (snd nd) = Inr ()" using written_sorted [OF _ _ nd] assms(1) unfolding wf_tree_def by blast
  then show "dummy_storable L S nd" using assms(2) nd by (simp add: dummy_storable_def CheckNodeStructure_def)
qed

lemma unmarshal_empty: "msgp_ok L \<Longrightarrow> isl (NodeData_UnmarshalMsg L [])"
  using expect_array_empty [of L "nbs_Init L" 2] msgp_nil [of L]
  by (auto simp: NodeData_UnmarshalMsg_def unmarshal_top_def rbind_def isl_def nil_byte_def split: sum.split)

lemma dummy_load_eq:
  assumes "msgp_ok L"
  shows "dummy_load L s bid =
    (case h2nd s bid of None \<Rightarrow> None
     | Some b \<Rightarrow> (case nodedata_of (NodeData_UnmarshalMsg L b) of Inl e \<Rightarrow> None | Inr nd \<Rightarrow> Some nd))"
proof -
  obtain e where e: "NodeData_UnmarshalMsg L [] = Inl e" using unmarshal_empty [OF assms] by (auto simp: isl_def)
  have "(case bindE m (\<lambda>nd. Inr (nd, z)) of Inl e \<Rightarrow> None | Inr (nd, s') \<Rightarrow> Some nd) =
      (case m of Inl e \<Rightarrow> None | Inr nd \<Rightarrow> Some nd)" for m :: "nodedata res" and z :: dummyBackend
    by (cases m) simp_all
  then show ?thesis using e
    by (simp add: dummy_load_def Dummy_LoadNode_def nodedata_of_def split: option.split)
qed

lemma dummy_marshal_load:
  assumes "msgp_ok L" "plain_data nd"
  shows "nodedata_of (NodeData_UnmarshalMsg L (NodeData_MarshalMsg L nd [])) = Inr nd"
  using NodeData_roundtrip [OF assms, of "[]"] by (simp add: nodedata_of_def image_iff comp_def)

lemma dummy_save_law:
  assumes "dummy_inv L sha S s" "dummy_storable L S nd"
  shows "\<exists>s'. Dummy_SaveNode L sha nd s = Inr (dummy_id L sha nd, s') \<and> dummy_inv L sha S s' \<and>
    dummy_load L s' (dummy_id L sha nd) = Some nd \<and>
    (\<forall>x d. dummy_load L s x = Some d \<longrightarrow> dummy_load L s' x = Some d)"
proof -
  let ?b = "NodeData_MarshalMsg L nd []"
  let ?s = "s\<lparr>h2nd := (h2nd s)(sha ?b \<mapsto> ?b)\<rparr>"
  have ok: "msgp_ok L" and st: "plain_data nd" "?b \<in> S" using assms by (simp_all add: dummy_inv_def dummy_storable_def dummy_fits_def)
  have same: "h2nd s x = Some b' \<Longrightarrow> h2nd ?s x = Some b'" for x b'
    using assms(1) st(2) by (auto simp: dummy_inv_def dest: inj_onD)
  have "dummy_load L ?s x = Some d" if "dummy_load L s x = Some d" for x d
    using that same [of x] by (auto simp: dummy_load_eq [OF ok] simp del: fun_upd_apply split: option.splits)
  moreover have "dummy_inv L sha S ?s" using assms(1) st(2) by (auto simp: dummy_inv_def)
  moreover have "dummy_load L ?s (sha ?b) = Some nd"
    by (simp add: dummy_load_eq [OF ok] dummy_marshal_load [OF ok st(1)])
  moreover have "Dummy_SaveNode L sha nd s = Inr (sha ?b, ?s)"
    using assms(2) by (simp add: Dummy_SaveNode_def dummy_storable_def Let_def)
  ultimately show ?thesis by (auto simp: dummy_id_def)
qed

interpretation dummy: node_store "dummy_inv L sha S" "dummy_load L" "Dummy_SaveNode L sha" "dummy_id L sha"
  "dummy_storable L S" for L sha S
proof unfold_locales
  fix s b nd
  assume a: "dummy_inv L sha S s" "dummy_load L s b = Some nd"
  then have "msgp_ok L" by (simp add: dummy_inv_def)
  with a(2) obtain bs where "h2nd s b = Some bs" by (auto simp: dummy_load_eq split: option.splits)
  with a(1) show "length b = hashSize" by (auto simp: dummy_inv_def)
qed (rule dummy_save_law)

end
