(* ===== verification/IbKept.thy ===== *)
theory IbKept
  imports IbStore IbTree
begin

text \<open>
  Block ids in memory are never stale: every operation of the stack keeps the invariant that a
  node with an id is what the storage holds under that id, because a node that is rewritten loses
  its id. (Nodes are values here; that the code copies a node before it rewrites it, so that other
  holders of the old node do not see the change, is built into the model.) It is what allows
  \<^verbatim>\<open>CommitTo\<close> to skip such nodes (src/ibtree/ibtree.go).
\<close>

section \<open>Committing a transaction\<close>

definition Tr_CommitTo ::
  "(nodedata \<Rightarrow> 's \<Rightarrow> (gostring \<times> 's) res) \<Rightarrow> stack \<Rightarrow> 's \<Rightarrow> ((node \<times> gostring) \<times> 's) res" where
  "Tr_CommitTo save tr s = bindE (Root tr) (\<lambda>r. CommitTo save r s)"

section \<open>The invariant\<close>

definition the_load :: "tree \<Rightarrow> gostring \<Rightarrow> nodedata option" where
  "the_load t = (case backend t of None \<Rightarrow> Map.empty | Some load \<Rightarrow> load)"

text \<open>Loaded nodes have no children in memory.\<close>

definition plain_load :: "(gostring \<Rightarrow> nodedata option) \<Rightarrow> bool" where
  "plain_load load \<longleftrightarrow> (\<forall>b d. load b = Some d \<longrightarrow> (\<forall>c \<in> set (snd d). childNode c = None))"

definition kept_child :: "(gostring \<Rightarrow> nodedata option) \<Rightarrow> ndchild \<Rightarrow> bool" where
  "kept_child load c \<longleftrightarrow> (\<forall>m. childNode c = Some m \<longrightarrow> kept load m)"

definition stack_kept :: "tree \<Rightarrow> stack \<Rightarrow> bool" where
  "stack_kept t st \<longleftrightarrow>
     plain_load (the_load t) \<and> top st < length (nodes st) \<and>
     (\<forall>i < length (nodes st). \<forall>n. nodes st ! i = Some n \<longrightarrow> kept (the_load t) n)"

section \<open>Nodes\<close>

lemma set_iterateChildren:
  "set (iterateChildren cs) = (\<Union>c \<in> set cs. case childNode c of None \<Rightarrow> {} | Some m \<Rightarrow> set (iterateLeafFirst m))"
proof (induction cs)
  case (Cons c cs)
  then show ?case by (cases c; cases "childNode c") auto
qed simp

lemma kept_Node:
  "kept load (Node l cs b) \<longleftrightarrow> (\<forall>x. b = Some x \<longrightarrow> load x = Some (l, cs)) \<and> (\<forall>c \<in> set cs. kept_child load c)"
proof -
  have "(\<forall>m \<in> set (iterateChildren cs). \<forall>b. blockId m = Some b \<longrightarrow> load b = Some (Leafy m, Children m)) \<longleftrightarrow>
      (\<forall>c \<in> set cs. kept_child load c)"
    unfolding set_iterateChildren kept_child_def kept_def by (auto split: option.splits)
  then show ?thesis unfolding kept_def by (simp add: ball_Un)
qed

lemma kept_children: "kept load n \<Longrightarrow> c \<in> set (Children n) \<Longrightarrow> kept_child load c"
  by (cases n) (simp add: kept_Node)

lemma kept_child_None [simp]: "childNode c = None \<Longrightarrow> kept_child load c"
  by (simp add: kept_child_def)

lemma kept_child_Some [simp]: "kept_child load (NodeDataChild k v (Some m)) = kept load m"
  by (simp add: kept_child_def)

lemma stack_kept_node:
  assumes "stack_kept t st" "node st = Inr n"
  shows "kept (the_load t) n"
  using assms by (auto simp: stack_kept_def node_def res_simps)

lemma stack_kept_child:
  "stack_kept t st \<Longrightarrow> node st = Inr n \<Longrightarrow> c \<in> set (Children n) \<Longrightarrow> kept_child (the_load t) c"
  by (rule kept_children [OF stack_kept_node])

lemma stack_kept_top: "stack_kept t st \<Longrightarrow> k < length (nodes st) \<Longrightarrow> stack_kept t (st\<lparr>top := k\<rparr>)"
  by (simp add: stack_kept_def)

section \<open>Elementary steps\<close>

lemma kept_invalidate: "stack_kept t st \<Longrightarrow> stack_kept t (invalidateSubNodes st)"
  by (auto simp: stack_kept_def)

lemma kept_setIndex: "stack_kept t st \<Longrightarrow> stack_kept t (setIndex i st)"
  using kept_invalidate [of t "st\<lparr>indexes := (indexes st)[top st := i]\<rparr>"]
  by (auto simp: setIndex_def stack_kept_def)

lemma kept_nextIndex: "stack_kept t st \<Longrightarrow> stack_kept t (nextIndex st)"
  by (simp add: nextIndex_def kept_setIndex)

lemma kept_update:
  "stack_kept t st \<Longrightarrow> kept (the_load t) n \<Longrightarrow> stack_kept t (st\<lparr>nodes := (nodes st)[i := Some n]\<rparr>)"
  by (cases "i < length (nodes st)") (auto simp: stack_kept_def nth_list_update split: if_splits)

lemma those_set: "those xs = Some ys \<Longrightarrow> y \<in> set ys \<Longrightarrow> Some y \<in> set xs"
proof (induction xs arbitrary: ys)
  case (Cons x xs)
  then show ?case by (cases x) auto
qed simp

lemma rewriteNodeChildren_result:
  assumes "rewriteNodeChildren t cs st = Inr st'"
  obtains n0 xs k where "node st = Inr n0" "those cs = Some xs"
    "st' = invalidateSubNodes (st\<lparr>nodes := (nodes st)[top st := Some (Node (Leafy n0) xs None)]\<rparr>)\<lparr>smallCount := k\<rparr>"
proof -
  from assms obtain n0 xs where n: "node st = Inr n0" "those cs = Some xs"
    by (auto simp: rewriteNodeChildren_def res_simps split: option.splits)
  let ?st = "invalidateSubNodes (st\<lparr>nodes := (nodes st)[top st := Some (Node (Leafy n0) xs None)]\<rparr>)"
  have "st' = ?st \<or> st' = ?st\<lparr>smallCount := smallCount ?st + 1\<rparr>"
    using assms by (auto simp: rewriteNodeChildren_def n res_simps Let_def split: if_splits)
  then have "\<exists>k. st' = ?st\<lparr>smallCount := k\<rparr>" by (elim disjE) (auto intro: exI [of _ "smallCount ?st"])
  then show ?thesis using n that by blast
qed

lemma kept_rewriteNodeChildren:
  assumes "stack_kept t st" "rewriteNodeChildren t cs st = Inr st'" "\<And>c. Some c \<in> set cs \<Longrightarrow> kept_child (the_load t) c"
  shows "stack_kept t st'"
  using assms(2)
proof (rule rewriteNodeChildren_result)
  fix n0 xs k
  assume n: "those cs = Some xs"
    and st': "st' = invalidateSubNodes (st\<lparr>nodes := (nodes st)[top st := Some (Node (Leafy n0) xs None)]\<rparr>)\<lparr>smallCount := k\<rparr>"
  have "kept (the_load t) (Node (Leafy n0) xs None)"
    using assms(3) those_set [OF n] by (auto simp: kept_Node)
  from kept_invalidate [OF kept_update [OF assms(1) this, of "top st"]] show ?thesis
    unfolding st' by (simp add: stack_kept_def)
qed

lemma set_copy_at: "copy_at dst i src = Inr r \<Longrightarrow> x \<in> set r \<Longrightarrow> x \<in> set dst \<or> x \<in> set src"
  by (auto simp: copy_at_def split: if_splits dest: in_set_takeD in_set_dropD)

lemma set_elem_set: "elem_set xs i v = Inr r \<Longrightarrow> x \<in> set r \<Longrightarrow> x = v \<or> x \<in> set xs"
  using set_update_subset_insert [of xs "nat i" v] by (auto simp: elem_set_def split: if_splits)

lemma set_slice_upto: "slice_upto xs i = Inr r \<Longrightarrow> x \<in> set r \<Longrightarrow> x \<in> set xs"
  by (auto simp: slice_upto_def split: if_splits dest: in_set_takeD)

lemma set_slice_from: "slice_from xs i = Inr r \<Longrightarrow> x \<in> set r \<Longrightarrow> x \<in> set xs"
  by (auto simp: slice_from_def split: if_splits dest: in_set_dropD)

lemma set_make_nil: "make_nil n = Inr r \<Longrightarrow> x \<in> set r \<Longrightarrow> x = None"
  by (auto simp: make_nil_def split: if_splits)

lemmas set_moves = set_copy_at set_elem_set set_slice_upto set_slice_from set_make_nil

lemma kept_rewriteCopy:
  assumes "stack_kept t st" "rewriteNodeChildrenWithCopyOf t cs st = Inr st'" "\<And>c. c \<in> set cs \<Longrightarrow> kept_child (the_load t) c"
  shows "stack_kept t st'"
proof -
  obtain c0 c1 where c: "make_nil (int (length cs)) = Inr c0" "copy_at c0 0 (map Some cs) = Inr c1"
      "rewriteNodeChildren t c1 st = Inr st'"
    using assms(2) by (auto simp: rewriteNodeChildrenWithCopyOf_def res_simps)
  show ?thesis
    by (rule kept_rewriteNodeChildren [OF assms(1) c(3)])
      (use set_copy_at [OF c(2)] set_make_nil [OF c(1)] assms(3) in fastforce)
qed

lemma rewriteAtIndex_children:
  assumes "rewriteAtIndex t r c st = Inr st'"
  obtains n cs where "node st = Inr n" "rewriteNodeChildren t cs st = Inr st'"
    "\<And>x. Some x \<in> set cs \<Longrightarrow> x \<in> set (Children n) \<or> c = Some x"
proof -
  from assms obtain n where n: "node st = Inr n" by (auto simp: rewriteAtIndex_def res_simps)
  with assms obtain nl oidx nidx c0 c1 c2 s c3 where c0: "make_nil nl = Inr c0"
    and c1: "(if index st > 0 then bindE (slice_upto (Children n) (index st)) (\<lambda>s. copy_at c0 0 (map Some s)) else Inr c0) = Inr c1"
    and c2: "(case c of None \<Rightarrow> Inr c1 | Some x \<Rightarrow> elem_set c1 (index st) (Some x)) = Inr c2"
    and s: "slice_from (Children n) oidx = Inr s" "copy_at c2 nidx (map Some s) = Inr c3"
    and w: "rewriteNodeChildren t c3 st = Inr st'"
    by (simp add: rewriteAtIndex_def Let_def split: if_splits) (simp only: bindE_eq_Inr; elim exE conjE; blast)+
  have 1: "x \<in> set (Children n)" if "Some x \<in> set c1" for x
  proof (cases "index st > 0")
    case True
    with c1 obtain s where "slice_upto (Children n) (index st) = Inr s" "copy_at c0 0 (map Some s) = Inr c1"
      by (auto simp: res_simps)
    with set_copy_at [OF this(2) that] set_slice_upto [OF this(1)] set_make_nil [OF c0] show ?thesis by auto
  next
    case False
    then show ?thesis using that c1 set_make_nil [OF c0] by auto
  qed
  have 2: "x \<in> set (Children n) \<or> c = Some x" if "Some x \<in> set c2" for x
    using that c2 1 by (auto split: option.splits dest: set_elem_set)
  have "x \<in> set (Children n) \<or> c = Some x" if "Some x \<in> set c3" for x
    using set_copy_at [OF s(2) that] 2 set_slice_from [OF s(1)] by auto
  with n w show ?thesis by (rule that)
qed

lemma kept_rewriteAtIndex:
  assumes "stack_kept t st" "rewriteAtIndex t r c st = Inr st'" "\<And>x. c = Some x \<Longrightarrow> kept_child (the_load t) x"
  shows "stack_kept t st'"
  using assms(2)
proof (rule rewriteAtIndex_children)
  fix n cs
  assume a: "node st = Inr n" "rewriteNodeChildren t cs st = Inr st'"
    "\<And>x. Some x \<in> set cs \<Longrightarrow> x \<in> set (Children n) \<or> c = Some x"
  show ?thesis
    by (rule kept_rewriteNodeChildren [OF assms(1) a(2)]) (use a(3) assms(3) stack_kept_child [OF assms(1) a(1)] in blast)
qed

lemma kept_childNode:
  assumes "stack_kept t st" "Stack_childNode t i st = Inr (Some m)"
  shows "kept (the_load t) m"
proof -
  have loaded: "kept (the_load t) m" if n: "kept (the_load t) n" and l: "Node_childNode t n k = Inr (Some m)" for n k
  proof -
    from l have k: "k < length (Children n)" by (auto simp: Node_childNode_def res_simps)
    have c: "kept_child (the_load t) (Children n ! k)" using kept_children [OF n] k by simp
    show ?thesis
    proof (cases "childNode (Children n ! k)")
      case None
      then obtain load l cs where "backend t = Some load" "load (Value (Children n ! k)) = Some (l, cs)"
          "m = Node l cs (Some (Value (Children n ! k)))"
        using l k by (auto simp: Node_childNode_def split: option.splits)
      then show ?thesis using assms(1) by (fastforce simp: kept_Node stack_kept_def plain_load_def the_load_def)
    next
      case (Some x)
      then show ?thesis using l k c by (auto simp: Node_childNode_def kept_child_def)
    qed
  qed
  from assms(2) obtain n where n: "node st = Inr n" by (auto simp: Stack_childNode_def res_simps)
  show ?thesis
    using assms(2) n loaded [OF stack_kept_node [OF assms(1) n]] assms(1)
    by (auto simp: Stack_childNode_def res_simps stack_kept_def split: if_splits option.splits)
qed

lemma kept_popNode: "stack_kept t st \<Longrightarrow> popNode st = Inr (p, st') \<Longrightarrow> stack_kept t st' \<and> (\<forall>n. p = Some n \<longrightarrow> kept (the_load t) n)"
  by (auto simp: popNode_def stack_kept_def split: if_splits)

lemma kept_pop:
  assumes "stack_kept t st" "pop t st = Inr st'"
  shows "stack_kept t st'"
proof -
  from assms(2) obtain n st1 where n: "popNode st = Inr (Some n, st1)"
    and st': "(case Children n of c0 # _ \<Rightarrow> rewriteAtIndex t True (Some (NodeDataChild (Key c0) (placeholderValue t) (Some n))) st1
         | [] \<Rightarrow> rewriteAtIndex t True None st1) = Inr st'"
    by (auto simp: pop_def res_simps)
  note k = kept_popNode [OF assms(1) n]
  show ?thesis
    using st' k by (cases "Children n") (auto intro: kept_rewriteAtIndex)
qed

lemma kept_push:
  assumes "stack_kept t st" "push i p st = Inr st'" "\<And>n. p = Some n \<Longrightarrow> kept (the_load t) n"
  shows "stack_kept t st'"
proof -
  note k = kept_setIndex [OF assms(1), of i]
  let ?k = "if maxtop (setIndex i st) < Suc (top st) then Suc (top st) else maxtop (setIndex i st)"
  obtain ns where ns: "arr_set (nodes (setIndex i st)) (Suc (top st)) p = Inr ns"
      "st' = setIndex 0 (setIndex i st\<lparr>top := Suc (top st), maxtop := ?k, nodes := ns\<rparr>)"
    using assms(2) by (auto simp: push_def Let_def res_simps split: if_splits)
  then obtain k' where st': "st' = setIndex 0 (setIndex i st\<lparr>top := Suc (top st), maxtop := k', nodes := ns\<rparr>)"
      "arr_set (nodes (setIndex i st)) (Suc (top st)) p = Inr ns" by blast
  have "stack_kept t (setIndex i st\<lparr>top := Suc (top st), maxtop := k', nodes := ns\<rparr>)"
    using k st'(2) assms(3) by (auto simp: stack_kept_def res_simps nth_list_update split: if_splits)
  then show ?thesis unfolding st' by (rule kept_setIndex)
qed

lemma kept_pushIndex: "stack_kept t st \<Longrightarrow> pushIndex t i st = Inr st' \<Longrightarrow> stack_kept t st'"
  by (auto simp: pushIndex_def res_simps intro: kept_push dest: kept_childNode)

section \<open>Walking\<close>

lemma kept_search_loop: "stack_kept t st \<Longrightarrow> search_loop t key st = Inr st' \<Longrightarrow> stack_kept t st'"
proof (induction t key st rule: search_loop.induct)
  case (1 t key st)
  from 1(3) obtain n where n: "node st = Inr n" by (subst (asm) search_loop.simps) (auto simp: res_simps)
  show ?case
  proof (cases "Leafy n")
    case True
    then show ?thesis using 1(2,3) n
      by (subst (asm) search_loop.simps) (auto simp: Let_def intro: kept_setIndex)
  next
    case False
    let ?i0 = "int (sortSearch (\<lambda>i. Key (Children n ! i) > key) 0 (length (Children n))) - 1"
    let ?i = "if ?i0 < 0 then 0 else ?i0"
    obtain m st1 where st1: "Stack_childNode t ?i st = Inr (Some m)" "push ?i (Some m) st = Inr st1"
        "search_loop t key st1 = Inr st'"
      using 1(3) n False by (subst (asm) search_loop.simps) (auto simp: Let_def res_simps split: option.splits)
    have "stack_kept t st1" using kept_push [OF 1(2) st1(2)] kept_childNode [OF 1(2) st1(1)] by simp
    then show ?thesis by (rule 1(1) [OF n refl refl False refl refl st1(1) refl st1(2) _ st1(3)])
  qed
qed

lemma kept_goDownLeft: "stack_kept t st \<Longrightarrow> goDownLeft st = Inr st' \<Longrightarrow> stack_kept t st'"
proof (induction st rule: goDownLeft.induct)
  case (1 st)
  have fd: "\<exists>c \<in> set cs. childNode c = Some cn" if "first_dirty P cs p i = Some (j, cn)" for P cs p i j cn
    using that by (induction P cs p i rule: first_dirty.induct) (auto split: option.splits if_splits)
  obtain n where n: "node st = Inr n" using 1(3) by (subst (asm) goDownLeft.simps) (auto simp: res_simps)
  show ?case
  proof (cases "first_dirty (\<lambda>cn. \<not> Leafy cn) (Children n) 0 0")
    case None
    then show ?thesis using 1(2,3) n by (subst (asm) goDownLeft.simps) simp
  next
    case (Some p)
    obtain j cn where p: "p = (j, cn)" by (cases p)
    with 1(3) n Some obtain st1 where st1: "push (int j) (Some cn) st = Inr st1" "goDownLeft st1 = Inr st'"
      by (subst (asm) goDownLeft.simps) (auto simp: res_simps)
    obtain c where "c \<in> set (Children n)" "childNode c = Some cn" using fd [OF Some [unfolded p]] by blast
    then have "kept (the_load t) cn" using stack_kept_child [OF 1(2) n] by (simp add: kept_child_def)
    then have "stack_kept t st1" using kept_push [OF 1(2) st1(1)] by simp
    then show ?thesis using 1(1) [OF n Some p [symmetric] st1(1)] st1(2) by blast
  qed
qed

lemma kept_goDownLeftAny_loop: "stack_kept t st \<Longrightarrow> goDownLeftAny_loop t i st = Inr st' \<Longrightarrow> stack_kept t st'"
proof (induction t i st rule: goDownLeftAny_loop.induct)
  case (1 t i st)
  from 1(3) obtain n where n: "node st = Inr n" by (subst (asm) goDownLeftAny_loop.simps) (auto simp: res_simps)
  show ?case
  proof (cases "Leafy n")
    case False
    with 1(3) n obtain st1 where st1: "pushIndex t i st = Inr st1" "goDownLeftAny_loop t 0 st1 = Inr st'"
      by (subst (asm) goDownLeftAny_loop.simps) (auto simp: res_simps)
    show ?thesis by (rule 1(1) [OF n False st1(1) kept_pushIndex [OF 1(2) st1(1)] st1(2)])
  qed (use 1(2,3) n in \<open>subst (asm) goDownLeftAny_loop.simps, simp\<close>)
qed

lemma kept_goDownRight_loop: "stack_kept t st \<Longrightarrow> goDownRight_loop t i st = Inr st' \<Longrightarrow> stack_kept t st'"
proof (induction t i st rule: goDownRight_loop.induct)
  case (1 t i st)
  from 1(3) obtain n where n: "node st = Inr n" by (subst (asm) goDownRight_loop.simps) (auto simp: res_simps)
  show ?case
  proof (cases "Leafy n")
    case False
    with 1(3) n obtain st1 n1 where st1: "pushIndex t i st = Inr st1" "node st1 = Inr n1"
        "goDownRight_loop t (int (length (Children n1)) - 1) st1 = Inr st'"
      by (subst (asm) goDownRight_loop.simps) (auto simp: res_simps)
    show ?thesis by (rule 1(1) [OF n False st1(1,2) kept_pushIndex [OF 1(2) st1(1)] st1(3)])
  qed (use 1(2,3) n in \<open>subst (asm) goDownRight_loop.simps, auto intro: kept_setIndex\<close>)
qed

lemma kept_goPreviousLeaf: "stack_kept t st \<Longrightarrow> goPreviousLeaf t st = Inr (b, st') \<Longrightarrow> stack_kept t st'"
proof (induction t st rule: goPreviousLeaf.induct)
  case (1 t st)
  from 1(3) obtain n where n: "node st = Inr n" by (subst (asm) goPreviousLeaf.simps) (auto simp: res_simps)
  show ?case
  proof (cases "index st - 1 \<ge> 0 \<or> top st = 0")
    case True
    then show ?thesis using 1(2,3) n
      by (subst (asm) goPreviousLeaf.simps)
        (auto simp: res_simps Let_def split: if_splits intro: kept_goDownRight_loop kept_setIndex)
  next
    case False
    then obtain p st1 where st1: "popNode st = Inr (p, st1)" "goPreviousLeaf t st1 = Inr (b, st')"
      using 1(3) n by (subst (asm) goPreviousLeaf.simps) (auto simp: res_simps Let_def)
    then show ?thesis using 1(1) [OF n refl _ _ st1(1)] False kept_popNode [OF 1(2) st1(1)] by simp
  qed
qed

lemma kept_goNextLeaf: "stack_kept t st \<Longrightarrow> goNextLeaf t st = Inr (b, st') \<Longrightarrow> stack_kept t st'"
proof (induction t st rule: goNextLeaf.induct)
  case (1 t st)
  from 1(3) obtain n where n: "node st = Inr n" by (subst (asm) goNextLeaf.simps) (auto simp: res_simps)
  show ?case
  proof (cases "index st + 1 < int (length (Children n)) \<or> top st = 0")
    case True
    then show ?thesis using 1(2,3) n
      by (subst (asm) goNextLeaf.simps)
        (auto simp: res_simps Let_def split: if_splits intro: kept_goDownLeftAny_loop kept_setIndex intro!: kept_invalidate)
  next
    case False
    then obtain p st1 where st1: "popNode st = Inr (p, st1)" "goNextLeaf t st1 = Inr (b, st')"
      using 1(3) n by (subst (asm) goNextLeaf.simps) (auto simp: res_simps Let_def)
    then show ?thesis using 1(1) [OF n refl _ _ st1(1)] False kept_popNode [OF 1(2) st1(1)] by simp
  qed
qed

section \<open>Rewriting\<close>

lemma kept_addChildAt:
  "stack_kept t st \<Longrightarrow> kept_child (the_load t) c \<Longrightarrow> addChildAt t c st = Inr st' \<Longrightarrow> stack_kept t st'"
proof (induction t c st rule: addChildAt.induct)
  case (1 t c st)
  from 1(4) obtain st1 nd where st1: "rewriteAtIndex t False (Some c) st = Inr st1" "node st1 = Inr nd"
    by (subst (asm) addChildAt.simps) (auto simp: res_simps)
  have k1: "stack_kept t st1" using kept_rewriteAtIndex [OF 1(2) st1(1)] 1(3) by simp
  show ?case
  proof (cases "Msgsize t nd \<le> NodeMaximumSize t")
    case True
    then show ?thesis using 1(4) st1 k1 by (subst (asm) addChildAt.simps) simp
  next
    case False
    let ?i = "length (Children nd) div 2"
    let ?a = "take ?i (Children nd)" and ?b = "drop ?i (Children nd)"
    from 1(4) st1 False obtain st2 nc0 where st2: "rewriteNodeChildren t (map Some ?a) st1 = Inr st2" "elem_get ?b 0 = Inr nc0"
      by (subst (asm) addChildAt.simps) (auto simp: Let_def res_simps)
    let ?nx = "NodeDataChild (Key nc0) (placeholderValue t) (Some (Node (Leafy nd) ?b None))"
    have k2: "stack_kept t st2"
      by (rule kept_rewriteNodeChildren [OF k1 st2(1)]) (auto dest: in_set_takeD stack_kept_child [OF k1 st1(2)])
    have nx: "kept_child (the_load t) ?nx"
      by (auto simp: kept_Node dest: in_set_dropD stack_kept_child [OF k1 st1(2)])
    show ?thesis
    proof (cases "top st2 > 0")
      case True
      then obtain st3 where st3: "pop t st2 = Inr st3" "addChildAt t ?nx (nextIndex st3) = Inr st'"
        using 1(4) st1 st2 False by (subst (asm) addChildAt.simps) (auto simp: Let_def res_simps)
      show ?thesis
        by (rule 1(1) [OF st1 False refl refl refl st2 refl True st3(1) _ nx st3(2)])
          (rule kept_nextIndex [OF kept_pop [OF k2 st3(1)]])
    next
      case zero: False
      then obtain nd2 mc0 where r: "node st2 = Inr nd2" "st' = invalidateSubNodes (st2\<lparr>nodes := (nodes st2)
          [0 := Some (Node False [NodeDataChild (Key mc0) (placeholderValue t) (Some nd2), ?nx] None)]\<rparr>)"
        using 1(4) st1 st2 False by (subst (asm) addChildAt.simps) (auto simp: Let_def res_simps)
      have "kept (the_load t) (Node False [NodeDataChild (Key mc0) (placeholderValue t) (Some nd2), ?nx] None)"
        using nx stack_kept_node [OF k2 r(1)] by (simp add: kept_Node)
      then show ?thesis unfolding r(2) by (rule kept_invalidate [OF kept_update [OF k2]])
    qed
  qed
qed

text \<open>The remaining operations are taken apart from their first step on.\<close>

named_theorems kept_rules \<open>one step of an operation, for the invariant\<close>

lemmas [kept_rules] = okE_Inl okE_Inr okE_deref okE_if

lemma okE_node [kept_rules]:
  "stack_kept t st \<Longrightarrow> (\<And>n. node st = Inr n \<Longrightarrow> kept (the_load t) n \<Longrightarrow> okE P (f n)) \<Longrightarrow> okE P (bindE (node st) f)"
  using stack_kept_node [of t st] by (auto simp: okE_def res_simps)

lemma okE_child [kept_rules]:
  assumes "stack_kept t st" "\<And>c. (\<And>x. c = Some x \<Longrightarrow> kept_child (the_load t) x) \<Longrightarrow> okE P (f c)"
  shows "okE P (bindE (child st) f)"
proof (rule okE_bind_eq)
  fix c assume "child st = Inr c"
  then show "okE P (f c)"
    by (intro assms(2)) (auto simp: child_def res_simps Let_def split: if_splits intro: stack_kept_child [OF assms(1)])
qed

lemma okE_childNode [kept_rules]:
  "stack_kept t st \<Longrightarrow> (\<And>p. (\<And>m. p = Some m \<Longrightarrow> kept (the_load t) m) \<Longrightarrow> okE P (f p)) \<Longrightarrow> okE P (bindE (Stack_childNode t i st) f)"
  using kept_childNode [of t st i] by (fastforce simp: okE_def res_simps)

lemma okE_push [kept_rules]:
  assumes "stack_kept t st" "\<And>n. p = Some n \<Longrightarrow> kept (the_load t) n" "\<And>st'. stack_kept t st' \<Longrightarrow> okE P (f st')"
  shows "okE P (bindE (push i p st) f)"
  using kept_push [OF assms(1) _ assms(2)] assms(3) by (auto intro!: okE_bind_eq)

lemma okE_pop: "stack_kept t st \<Longrightarrow> okE (stack_kept t) (pop t st)"
  using kept_pop [of t st] by (auto simp: okE_def)

lemma okE_rewriteAtIndex:
  "stack_kept t st \<Longrightarrow> (\<And>x. c = Some x \<Longrightarrow> kept_child (the_load t) x) \<Longrightarrow> okE (stack_kept t) (rewriteAtIndex t r c st)"
  using kept_rewriteAtIndex [of t st] by (auto simp: okE_def)

lemma okE_rewriteNodeChildren:
  "stack_kept t st \<Longrightarrow> (\<And>c. Some c \<in> set cs \<Longrightarrow> kept_child (the_load t) c) \<Longrightarrow> okE (stack_kept t) (rewriteNodeChildren t cs st)"
  using kept_rewriteNodeChildren [of t st] by (auto simp: okE_def)

lemma okE_rewriteCopy:
  "stack_kept t st \<Longrightarrow> (\<And>c. c \<in> set cs \<Longrightarrow> kept_child (the_load t) c) \<Longrightarrow> okE (stack_kept t) (rewriteNodeChildrenWithCopyOf t cs st)"
  using kept_rewriteCopy [of t st] by (auto simp: okE_def)

lemma okE_addChildAt:
  "stack_kept t st \<Longrightarrow> kept_child (the_load t) c \<Longrightarrow> okE (stack_kept t) (addChildAt t c st)"
  using kept_addChildAt [of t st] by (auto simp: okE_def)

lemmas okE_ops = okE_pop okE_rewriteAtIndex okE_rewriteNodeChildren okE_rewriteCopy okE_addChildAt

lemmas okE_steps [kept_rules] = okE_ops okE_ops [THEN okE_bind]

lemma okE_slice_upto [kept_rules]:
  "(\<And>s. set s \<subseteq> set xs \<Longrightarrow> okE P (f s)) \<Longrightarrow> okE P (bindE (slice_upto xs i) f)"
  by (rule okE_bind_eq) (auto dest: set_slice_upto)

lemma okE_slice_from [kept_rules]:
  "(\<And>s. set s \<subseteq> set xs \<Longrightarrow> okE P (f s)) \<Longrightarrow> okE P (bindE (slice_from xs i) f)"
  by (rule okE_bind_eq) (auto dest: set_slice_from)

lemma okE_elem_get [kept_rules]:
  "(\<And>x. x \<in> set xs \<Longrightarrow> okE P (f x)) \<Longrightarrow> okE P (bindE (elem_get xs i) f)"
  by (rule okE_bind_eq) (auto simp: elem_get_def split: if_splits intro: nth_mem)

lemma okE_moveFrom:
  assumes "stack_kept t st" "kept (the_load t) sib"
  shows "okE (stack_kept t) (moveFrom t ofs sib st)"
proof -
  note sib = kept_children [OF assms(2)]
  have cut: "okE (\<lambda>(cl, c). set cl \<subseteq> set (Children sib) \<and> c \<in> set (Children sib))
      (if ofs = -1 then bindE (slice_upto (Children sib) (int (length (Children sib)) - 1)) (\<lambda>cl.
          bindE (elem_get (Children sib) (int (length (Children sib)) - 1)) (\<lambda>c. Inr (cl, c)))
        else bindE (slice_from (Children sib) 1) (\<lambda>cl. bindE (elem_get (Children sib) 0) (\<lambda>c. Inr (cl, c))))"
    by (intro kept_rules) simp_all
  show ?thesis
    unfolding moveFrom_def Let_def
    apply (rule okE_child [OF assms(1)], rule okE_deref)
    apply (rule okE_bind [OF cut], clarify)
    apply (rule okE_push [OF assms(1)], use assms(2) in blast)
    apply (rule okE_bind [OF okE_rewriteCopy], assumption, use sib in blast)
    apply (rule okE_bind [OF okE_pop], assumption)
    apply (rule okE_push, assumption, simp add: kept_child_def)
    apply (rule okE_bind [where Q = "stack_kept t"])
     apply (intro kept_rules kept_setIndex; assumption)
    apply (rule okE_bind [OF okE_rewriteAtIndex], assumption, use sib in blast)
    apply (rule okE_pop, assumption)
    done
qed

lemma okE_mergeTo:
  assumes "stack_kept t st" "kept (the_load t) sib"
  shows "okE (stack_kept t) (mergeTo t ofs sib st)"
  unfolding mergeTo_def Let_def
  apply (rule okE_node [OF assms(1)])
  apply (rule okE_child [OF assms(1)], rule okE_deref, rule okE_deref)
  apply (rule okE_bind [OF okE_rewriteAtIndex [OF assms(1)]], simp)
  apply (rule okE_node, assumption)
  apply (rule okE_if, rule okE_Inl)
  apply (rule okE_push, assumption, use assms(2) in blast)
  apply (rule okE_bind [OF okE_rewriteNodeChildren], assumption)
  subgoal for n cp c0 me st1 n1 st2 c
    using kept_children [OF assms(2)] kept_children [of "the_load t" me] by (auto simp: kept_child_def [of _ c0] split: if_splits)
  apply (rule okE_bind [OF okE_pop], assumption)
  apply (rule okE_node, assumption)
  apply (rule okE_if, rule okE_Inl, rule okE_Inr, assumption)
  done

lemma okE_rebalanceChild:
  assumes "stack_kept t st"
  shows "okE (\<lambda>(b, st'). stack_kept t st') (rebalanceChild t st)"
proof -
  have m: "okE (\<lambda>(b, st'). stack_kept t st') (bindE (mergeTo t ofs s st) (\<lambda>st'. Inr (True, st')))"
    "okE (\<lambda>(b, st'). stack_kept t st') (bindE (moveFrom t ofs s st) (\<lambda>st'. Inr (True, st')))"
    if "kept (the_load t) s" for s ofs
    using okE_mergeTo [OF assms that] okE_moveFrom [OF assms that] by (auto simp: okE_def res_simps)
  show ?thesis
    unfolding rebalanceChild_def Let_def
    apply (rule okE_child [OF assms], rule okE_deref, rule okE_deref)
    apply (rule okE_if, simp add: okE_def assms)
    apply (rule okE_childNode [OF assms], rule okE_childNode [OF assms])
    subgoal for cp c n n1 n2
      using m by (cases n1; cases n2) (auto simp: okE_def assms)
    done
qed

lemma okE_goDownLeft: "stack_kept t st \<Longrightarrow> okE (stack_kept t) (goDownLeft st)"
  using kept_goDownLeft [of t st] by (auto simp: okE_def)

lemma okE_pushIndex: "stack_kept t st \<Longrightarrow> okE (stack_kept t) (pushIndex t i st)"
  using kept_pushIndex [of t st] by (auto simp: okE_def)

lemma okE_moveRight:
  assumes "stack_kept t st"
  shows "okE (\<lambda>(b, st'). stack_kept t st') (moveRight t st)"
  unfolding moveRight_def
  apply (rule okE_node [OF assms])
  apply (split option.split, intro conjI impI allI)
   apply (rule okE_if, simp add: okE_def assms)
   apply (rule okE_bind [OF okE_pop [OF assms]], simp add: okE_def)
  apply (clarsimp split del: if_split)
  apply (rule okE_if)
   apply (rule okE_bind [OF okE_pushIndex [OF assms]], rule okE_bind [OF okE_goDownLeft], assumption, simp add: okE_def)
  apply (simp add: okE_def kept_setIndex [OF assms])
  done

lemma okE_popAll: "stack_kept t st \<Longrightarrow> okE (stack_kept t) (popAll t st)"
proof (induction t st rule: popAll.induct)
  case (1 t st)
  show ?case
    by (subst popAll.simps) (auto intro!: okE_bind_eq okE_Inr 1 simp: kept_pop [OF 1(2)])
qed

lemma okE_iterate_step:
  assumes "stack_kept t st" "\<And>st. stack_kept t st \<Longrightarrow> okE (\<lambda>(b, st'). stack_kept t st') (fn st)"
  shows "okE (\<lambda>(st', b). stack_kept t st') (iterate_step t fn st)"
  unfolding iterate_step_def
  apply (rule okE_child [OF assms(1)], rule okE_deref)
  apply (rule okE_bind [where Q = "\<lambda>(b, st'). stack_kept t st'"])
   apply (rule okE_if, rule assms(2) [OF assms(1)], simp add: okE_def assms(1))
  apply (clarsimp split del: if_split)
  apply (rule okE_if, simp add: okE_def)
  apply (rule okE_bind [OF okE_moveRight], assumption, auto simp: okE_def)
  done

lemma okE_iterate_loop:
  assumes "stack_kept t st" "\<And>st. stack_kept t st \<Longrightarrow> okE (\<lambda>(b, st'). stack_kept t st') (fn st)"
  shows "okE (stack_kept t) (iterate_loop t fn st)"
proof -
  have step: "okE (\<lambda>(st', b). stack_kept t st') (case r of Inl e \<Rightarrow> Inl e | Inr (st, go) \<Rightarrow> iterate_step t fn st)"
    if "okE (\<lambda>(st', b). stack_kept t st') r" for r
  proof (cases r)
    case (Inr p)
    then have "stack_kept t (fst p)" using that by (cases p) (simp add: okE_def)
    then show ?thesis using okE_iterate_step [of t "fst p" fn] assms(2) Inr by (cases p) simp
  qed (simp add: okE_Inl)
  have "okE (\<lambda>(st', b). stack_kept t st') r"
    if w: "while_option (\<lambda>r. case r of Inl e \<Rightarrow> False | Inr (st, go) \<Rightarrow> go)
         (\<lambda>r. case r of Inl e \<Rightarrow> Inl e | Inr (st, go) \<Rightarrow> iterate_step t fn st) (Inr (st, True)) = Some r" for r
  proof (rule while_option_rule [OF _ w])
    show "okE (\<lambda>(st', b). stack_kept t st') (Inr (st, True))" using assms(1) by (simp add: okE_def)
  qed (rule step)
  then show ?thesis
    unfolding iterate_loop_def
    by (split option.split) (auto intro!: okE_Inl okE_bind [where Q = "\<lambda>(st', b). stack_kept t st'"] okE_Inr)
qed


lemma okE_iterate:
  assumes "stack_kept t st" "\<And>st. stack_kept t st \<Longrightarrow> okE (\<lambda>(b, st'). stack_kept t st') (fn st)"
  shows "okE (stack_kept t) (iterateMutatingChildLeafFirst t fn st)"
proof -
  have r: "okE (stack_kept t) (Reset st)"
    using kept_setIndex [OF assms(1)] by (simp add: Reset_def okE_def)
  show ?thesis
    unfolding iterateMutatingChildLeafFirst_def
    apply (rule okE_bind [OF r], rule okE_node, assumption)
    apply (rule okE_if, rule okE_Inr, assumption)
    apply (rule okE_bind [OF okE_goDownLeft], assumption)
    apply (rule okE_bind [OF okE_iterate_loop], assumption, rule assms(2), assumption)
    apply (rule okE_popAll, assumption)
    done
qed

lemma okE_mapE:
  assumes "\<And>x. x \<in> set xs \<Longrightarrow> okE P (f x)"
  shows "okE (\<lambda>ys. \<forall>y \<in> set ys. P y) (mapE f xs)"
  using assms by (induction xs) (fastforce simp: okE_def res_simps)+

lemma rewritten_fresh:
  assumes "stack_kept t st" "rewriteNodeChildren t cs st = Inr st'" "node st' = Inr n"
  shows "blockId n = None"
  using assms(2)
proof (rule rewriteNodeChildren_result)
  fix n0 xs k
  assume "st' = invalidateSubNodes (st\<lparr>nodes := (nodes st)[top st := Some (Node (Leafy n0) xs None)]\<rparr>)\<lparr>smallCount := k\<rparr>"
  with assms(1,3) show ?thesis by (auto simp: node_def stack_kept_def res_simps)
qed

lemma okE_shrinkRoot:
  assumes "stack_kept t st"
  shows "okE (stack_kept t) (shrinkRoot t st)"
proof -
  have k: "okE (\<lambda>cns. \<forall>m \<in> set cns. kept (the_load t) m)
      (mapE (\<lambda>i. bindE (Stack_childNode t (int i) st) deref) is')" for is'
    by (rule okE_mapE) (auto simp: okE_def res_simps dest: kept_childNode [OF assms])
  show ?thesis
    unfolding shrinkRoot_def
    apply (rule okE_node [OF assms], rule okE_if)
     apply (rule okE_bind [OF k], rule okE_if)
      apply (rule okE_bind_eq)
    subgoal for n cns st1
    proof -
      assume a: "\<forall>m \<in> set cns. kept (the_load t) m" "rewriteNodeChildren t (map Some (concat (map Children cns))) st = Inr st1"
      have k1: "stack_kept t st1" by (rule kept_rewriteNodeChildren [OF assms a(2)]) (use a(1) in \<open>auto dest: kept_children\<close>)
      show ?thesis
        apply (rule okE_node [OF k1], rule okE_if, rule okE_Inr)
        subgoal for n1
          using rewritten_fresh [OF assms a(2)] by (intro kept_update [OF k1]) (cases n1, simp add: kept_Node)
        apply (rule okE_Inr, rule k1)
        done
    qed
    apply (rule okE_Inr, rule assms)+
    done
qed


lemma okE_commit:
  assumes "stack_kept t st"
  shows "okE (\<lambda>(n, st'). stack_kept t st') (commit t st)"
  unfolding commit_def
  apply (rule okE_bind [OF okE_popAll [OF assms]], rule okE_if)
   apply (rule okE_node, assumption, simp add: okE_def)
  apply (rule okE_bind [OF okE_iterate], assumption, rule okE_rebalanceChild, assumption)
  apply (rule okE_bind [OF okE_shrinkRoot], assumption)
  apply (rule okE_node, assumption, simp add: okE_def stack_kept_def)
  done

section \<open>Operations of a transaction\<close>

lemma okE_search:
  assumes "stack_kept t st" "nodes st ! 0 \<noteq> None"
  shows "okE (stack_kept t) (Node_search t self key st)"
proof -
  obtain r where r: "nodes st ! 0 = Some r" using assms(2) by auto
  have "stack_kept t (st\<lparr>top := 0\<rparr>)" by (rule stack_kept_top [OF assms(1)]) (use assms(1) in \<open>auto simp: stack_kept_def\<close>)
  then show ?thesis
    using kept_search_loop [of t "st\<lparr>top := 0\<rparr>" key]
    by (auto simp: Node_search_def r Stack_search_def okE_def res_simps)
qed

lemma okE_searchLesser:
  assumes "stack_kept t st" "nodes st ! 0 \<noteq> None"
  shows "okE (stack_kept t) (searchLesser t self key st)"
  unfolding searchLesser_def
  apply (rule okE_bind [OF okE_search [OF assms]], rule okE_child, assumption)
  apply (rule okE_if, rule okE_bind_eq)
   apply (auto simp: okE_def dest: kept_goPreviousLeaf)
  done

lemma okE_searchGreater:
  assumes "stack_kept t st" "nodes st ! 0 \<noteq> None"
  shows "okE (stack_kept t) (searchGreater t self key st)"
  unfolding searchGreater_def
  apply (rule okE_bind [OF okE_search [OF assms]], rule okE_child, assumption)
  apply (rule okE_if, rule okE_bind_eq)
   apply (auto simp: okE_def dest: kept_goNextLeaf)
  done

lemma okE_trimLeft: "stack_kept t st \<Longrightarrow> okE (stack_kept t) (trimLeft t u st)"
proof (induction t u st rule: trimLeft.induct)
  case (1 t u st)
  show ?case
  proof (cases "top st > u")
    case True
    have "okE (stack_kept t) (if index st > 0 then bindE (node st) (\<lambda>n. bindE (slice_from (Children n) (index st)) (\<lambda>cs.
        rewriteNodeChildrenWithCopyOf t cs st)) else Inr st)"
      using 1(2) by (auto intro!: okE_if okE_node okE_slice_from okE_rewriteCopy okE_Inr dest: kept_children)
    then show ?thesis
      apply (subst trimLeft.simps, simp only: True if_True Let_def)
      apply (rule okE_bind_eq, rule okE_bind_eq)
      apply (rule 1(1) [OF True refl], assumption+)
      subgoal for st3 st4
        using kept_pop [of t st3 st4] by (simp only: okE_def)
      done
  next
    case False
    then show ?thesis using 1(2) by (subst trimLeft.simps) (simp add: okE_Inr)
  qed
qed

lemma okE_trimRight: "stack_kept t st \<Longrightarrow> okE (stack_kept t) (trimRight t u st)"
proof (induction t u st rule: trimRight.induct)
  case (1 t u st)
  show ?case
  proof (cases "top st > u")
    case True
    show ?thesis
      apply (subst trimRight.simps, simp only: True if_True Let_def)
      apply (rule okE_node [OF 1(2)])
      apply (rule okE_bind_eq, rule okE_bind_eq)
      apply (rule 1(1) [OF True refl], assumption+)
      subgoal for n st3 st4
        using okE_slice_upto [of "Children n" "stack_kept t" "\<lambda>cs. rewriteNodeChildrenWithCopyOf t cs st" "index st + 1"]
          okE_rewriteCopy [OF 1(2)] kept_children [of "the_load t" n] 1(2) kept_pop [of t st3 st4]
        by (fastforce simp: okE_def split: if_splits)
      done
  next
    case False
    then show ?thesis using 1(2) by (subst trimRight.simps) (simp add: okE_Inr)
  qed
qed


lemma kept_st0: "stack_kept t st \<Longrightarrow> stack_kept t (st\<lparr>top := 0\<rparr>)"
  by (rule stack_kept_top) (auto simp: stack_kept_def)

lemma okE_Node_Get:
  assumes "stack_kept t st" "nodes st ! 0 \<noteq> None"
  shows "okE (\<lambda>(r, st'). stack_kept t st') (Node_Get t self key st)"
  unfolding Node_Get_def Let_def
  by (rule okE_bind [OF okE_search [OF assms]], rule okE_child, assumption)
    (auto simp: okE_def intro: kept_st0 split: option.split)

lemma okE_Node_NextKey:
  assumes "stack_kept t st" "nodes st ! 0 \<noteq> None"
  shows "okE (\<lambda>(r, st'). stack_kept t st') (Node_NextKey t self key st)"
  unfolding Node_NextKey_def
  by (rule okE_bind [OF okE_searchGreater [OF assms]], rule okE_child, assumption) (auto simp: okE_def intro: kept_st0)

lemma okE_Node_PrevKey:
  assumes "stack_kept t st" "nodes st ! 0 \<noteq> None"
  shows "okE (\<lambda>(r, st'). stack_kept t st') (Node_PrevKey t self key st)"
  unfolding Node_PrevKey_def
  by (rule okE_bind [OF okE_searchLesser [OF assms]], rule okE_child, assumption) (auto simp: okE_def intro: kept_st0)

lemma okE_Node_Set:
  assumes "stack_kept t st" "nodes st ! 0 \<noteq> None"
  shows "okE (\<lambda>(n, st'). stack_kept t st') (Node_Set t self key v st)"
  unfolding Node_Set_def Let_def
  apply (rule okE_bind [OF okE_search [OF assms]], rule okE_child, assumption)
  apply (rule okE_bind [where Q = "stack_kept t"])
   apply (auto split: option.split intro!: okE_if okE_addChildAt okE_rewriteAtIndex okE_Inr)[1]
  apply (rule okE_commit, assumption)
  done

lemma okE_Node_Delete:
  assumes "stack_kept t st" "nodes st ! 0 \<noteq> None"
  shows "okE (\<lambda>(n, st'). stack_kept t st') (Node_Delete t self key st)"
  unfolding Node_Delete_def
  apply (rule okE_bind [OF okE_search [OF assms]], rule okE_child, assumption)
  apply (rule okE_if, rule okE_Inl)
  apply (rule okE_bind [OF okE_rewriteAtIndex], assumption, simp)
  apply (rule okE_commit, assumption)
  done

lemma okE_range_children:
  assumes "\<And>c. c \<in> set cl \<Longrightarrow> kept_child load c" "stack_kept t sta" "load = the_load t"
  shows "okE (\<lambda>ncl. \<forall>c. Some c \<in> set ncl \<longrightarrow> kept_child load c)
    (if idx1 < 0
     then bindE (make_nil k0) (\<lambda>ncl. bindE (slice_from cl idx2) (\<lambda>s. copy_at ncl 0 (map Some s)))
     else bindE (make_nil k1) (\<lambda>ncl0.
          bindE (slice_upto cl idx1) (\<lambda>s.
          bindE (copy_at ncl0 0 (map Some s)) (\<lambda>ncl1.
          bindE (child sta) (\<lambda>c.
          bindE (elem_set ncl1 idx1 c) (\<lambda>ncl2.
          if int (length cl) > idx2
          then bindE (slice_from cl idx2) (\<lambda>s2. copy_at ncl2 (idx1 + 1) (map Some s2))
          else Inr ncl2))))))" (is "okE ?Q _")
proof -
  have nil: "okE (\<lambda>xs. \<forall>x \<in> set xs. x = None) (make_nil k)" for k :: int
    by (auto simp: okE_def dest: set_make_nil)
  have copy: "okE ?Q (copy_at xs i (map Some s))" if "?Q xs" "set s \<subseteq> set cl" for xs i s
    using that assms(1) by (fastforce simp: okE_def dest: set_copy_at)
  show ?thesis
    apply (rule okE_if)
     apply (rule okE_bind [OF nil], rule okE_slice_from, rule copy, fastforce, assumption)
    apply (rule okE_bind [OF nil], rule okE_slice_upto)
    apply (rule okE_bind [OF copy], fastforce, assumption)
    apply (rule okE_child [OF assms(2)])
    apply (rule okE_bind_eq, rule okE_if)
     apply (rule okE_slice_from, rule copy)
      apply (use assms(3) set_elem_set in fastforce)
     apply assumption
    apply (rule okE_Inr, use assms(3) set_elem_set in fastforce)
    done
qed

lemma okE_Node_DeleteRange:
  assumes "stack_kept t st" "nodes st ! 0 \<noteq> None"
  shows "okE (\<lambda>(n, st'). stack_kept t st') (Node_DeleteRange t self key1 key2 st)"
  unfolding Node_DeleteRange_def Let_def
  apply (rule okE_if, rule okE_Inl)
  apply (rule okE_bind [OF okE_searchLesser [OF kept_st0 [OF assms(1)]]], simp add: assms(2))
  apply (rule okE_bind [OF okE_searchGreater [OF kept_st0 [OF assms(1)]]], simp add: assms(2))
  apply (rule okE_if, rule okE_commit, assumption)
  apply (rule okE_if, rule okE_commit, assumption)
  apply (rule okE_bind [OF okE_trimLeft], assumption)
  apply (rule okE_bind [OF okE_trimRight], assumption)
  apply (rule okE_node, assumption)
  apply (rule okE_bind [OF okE_range_children [OF _ _ refl]], rule kept_children, assumption+)
  apply (rule okE_bind [OF okE_rewriteNodeChildren], assumption, blast)
  apply (rule okE_commit, assumption)
  done

end
