(* ===== verification/StoreProps.thy ===== *)
theory StoreProps
  imports TreeProps IbKept
begin

text \<open>
  The tree together with its storage: a block id that a node carries in memory is never stale,
  and a transaction that is committed to the \<^verbatim>\<open>DummyBackend\<close> can be read back from its root id.
\<close>

text \<open>A hash function for examples: the first 32 bytes, padded with zeros.\<close>

definition pad_hash :: "gostring \<Rightarrow> gostring" where
  "pad_hash b = take 32 (b @ replicate 32 0)"

section \<open>Auxiliary facts\<close>

lemma length_pad_hash: "length (pad_hash b) = 32"
  by (simp add: pad_hash_def)

lemma okE_of: "okE P m \<Longrightarrow> m = Inr x \<Longrightarrow> P x"
  by (simp add: okE_def)

lemma kept_tr:
  assumes "stack_kept t tr" "Root tr = Inr r" "top tr = 0"
  shows "nodes tr ! 0 \<noteq> None"
  using assms by (auto simp: Root_def node_def res_simps)

lemma stack_kept_root: "stack_kept t tr \<Longrightarrow> Root tr = Inr r \<Longrightarrow> kept (the_load t) r"
  unfolding Root_def by (rule stack_kept_node)

lemma NewTransaction_kept:
  assumes "NewTransaction (Some n) = Inr tr" "kept (the_load t) n" "plain_load (the_load t)"
  shows "stack_kept t tr"
  using assms by (auto simp: NewTransaction_def stack_kept_def emptyStack_def maximumTreeDepth_def nth_list_update split: if_splits)

lemma contents_tr:
  assumes "wf_tree t D root" "D < maximumTreeDepth" "NewTransaction (Some root) = Inr tr"
  shows "tr_inv t D tr (contents t D root)"
proof -
  have n: "nodes tr = (replicate maximumTreeDepth None)[0 := Some root]" "top tr = 0" "maxtop tr = 0"
    "indexes tr = replicate maximumTreeDepth 0"
    using assms(3) by (auto simp: NewTransaction_def emptyStack_def split: if_splits)
  have "nodes tr ! j = None" if "0 < j" "j < maximumTreeDepth" for j using that by (simp add: n(1))
  moreover have "nodes tr ! 0 = Some root" by (simp add: n(1) maximumTreeDepth_def)
  ultimately have "clean t D root tr"
    using assms(1,2) unfolding clean_def stack_ok_def cache_ok_def
    by (simp add: n(2-4)) (auto simp: n(1))
  then show ?thesis unfolding tr_inv_def using n(2) by blast
qed

section \<open>Properties\<close>

text \<open>C9: No operation leaves a stale block id in memory: if every node of a transaction that
  carries a block id is what the storage holds under that id, this is still so after \<^verbatim>\<open>Get\<close>,
  \<^verbatim>\<open>NextKey\<close>, \<^verbatim>\<open>PrevKey\<close>, \<^verbatim>\<open>Set\<close>, \<^verbatim>\<open>Delete\<close> and \<^verbatim>\<open>DeleteRange\<close>. A node whose children
  are rewritten, split, merged or shrunk loses its id, so that \<^verbatim>\<open>CommitTo\<close>, which skips nodes
  with an id, writes it.\<close>

theorem block_ids_not_stale:
  assumes "stack_kept t tr" "top tr = 0"
  shows "(Tr_Get t k tr = Inr (r, tr') \<longrightarrow> stack_kept t tr') \<and> (Tr_NextKey t k tr = Inr (r, tr') \<longrightarrow> stack_kept t tr') \<and>
    (Tr_PrevKey t k tr = Inr (r, tr') \<longrightarrow> stack_kept t tr') \<and> (Tr_Set t k v tr = Inr tr' \<longrightarrow> stack_kept t tr') \<and>
    (Tr_Delete t k tr = Inr tr' \<longrightarrow> stack_kept t tr') \<and> (Tr_DeleteRange t k k2 tr = Inr tr' \<longrightarrow> stack_kept t tr')"
proof (cases "Root tr")
  case (Inr root)
  note n0 = kept_tr [OF assms(1) Inr assms(2)]
  note ops = okE_of [OF okE_Node_Get [OF assms(1) n0, of root k]] okE_of [OF okE_Node_NextKey [OF assms(1) n0, of root k]]
    okE_of [OF okE_Node_PrevKey [OF assms(1) n0, of root k]] okE_of [OF okE_Node_Set [OF assms(1) n0, of root k v]]
    okE_of [OF okE_Node_Delete [OF assms(1) n0, of root k]] okE_of [OF okE_Node_DeleteRange [OF assms(1) n0, of root k k2]]
  show ?thesis
    using ops
    by (auto simp: Tr_Get_def Tr_NextKey_def Tr_PrevKey_def Tr_Set_def Tr_Delete_def Tr_DeleteRange_def Inr res_simps)
qed (simp add: Tr_Get_def Tr_NextKey_def Tr_PrevKey_def Tr_Set_def Tr_Delete_def Tr_DeleteRange_def)

text \<open>A root with a block id, loaded from a storage that holds one leaf.\<close>

definition saved_tree :: tree where
  "saved_tree = demo_tree\<lparr>backend := Some [[9] \<mapsto> (True, [NodeDataChild [1] [2] None])]\<rparr>"

definition saved_tr :: stack where
  "saved_tr = emptyStack\<lparr>nodes := (nodes emptyStack)[0 := Some (Node True [NodeDataChild [1] [2] None] (Some [9]))]\<rparr>"

lemma saved_tr_loaded:
  "bindE (LoadRoot saved_tree [9]) NewTransaction = Inr saved_tr"
  by (simp add: LoadRoot_def saved_tree_def NewTransaction_def saved_tr_def)

lemma saved_tr_set:
  "Tr_Set saved_tree [1] [3] saved_tr = Inr (leaf_tr [([1], [3])])"
  by code_simp

theorem block_ids_not_stale_witness:
  "Root saved_tr = Inr (Node True [NodeDataChild [1] [2] None] (Some [9])) \<and>
   Tr_Set saved_tree [1] [3] saved_tr = Inr (leaf_tr [([1], [3])]) \<and> stack_kept saved_tree (leaf_tr [([1], [3])])"
proof -
  have "stack_kept saved_tree saved_tr"
    by (auto simp: stack_kept_def saved_tr_def saved_tree_def emptyStack_def maximumTreeDepth_def plain_load_def the_load_def
        kept_Node nth_list_update split: if_splits)
  moreover have "top saved_tr = 0" "Root saved_tr = Inr (Node True [NodeDataChild [1] [2] None] (Some [9]))"
    by (simp_all add: saved_tr_def emptyStack_def Root_def node_def maximumTreeDepth_def)
  ultimately show ?thesis
    using block_ids_not_stale [of saved_tree saved_tr "[1]" None "leaf_tr [([1], [3])]" "[3]" "[]"] saved_tr_set by blast
qed

text \<open>C8: Committing a transaction to the \<^verbatim>\<open>DummyBackend\<close> returns a root and its id, and loading
  that id from the storage afterwards gives a root with exactly the entries of the transaction,
  on which a new transaction can be started. The hash function must be free of collisions on
  the nodes that are stored, and lengths must fit the 32-bit headers of the format.\<close>

theorem commit_reload:
  assumes "dummy_inv L sha S s" "length (placeholderValue t) = hashSize"
    "tr_inv (t\<lparr>backend := Some (dummy_load L s)\<rparr>) D tr C" "stack_kept (t\<lparr>backend := Some (dummy_load L s)\<rparr>) tr"
    "Root tr = Inr root" "\<forall>nd \<in> set (written (dummy_id L sha) root). dummy_fits L S nd"
  shows "\<exists>root' bid s'. Tr_CommitTo (Dummy_SaveNode L sha) tr s = Inr ((root', bid), s') \<and> dummy_inv L sha S s' \<and>
    LoadRoot (t\<lparr>backend := Some (dummy_load L s')\<rparr>) bid = Inr (Some root') \<and>
    (\<exists>tr'. NewTransaction (Some root') = Inr tr' \<and> tr_inv (t\<lparr>backend := Some (dummy_load L s')\<rparr>) D tr' C)"
proof -
  let ?t = "t\<lparr>backend := Some (dummy_load L s)\<rparr>"
  obtain r where r: "clean ?t D r tr" "top tr = 0" "contents ?t D r = C" "Root tr = Inr r" "ordered C"
    by (rule tr_inv_obtain [OF assms(3)])
  then have root: "r = root" using assms(5) by simp
  have wf: "wf_tree ?t D root" "D < maximumTreeDepth" using r(1) root by (simp_all add: clean_def)
  have "the_load ?t = dummy_load L s" by (simp add: the_load_def)
  then have k: "kept (dummy_load L s) root" using stack_kept_root [OF assms(4,5)] by simp
  obtain root' s' where c: "CommitTo (Dummy_SaveNode L sha) root s = Inr ((root', node_id (dummy_id L sha) root), s')"
    and cm: "committed (dummy_inv L sha S) (dummy_load L) (dummy_id L sha) t D s root root' s'"
    using dummy.CommitTo_ok [OF assms(2,1) wf(1) [unfolded wf_tree_def, THEN conjunct1] k written_storable [OF wf(1) assms(6)]] by blast
  let ?t' = "t\<lparr>backend := Some (dummy_load L s')\<rparr>"
  have cm': "dummy_inv L sha S s'" "blockId root' = Some (node_id (dummy_id L sha) root)"
      "dummy_load L s' (node_id (dummy_id L sha) root) = Some (Leafy root', Children root')"
      "wfn ?t' D root'" "contents ?t' D root' = C" "map Key (Children root') = map Key (Children root)"
    using cm r(3) root by (simp_all add: committed_def)
  have "wf_tree ?t' D root'" using wf cm' r(5) by (auto simp: wf_tree_def)
  moreover have "LoadRoot ?t' (node_id (dummy_id L sha) root) = Inr (Some root')"
    using cm'(2,3) by (cases root') (simp add: LoadRoot_def)
  moreover have "\<exists>tr'. NewTransaction (Some root') = Inr tr'" by (simp add: NewTransaction_def)
  ultimately show ?thesis
    using c cm'(1,5) contents_tr [of ?t' D root'] wf(2) by (auto simp: Tr_CommitTo_def assms(5))
qed

text \<open>A tree of two levels, all of it in memory.\<close>

definition two_written :: "nodedata list" where
  "two_written = written (dummy_id wire pad_hash) two_leaves"

lemma two_written_facts:
  "distinct (map (\<lambda>nd. pad_hash (NodeData_MarshalMsg wire nd [])) two_written) \<and>
   list_all (\<lambda>nd. \<forall>c \<in> set (snd nd). childNode c = None \<and> length (Key c) < 100 \<and> length (Value c) < 100) two_written \<and>
   list_all (\<lambda>nd. length (snd nd) < 100) two_written"
  by code_simp

theorem commit_reload_witness:
  "\<exists>root' bid s' tr'. Tr_CommitTo (Dummy_SaveNode wire pad_hash) two_tr Dummy_Init = Inr ((root', bid), s') \<and>
    LoadRoot (demo_tree\<lparr>backend := Some (dummy_load wire s')\<rparr>) bid = Inr (Some root') \<and>
    NewTransaction (Some root') = Inr tr' \<and> tr_inv (demo_tree\<lparr>backend := Some (dummy_load wire s')\<rparr>) 1 tr' two_kvs"
proof -
  let ?S = "(\<lambda>nd. NodeData_MarshalMsg wire nd []) ` set two_written"
  let ?t = "demo_tree\<lparr>backend := Some (dummy_load wire Dummy_Init)\<rparr>"
  have "inj_on (\<lambda>nd. pad_hash (NodeData_MarshalMsg wire nd [])) (set two_written)"
    using two_written_facts by (simp add: distinct_map)
  then have inj: "inj_on pad_hash ?S" by (auto simp: inj_on_def)
  have i: "dummy_inv wire pad_hash ?S Dummy_Init"
    using inj by (auto simp: dummy_inv_def wire_ok Dummy_Init_def length_pad_hash hashSize_def)
  have p: "length (placeholderValue demo_tree) = hashSize"
    by (simp add: demo_tree_def Tree_Init_def hashSize_def Let_def)
  have none: "dummy_load wire Dummy_Init = Map.empty"
    by (simp add: fun_eq_iff dummy_load_eq [OF wire_ok] Dummy_Init_def)
  have k: "stack_kept ?t two_tr"
    by (auto simp: stack_kept_def two_tr_def two_leaves_def emptyStack_def maximumTreeDepth_def plain_load_def the_load_def none
        kept_Node nth_list_update split: if_splits)
  have r: "Root two_tr = Inr two_leaves"
    by (simp add: Root_def node_def two_tr_def emptyStack_def maximumTreeDepth_def)
  have f: "\<forall>nd \<in> set (written (dummy_id wire pad_hash) two_leaves). dummy_fits wire ?S nd"
    using two_written_facts unfolding two_written_def [symmetric] list_all_iff
    by (fastforce simp: dummy_fits_def plain_data_def short_def short_child_def)
  have "tr_inv ?t 1 two_tr two_kvs" by (rule two_tr_inv_any)
  from commit_reload [OF i p this k r f] show ?thesis by blast
qed

text \<open>C10: A typed node block reads back: \<^verbatim>\<open>ToBytes\<close> fills its buffer without overrunning it, since
  \<^verbatim>\<open>Msgsize\<close> bounds the size of the encoding, and \<^verbatim>\<open>NewNodeDataFromBytes\<close> returns the same node.\<close>

theorem node_block_roundtrip:
  assumes "msgp_ok L" "plain_data z"
  shows "int (length (NodeData_MarshalMsg L z [])) \<le> NodeData_Msgsize (sizes L) z \<and>
    (\<exists>b. ToBytes L z = Inr b \<and> NewNodeDataFromBytes L b = Inr (Some z))"
  using NodeData_MarshalMsg_bound [OF assms(1), of z] ToBytes_roundtrip [OF assms] assms(2) by (simp add: plain_data_def)

theorem node_block_roundtrip_witness:
  "\<exists>b. ToBytes wire (True, [NodeDataChild [1] [2] None]) = Inr b \<and>
     NewNodeDataFromBytes wire b = Inr (Some (True, [NodeDataChild [1] [2] None]))"
  using node_block_roundtrip [OF wire_ok, of "(True, [NodeDataChild [1] [2] None])"]
  by (simp add: plain_data_def short_def short_child_def)

end
