(* ===== verification/Codec.thy ===== *)
theory Codec
  imports Greenpack
begin

text \<open>
  Package \<^verbatim>\<open>codec\<close> (src/codec/codec.go, src/codec/codec\_greenpack.go and the generated
  src/codec/codec\_greenpack\_gen.go): encryption and compression of blocks, and chains of both.

  The block cipher, the compressors and the source of random bytes are packages outside the
  repository. They are the record \<open>codec_env\<close>, an argument of the codecs; \<open>codec_env_ok\<close> is
  what their documentation promises: decompression undoes compression, an opened sealed
  message is the plain text, and a message does not open with other additional data. A
  \<^verbatim>\<open>Codec\<close> value is one of the three implementations of the interface.
\<close>

section \<open>Stored formats\<close>

record encryptedData =
  Nonce :: gostring
  EncryptedData :: gostring

record compressedData =
  CompressionType :: byte
  RawData :: gostring

definition CompressionType_UNSET :: byte where "CompressionType_UNSET = 0"
definition CompressionType_PLAIN :: byte where "CompressionType_PLAIN = 1"
definition CompressionType_SNAPPY :: byte where "CompressionType_SNAPPY = 2"
definition CompressionType_ZLIB :: byte where "CompressionType_ZLIB = 3"

lemmas compression_types = CompressionType_UNSET_def CompressionType_PLAIN_def CompressionType_SNAPPY_def
  CompressionType_ZLIB_def

definition EncryptedData_MarshalMsg :: "'n msgp_lib \<Rightarrow> encryptedData \<Rightarrow> gostring \<Rightarrow> gostring" where
  "EncryptedData_MarshalMsg L z b =
     (let b = b @ [0x92];
          b = AppendBytes L b (Nonce z)
      in AppendBytes L b (EncryptedData z))"

definition EncryptedData_UnmarshalMsg :: "'n msgp_lib \<Rightarrow> gostring \<Rightarrow> msg_err + encryptedData \<times> gostring" where
  "EncryptedData_UnmarshalMsg L bts =
     unmarshal_top L
       (rbind (expect_array L 2) (\<lambda>_.
        rbind (read_bytes_field L) (\<lambda>nonce.
        rbind (read_bytes_field L) (\<lambda>ed.
        rret \<lparr>Nonce = nonce, EncryptedData = ed\<rparr>)))) bts"

definition EncryptedData_Msgsize :: "msgp_sizes \<Rightarrow> encryptedData \<Rightarrow> int" where
  "EncryptedData_Msgsize sz z =
     1 + BytesPrefixSize sz + int (length (Nonce z)) + BytesPrefixSize sz + int (length (EncryptedData z))"

definition CompressedData_MarshalMsg :: "'n msgp_lib \<Rightarrow> compressedData \<Rightarrow> gostring \<Rightarrow> gostring" where
  "CompressedData_MarshalMsg L z b =
     (let b = b @ [0x92];
          b = AppendByte L b (CompressionType z)
      in AppendBytes L b (RawData z))"

definition CompressedData_UnmarshalMsg :: "'n msgp_lib \<Rightarrow> gostring \<Rightarrow> msg_err + compressedData \<times> gostring" where
  "CompressedData_UnmarshalMsg L bts =
     unmarshal_top L
       (rbind (expect_array L 2) (\<lambda>_.
        rbind (ReadByteBytes L) (\<lambda>ct.
        rbind (read_bytes_field L) (\<lambda>rd.
        rret \<lparr>CompressionType = ct, RawData = rd\<rparr>)))) bts"

definition CompressedData_Msgsize :: "msgp_sizes \<Rightarrow> compressedData \<Rightarrow> int" where
  "CompressedData_Msgsize sz z = 1 + ByteSize sz + BytesPrefixSize sz + int (length (RawData z))"

section \<open>Codecs\<close>

record aead =
  NonceSize :: nat
  Seal :: "gostring \<Rightarrow> gostring \<Rightarrow> gostring \<Rightarrow> gostring"
  Open :: "gostring \<Rightarrow> gostring \<Rightarrow> gostring \<Rightarrow> msg_err + gostring"

record ('n, 'r) codec_env =
  lib :: "'n msgp_lib"
  rand_Read :: "nat \<Rightarrow> 'r \<Rightarrow> msg_err + gostring \<times> 'r"
  pbkdf2_Key :: "gostring \<Rightarrow> gostring \<Rightarrow> int \<Rightarrow> nat \<Rightarrow> gostring"
  aes_gcm :: "gostring \<Rightarrow> msg_err + aead"
  snappy_Encode :: "gostring \<Rightarrow> gostring"
  snappy_Decode :: "gostring \<Rightarrow> msg_err + gostring"
  zlib_deflate :: "gostring \<Rightarrow> gostring"
  zlib_inflate :: "gostring \<Rightarrow> msg_err + gostring"

datatype codec =
    EncryptingCodec (gcm: aead) (mk: gostring)
  | CompressingCodec byte
  | CodecChain (codecs: "codec list") (reverseCodecs: "codec list")

text \<open>The key is derived for AES-256; the two constructors of the cipher fail together.\<close>

definition EncryptingCodec_Init ::
  "('n, 'r) codec_env \<Rightarrow> gostring \<Rightarrow> gostring \<Rightarrow> int \<Rightarrow> codec res" where
  "EncryptingCodec_Init E password salt iter =
     (let k = pbkdf2_Key E password salt iter 32
      in case aes_gcm E k of Inl e \<Rightarrow> Inl (PanicMsg e) | Inr g \<Rightarrow> Inr (EncryptingCodec g k))"

definition CodecChain_Init :: "codec list \<Rightarrow> codec" where
  "CodecChain_Init cs =
     CodecChain cs (foldl (\<lambda>rc (i, c). rc[length cs - i - 1 := c]) (replicate (length cs) (CompressingCodec 0))
       (enumerate 0 cs))"

definition Encrypting_DecodeBytes ::
  "('n, 'r) codec_env \<Rightarrow> aead \<Rightarrow> gostring \<Rightarrow> gostring \<Rightarrow> msg_err + gostring" where
  "Encrypting_DecodeBytes E g data ad =
     (case EncryptedData_UnmarshalMsg (lib E) data of
        Inl e \<Rightarrow> Inl e
      | Inr (ed, _) \<Rightarrow> Open g (Nonce ed) (EncryptedData ed) ad)"

definition Encrypting_EncodeBytes ::
  "('n, 'r) codec_env \<Rightarrow> aead \<Rightarrow> gostring \<Rightarrow> gostring \<Rightarrow> 'r \<Rightarrow> msg_err + gostring \<times> 'r" where
  "Encrypting_EncodeBytes E g data ad r =
     (case rand_Read E (NonceSize g) r of
        Inl e \<Rightarrow> Inl e
      | Inr (nonce, r') \<Rightarrow>
          (let ciphertext = Seal g nonce data ad;
               ed = \<lparr>Nonce = nonce, EncryptedData = ciphertext\<rparr>
           in Inr (EncryptedData_MarshalMsg (lib E) ed [], r')))"

definition Compressing_DecodeBytes ::
  "('n, 'r) codec_env \<Rightarrow> gostring \<Rightarrow> gostring \<Rightarrow> msg_err + gostring" where
  "Compressing_DecodeBytes E data ad =
     (case CompressedData_UnmarshalMsg (lib E) data of
        Inl e \<Rightarrow> Inl e
      | Inr (cd, _) \<Rightarrow>
          if CompressionType cd = CompressionType_PLAIN then Inr (RawData cd)
          else if CompressionType cd = CompressionType_SNAPPY then snappy_Decode E (RawData cd)
          else if CompressionType cd = CompressionType_ZLIB then zlib_inflate E (RawData cd)
          else Inr [])"

definition Compressing_EncodeBytes ::
  "('n, 'r) codec_env \<Rightarrow> byte \<Rightarrow> gostring \<Rightarrow> gostring \<Rightarrow> gostring" where
  "Compressing_EncodeBytes E ctype data ad =
     (let (ct, rd) =
        (if ctype = CompressionType_ZLIB then (CompressionType_ZLIB, zlib_deflate E data)
         else if ctype = CompressionType_UNSET \<or> ctype = CompressionType_SNAPPY
              then (CompressionType_SNAPPY, snappy_Encode E data)
         else if ctype = CompressionType_PLAIN then (CompressionType_PLAIN, data)
         else (CompressionType_UNSET, []));
        (ct, rd) = (if ct \<noteq> CompressionType_PLAIN \<and> length rd \<ge> length data
                    then (CompressionType_PLAIN, data) else (ct, rd))
      in CompressedData_MarshalMsg (lib E) \<lparr>CompressionType = ct, RawData = rd\<rparr> [])"

fun DecodeBytes :: "('n, 'r) codec_env \<Rightarrow> codec \<Rightarrow> gostring \<Rightarrow> gostring \<Rightarrow> msg_err + gostring"
and DecodeBytes_chain :: "('n, 'r) codec_env \<Rightarrow> codec list \<Rightarrow> gostring \<Rightarrow> gostring \<Rightarrow> msg_err + gostring" where
  "DecodeBytes E (EncryptingCodec g k) data ad = Encrypting_DecodeBytes E g data ad"
| "DecodeBytes E (CompressingCodec ct) data ad = Compressing_DecodeBytes E data ad"
| "DecodeBytes E (CodecChain cs rcs) data ad = DecodeBytes_chain E cs data ad"
| "DecodeBytes_chain E [] data ad = Inr data"
| "DecodeBytes_chain E (c # cs) data ad =
     (case DecodeBytes E c data ad of Inl e \<Rightarrow> Inl e | Inr ret \<Rightarrow> DecodeBytes_chain E cs ret ad)"

fun EncodeBytes :: "('n, 'r) codec_env \<Rightarrow> codec \<Rightarrow> gostring \<Rightarrow> gostring \<Rightarrow> 'r \<Rightarrow> msg_err + gostring \<times> 'r"
and EncodeBytes_chain :: "('n, 'r) codec_env \<Rightarrow> codec list \<Rightarrow> gostring \<Rightarrow> gostring \<Rightarrow> 'r \<Rightarrow> msg_err + gostring \<times> 'r" where
  "EncodeBytes E (EncryptingCodec g k) data ad r = Encrypting_EncodeBytes E g data ad r"
| "EncodeBytes E (CompressingCodec ct) data ad r = Inr (Compressing_EncodeBytes E ct data ad, r)"
| "EncodeBytes E (CodecChain cs rcs) data ad r = EncodeBytes_chain E rcs data ad r"
| "EncodeBytes_chain E [] data ad r = Inr (data, r)"
| "EncodeBytes_chain E (c # cs) data ad r =
     (case EncodeBytes E c data ad r of Inl e \<Rightarrow> Inl e | Inr (ret, r') \<Rightarrow> EncodeBytes_chain E cs ret ad r')"

section \<open>What the packages promise\<close>

definition aead_ok :: "aead \<Rightarrow> bool" where
  "aead_ok g \<longleftrightarrow> (\<forall>n d a. length n = NonceSize g \<longrightarrow> Open g n (Seal g n d a) a = Inr d)"

text \<open>The documentation requires that the additional data given to \<^verbatim>\<open>Open\<close> match those given to
  \<^verbatim>\<open>Seal\<close>. As a statement about all data this is an idealisation: a tag of fixed length makes a
  false match unlikely, not impossible.\<close>

definition aead_binds :: "aead \<Rightarrow> bool" where
  "aead_binds g \<longleftrightarrow> (\<forall>n d a a'. length n = NonceSize g \<and> a \<noteq> a' \<longrightarrow> isl (Open g n (Seal g n d a) a'))"

definition codec_env_ok :: "('n, 'r) codec_env \<Rightarrow> bool" where
  "codec_env_ok E \<longleftrightarrow>
     msgp_ok (lib E) \<and>
     (\<forall>k r n r'. rand_Read E k r = Inr (n, r') \<longrightarrow> length n = k) \<and>
     (\<forall>d. snappy_Decode E (snappy_Encode E d) = Inr d) \<and>
     (\<forall>d. zlib_inflate E (zlib_deflate E d) = Inr d)"

text \<open>The codecs in use: every cipher keeps its promise, every compression type is one of the
  constants, and a chain is one that \<^verbatim>\<open>Init\<close> has built.\<close>

fun codec_ok :: "codec \<Rightarrow> bool" where
  "codec_ok (EncryptingCodec g k) = aead_ok g"
| "codec_ok (CompressingCodec ct) = (ct \<in> {0, 1, 2, 3})"
| "codec_ok (CodecChain cs rcs) = (rcs = rev cs \<and> (\<forall>c \<in> set cs. codec_ok c))"

text \<open>Lengths that fit the headers of the format, at every stage of an encoding.\<close>

fun encode_fits :: "('n, 'r) codec_env \<Rightarrow> codec \<Rightarrow> gostring \<Rightarrow> gostring \<Rightarrow> 'r \<Rightarrow> bool"
and encode_fits_chain :: "('n, 'r) codec_env \<Rightarrow> codec list \<Rightarrow> gostring \<Rightarrow> gostring \<Rightarrow> 'r \<Rightarrow> bool" where
  "encode_fits E (EncryptingCodec g k) data ad r \<longleftrightarrow>
     (case rand_Read E (NonceSize g) r of Inl e \<Rightarrow> True | Inr (n, r') \<Rightarrow> short n \<and> short (Seal g n data ad))"
| "encode_fits E (CompressingCodec ct) data ad r \<longleftrightarrow> short data"
| "encode_fits E (CodecChain cs rcs) data ad r \<longleftrightarrow> encode_fits_chain E rcs data ad r"
| "encode_fits_chain E [] data ad r \<longleftrightarrow> True"
| "encode_fits_chain E (c # cs) data ad r \<longleftrightarrow>
     encode_fits E c data ad r \<and>
     (case EncodeBytes E c data ad r of Inl e \<Rightarrow> True | Inr (ret, r') \<Rightarrow> encode_fits_chain E cs ret ad r')"

text \<open>An instance: messages carry their additional data in front of them, the random source
  returns a constant, and the compressors drop one leading zero byte.\<close>

definition tag_ad :: "gostring \<Rightarrow> gostring" where
  "tag_ad a = replicate (length a) 1 @ 0 # a"

definition demo_gcm :: aead where
  "demo_gcm = \<lparr>NonceSize = 12, Seal = (\<lambda>n d a. tag_ad a @ d),
     Open = (\<lambda>n c a. if take (length (tag_ad a)) c = tag_ad a then Inr (drop (length (tag_ad a)) c) else Inl ''authentication failed'')\<rparr>"

definition drop_zero :: "gostring \<Rightarrow> gostring" where
  "drop_zero d = (case d of [] \<Rightarrow> [1] | x # xs \<Rightarrow> if x = 0 \<and> xs \<noteq> [] then 0 # tl xs @ [hd xs] else 1 # d)"

definition undrop_zero :: "gostring \<Rightarrow> msg_err + gostring" where
  "undrop_zero d = (case d of [] \<Rightarrow> Inl ''corrupt'' | x # xs \<Rightarrow> if x = 0 then Inr (0 # last xs # butlast xs) else Inr xs)"

definition demo_env :: "(gostring option, unit) codec_env" where
  "demo_env = \<lparr>lib = wire, rand_Read = (\<lambda>k r. Inr (replicate k 7, r)), pbkdf2_Key = (\<lambda>p s i n. take n (p @ s @ replicate n 0)),
     aes_gcm = (\<lambda>k. Inr demo_gcm), snappy_Encode = drop_zero, snappy_Decode = undrop_zero,
     zlib_deflate = drop_zero, zlib_inflate = undrop_zero\<rparr>"

section \<open>Lemmas\<close>

lemma EncryptedData_MarshalMsg_eq:
  "msgp_ok L \<Longrightarrow> EncryptedData_MarshalMsg L z b = b @ 0x92 # AppendBytes L [] (Nonce z) @ AppendBytes L [] (EncryptedData z)"
  by (simp add: EncryptedData_MarshalMsg_def msgp_append)

lemma EncryptedData_roundtrip:
  assumes "msgp_ok L" "short (Nonce z)" "short (EncryptedData z)"
  shows "EncryptedData_UnmarshalMsg L (EncryptedData_MarshalMsg L z [] @ r) = Inr (z, r)"
  unfolding EncryptedData_UnmarshalMsg_def
  using assms msgp_nil(3) [OF assms(1)]
  by (intro unmarshal_top_ok [OF assms(1)])
    (simp_all add: EncryptedData_MarshalMsg_eq expect_array_ok read_bytes_field_ok)

lemma CompressedData_MarshalMsg_eq:
  "msgp_ok L \<Longrightarrow> CompressedData_MarshalMsg L z b = b @ 0x92 # AppendByte L [] (CompressionType z) @ AppendBytes L [] (RawData z)"
  by (simp add: CompressedData_MarshalMsg_def msgp_append)

lemma CompressedData_roundtrip:
  assumes "msgp_ok L" "short (RawData z)"
  shows "CompressedData_UnmarshalMsg L (CompressedData_MarshalMsg L z [] @ r) = Inr (z, r)"
  unfolding CompressedData_UnmarshalMsg_def
  using assms msgp_nil(3) [OF assms(1)]
  by (intro unmarshal_top_ok [OF assms(1)])
    (simp_all add: CompressedData_MarshalMsg_eq expect_array_ok read_bytes_field_ok msgp_read)

lemma short_le: "short xs \<Longrightarrow> length ys \<le> length xs \<Longrightarrow> short ys"
  by (simp add: short_def)

lemma Encrypting_opens:
  assumes "codec_env_ok E" "Encrypting_EncodeBytes E g data ad r = Inr (x, r')" "encode_fits E (EncryptingCodec g k) data ad r"
  shows "\<exists>n. length n = NonceSize g \<and> (\<forall>a. Encrypting_DecodeBytes E g x a = Open g n (Seal g n data ad) a)"
proof -
  obtain n r1 where n: "rand_Read E (NonceSize g) r = Inr (n, r1)"
      "x = EncryptedData_MarshalMsg (lib E) \<lparr>Nonce = n, EncryptedData = Seal g n data ad\<rparr> []"
    using assms(2) by (auto simp: Encrypting_EncodeBytes_def Let_def split: sum.splits)
  have l: "length n = NonceSize g" using assms(1) n(1) unfolding codec_env_ok_def by blast
  have ok: "msgp_ok (lib E)" using assms(1) by (simp add: codec_env_ok_def)
  have "EncryptedData_UnmarshalMsg (lib E) x = Inr (\<lparr>Nonce = n, EncryptedData = Seal g n data ad\<rparr>, [])"
    using EncryptedData_roundtrip [OF ok, of "\<lparr>Nonce = n, EncryptedData = Seal g n data ad\<rparr>" "[]"] assms(3) n by simp
  then show ?thesis using l by (simp add: Encrypting_DecodeBytes_def) blast
qed

lemma Encrypting_roundtrip:
  assumes "codec_env_ok E" "aead_ok g" "Encrypting_EncodeBytes E g data ad r = Inr (x, r')"
    "encode_fits E (EncryptingCodec g k) data ad r"
  shows "Encrypting_DecodeBytes E g x ad = Inr data"
  using Encrypting_opens [OF assms(1,3,4)] assms(2) unfolding aead_ok_def by auto

lemma Encrypting_binds:
  assumes "codec_env_ok E" "aead_binds g" "Encrypting_EncodeBytes E g data ad r = Inr (x, r')"
    "encode_fits E (EncryptingCodec g k) data ad r" "ad' \<noteq> ad"
  shows "isl (Encrypting_DecodeBytes E g x ad')"
proof -
  obtain n where n: "length n = NonceSize g" "\<forall>a. Encrypting_DecodeBytes E g x a = Open g n (Seal g n data ad) a"
    using Encrypting_opens [OF assms(1,3,4)] by blast
  then have "isl (Open g n (Seal g n data ad) ad')" using assms(2,5) unfolding aead_binds_def by metis
  then show ?thesis using n(2) by simp
qed

text \<open>The data that is stored is never longer than the data given, and it is the given data when
  compressing does not help.\<close>

lemma Compressing_stored:
  assumes "ct \<in> {0, 1, 2, 3}"
  obtains c rd where "Compressing_EncodeBytes E ct data ad = CompressedData_MarshalMsg (lib E) \<lparr>CompressionType = c, RawData = rd\<rparr> []"
    "c = CompressionType_PLAIN \<and> rd = data \<or>
     c = CompressionType_SNAPPY \<and> rd = snappy_Encode E data \<and> length rd < length data \<or>
     c = CompressionType_ZLIB \<and> rd = zlib_deflate E data \<and> length rd < length data"
proof -
  let ?e = "Compressing_EncodeBytes E ct data ad"
  let ?m = "\<lambda>c rd. CompressedData_MarshalMsg (lib E) \<lparr>CompressionType = c, RawData = rd\<rparr> []"
  let ?z = "zlib_deflate E data" and ?s = "snappy_Encode E data"
  consider (plain) "?e = ?m CompressionType_PLAIN data" | (snappy) "?e = ?m CompressionType_SNAPPY ?s" "length ?s < length data"
    | (zlib) "?e = ?m CompressionType_ZLIB ?z" "length ?z < length data"
    using assms by (cases "length ?z < length data"; cases "length ?s < length data")
      (auto simp: Compressing_EncodeBytes_def compression_types)
  then show ?thesis
  proof cases
    case plain
    then show ?thesis by (rule that) simp
  next
    case snappy
    then show ?thesis by (intro that [of CompressionType_SNAPPY ?s]) simp_all
  next
    case zlib
    then show ?thesis by (intro that [of CompressionType_ZLIB ?z]) simp_all
  qed
qed

lemma Compressing_roundtrip:
  assumes "codec_env_ok E" "ct \<in> {0, 1, 2, 3}" "short data"
  shows "Compressing_DecodeBytes E (Compressing_EncodeBytes E ct data ad) ad' = Inr data"
proof -
  have ok: "msgp_ok (lib E)" and dec: "snappy_Decode E (snappy_Encode E d) = Inr d" "zlib_inflate E (zlib_deflate E d) = Inr d" for d
    using assms(1) by (simp_all add: codec_env_ok_def)
  obtain c rd where c: "Compressing_EncodeBytes E ct data ad = CompressedData_MarshalMsg (lib E) \<lparr>CompressionType = c, RawData = rd\<rparr> []"
    "c = CompressionType_PLAIN \<and> rd = data \<or>
     c = CompressionType_SNAPPY \<and> rd = snappy_Encode E data \<and> length rd < length data \<or>
     c = CompressionType_ZLIB \<and> rd = zlib_deflate E data \<and> length rd < length data"
    by (rule Compressing_stored [OF assms(2)])
  have "short rd" using c(2) assms(3) by (auto intro: short_le)
  then have "CompressedData_UnmarshalMsg (lib E) (Compressing_EncodeBytes E ct data ad) = Inr (\<lparr>CompressionType = c, RawData = rd\<rparr>, [])"
    using CompressedData_roundtrip [OF ok, of "\<lparr>CompressionType = c, RawData = rd\<rparr>" "[]"] by (simp add: c(1))
  then show ?thesis using c(2) dec by (auto simp: Compressing_DecodeBytes_def compression_types)
qed

lemma reverse_loop:
  "length cs \<le> n \<Longrightarrow> k + length cs = n \<Longrightarrow> length rc = n \<Longrightarrow>
   foldl (\<lambda>rc (i, c). rc[n - i - 1 := c]) rc (enumerate k cs) = rev cs @ drop (length cs) rc"
proof (induction cs arbitrary: k rc)
  case (Cons c cs)
  have "foldl (\<lambda>rc (i, c). rc[n - i - 1 := c]) (rc[n - k - 1 := c]) (enumerate (Suc k) cs) =
      rev cs @ drop (length cs) (rc[n - k - 1 := c])"
    using Cons.prems by (intro Cons.IH) simp_all
  moreover have "n - k - 1 = length cs" "length cs < length rc" using Cons.prems by simp_all
  then have "drop (length cs) (rc[n - k - 1 := c]) = c # drop (Suc (length cs)) rc"
    by (simp add: upd_conv_take_nth_drop)
  ultimately show ?case by simp
qed simp

lemma CodecChain_Init_eq: "CodecChain_Init cs = CodecChain cs (rev cs)"
  using reverse_loop [of cs "length cs" 0 "replicate (length cs) (CompressingCodec 0)"] by (simp add: CodecChain_Init_def)

lemma EncodeBytes_chain_snoc:
  "EncodeBytes_chain E (xs @ [c]) data ad r =
     (case EncodeBytes_chain E xs data ad r of Inl e \<Rightarrow> Inl e | Inr (ret, r') \<Rightarrow> EncodeBytes E c ret ad r')"
  by (induction xs arbitrary: data r) (auto split: sum.split)

lemma encode_fits_chain_snoc:
  "encode_fits_chain E (xs @ [c]) data ad r \<longleftrightarrow> encode_fits_chain E xs data ad r \<and>
     (case EncodeBytes_chain E xs data ad r of Inl e \<Rightarrow> True | Inr (ret, r') \<Rightarrow> encode_fits E c ret ad r')"
  by (induction xs arbitrary: data r) (auto split: sum.split)

lemma encode_fits_chain_last: "encode_fits_chain E [c] data ad r = encode_fits E c data ad r"
  by (simp split: sum.split)

lemma decode_encode:
  assumes "codec_env_ok E"
  shows "codec_ok c \<Longrightarrow> encode_fits E c data ad r \<Longrightarrow> EncodeBytes E c data ad r = Inr (x, r') \<Longrightarrow>
    DecodeBytes E c x ad = Inr data"
proof (induction c arbitrary: data r x r')
  case (EncryptingCodec g k)
  then show ?case using Encrypting_roundtrip [OF assms, of g data ad r x r' k] by simp
next
  case (CompressingCodec ct)
  then show ?case using Compressing_roundtrip [OF assms] by auto
next
  case (CodecChain cs rcs)
  have "DecodeBytes_chain E cs x ad = Inr data"
    if "\<forall>c \<in> set cs. codec_ok c" "\<And>c data r x r'. c \<in> set cs \<Longrightarrow> codec_ok c \<Longrightarrow> encode_fits E c data ad r \<Longrightarrow>
        EncodeBytes E c data ad r = Inr (x, r') \<Longrightarrow> DecodeBytes E c x ad = Inr data"
      "encode_fits_chain E (rev cs) data ad r" "EncodeBytes_chain E (rev cs) data ad r = Inr (x, r')" for cs x r'
    using that
  proof (induction cs arbitrary: x r')
    case (Cons c cs)
    from Cons.prems(4) obtain y r1 where y: "EncodeBytes_chain E (rev cs) data ad r = Inr (y, r1)" "EncodeBytes E c y ad r1 = Inr (x, r')"
      by (auto simp: EncodeBytes_chain_snoc split: sum.splits)
    then have f: "encode_fits_chain E (rev cs) data ad r" "encode_fits E c y ad r1"
      using Cons.prems(3) by (simp_all add: encode_fits_chain_snoc)
    have "DecodeBytes E c x ad = Inr y" using Cons.prems(1) Cons.prems(2) [OF _ _ f(2) y(2)] by simp
    moreover have "DecodeBytes_chain E cs y ad = Inr data"
      using Cons.IH [OF _ _ f(1) y(1)] Cons.prems(1,2) by simp
    ultimately show ?case by simp
  qed simp
  then show ?case using CodecChain by auto
qed

lemma tag_ad_prefix: "take (length (tag_ad a')) (tag_ad a @ d) = tag_ad a' \<Longrightarrow> a' = a"
proof -
  have u: "i = j \<and> x = y" if "replicate i 1 @ 0 # x = replicate j 1 @ (0 :: byte) # y" for i j x y
    using that by (induction i arbitrary: j) (case_tac j; simp)+
  assume a: "take (length (tag_ad a')) (tag_ad a @ d) = tag_ad a'"
  then have "tag_ad a @ d = tag_ad a' @ drop (length (tag_ad a')) (tag_ad a @ d)" by (metis append_take_drop_id)
  then have "replicate (length a) 1 @ 0 # (a @ d) = replicate (length a') 1 @ 0 # (a' @ drop (length (tag_ad a')) (tag_ad a @ d))"
    by (simp add: tag_ad_def)
  from u [OF this] show "a' = a" by auto
qed

lemma demo_gcm_ok: "aead_ok demo_gcm"
  by (simp add: aead_ok_def demo_gcm_def)

lemma demo_gcm_binds: "aead_binds demo_gcm"
  unfolding aead_binds_def
proof (intro allI impI)
  fix n d a a' :: gostring assume "length n = NonceSize demo_gcm \<and> a \<noteq> a'"
  then have "take (length (tag_ad a')) (tag_ad a @ d) \<noteq> tag_ad a'" using tag_ad_prefix [of a' a d] by blast
  then show "isl (Open demo_gcm n (Seal demo_gcm n d a) a')" by (simp add: demo_gcm_def)
qed

lemma undrop_drop: "undrop_zero (drop_zero d) = Inr d"
  by (auto simp: undrop_zero_def drop_zero_def split: list.split)

lemma demo_env_ok: "codec_env_ok demo_env"
  by (simp add: codec_env_ok_def demo_env_def wire_ok undrop_drop)

section \<open>Properties\<close>

text \<open>C16: Whatever a chain of encrypting and compressing codecs has encoded, with whatever random
  nonces, the same chain decodes to the original data when given the same additional data. The
  chain is the one \<^verbatim>\<open>CodecChain.Init\<close> builds, which encodes in the reverse order.\<close>

theorem codec_chain_roundtrip:
  assumes "codec_env_ok E" "\<forall>c \<in> set cs. codec_ok c" "encode_fits E (CodecChain_Init cs) data ad r"
    "EncodeBytes E (CodecChain_Init cs) data ad r = Inr (x, r')"
  shows "DecodeBytes E (CodecChain_Init cs) x ad = Inr data"
  using decode_encode [OF assms(1) _ assms(3,4)] assms(2) by (simp add: CodecChain_Init_eq)

theorem codec_chain_roundtrip_witness:
  "DecodeBytes demo_env (CodecChain_Init [EncryptingCodec demo_gcm [], CompressingCodec 0])
     (case EncodeBytes demo_env (CodecChain_Init [EncryptingCodec demo_gcm [], CompressingCodec 0]) [0, 5] [9] () of
        Inr (x, r) \<Rightarrow> x | Inl e \<Rightarrow> []) [9] = Inr [0, 5]"
proof -
  let ?c = "CodecChain_Init [EncryptingCodec demo_gcm [], CompressingCodec 0]"
  obtain x where x: "EncodeBytes demo_env ?c [0, 5] [9] () = Inr (x, ())"
    by (simp add: CodecChain_Init_eq Encrypting_EncodeBytes_def) (simp add: demo_env_def)
  have "encode_fits demo_env ?c [0, 5] [9] ()"
    by (simp add: CodecChain_Init_eq encode_fits_chain_last del: encode_fits_chain.simps(2))
      (simp add: encode_fits_chain.simps(2) [of _ _ "[_]"] encode_fits_chain_last Compressing_EncodeBytes_def CompressedData_MarshalMsg_def
        compression_types demo_env_def demo_gcm_def drop_zero_def short_def tag_ad_def wire_def del: encode_fits_chain.simps(2))
  then have "DecodeBytes demo_env ?c x [9] = Inr [0, 5]" by (intro codec_chain_roundtrip [OF demo_env_ok _ _ x]) (simp_all add: demo_gcm_ok)
  then show ?thesis unfolding x by simp
qed

text \<open>C17: A block that was encoded by an encrypting chain for one block id does not decode for
  another: decoding with different additional data is an error, for a cipher that never accepts
  data under other additional data than it was sealed with.\<close>

theorem encrypted_block_is_bound_to_id:
  assumes "codec_env_ok E" "aead_binds g" "encode_fits E (CodecChain_Init (EncryptingCodec g k # cs)) data ad r"
    "EncodeBytes E (CodecChain_Init (EncryptingCodec g k # cs)) data ad r = Inr (x, r')" "ad' \<noteq> ad"
  shows "isl (DecodeBytes E (CodecChain_Init (EncryptingCodec g k # cs)) x ad')"
proof -
  obtain y r1 where y: "EncodeBytes_chain E (rev cs) data ad r = Inr (y, r1)" "Encrypting_EncodeBytes E g y ad r1 = Inr (x, r')"
    using assms(4) by (auto simp: CodecChain_Init_eq EncodeBytes_chain_snoc split: sum.splits)
  then have "encode_fits E (EncryptingCodec g k) y ad r1"
    using assms(3) by (simp add: CodecChain_Init_eq encode_fits_chain_snoc)
  from Encrypting_binds [OF assms(1,2) y(2) this assms(5)] show ?thesis
    by (auto simp: CodecChain_Init_eq isl_def)
qed

theorem encrypted_block_is_bound_to_id_witness:
  "isl (DecodeBytes demo_env (CodecChain_Init [EncryptingCodec demo_gcm []])
     (case EncodeBytes demo_env (CodecChain_Init [EncryptingCodec demo_gcm []]) [5] [9] () of
        Inr (x, r) \<Rightarrow> x | Inl e \<Rightarrow> []) [8])"
proof -
  let ?c = "CodecChain_Init [EncryptingCodec demo_gcm []]"
  obtain x where x: "EncodeBytes demo_env ?c [5] [9] () = Inr (x, ())"
    by (simp add: CodecChain_Init_eq Encrypting_EncodeBytes_def) (simp add: demo_env_def)
  have "encode_fits demo_env ?c [5] [9] ()"
    by (simp add: CodecChain_Init_eq encode_fits_chain_last del: encode_fits_chain.simps(2))
      (simp add: demo_env_def demo_gcm_def short_def tag_ad_def)
  then have "isl (DecodeBytes demo_env ?c x [8])" by (rule encrypted_block_is_bound_to_id [OF demo_env_ok demo_gcm_binds _ x]) simp
  then show ?thesis unfolding x by simp
qed

end
