(* ===== verification/StBackend.thy ===== *)
theory StBackend
  imports Codec "HOL-Library.AList"
begin

text \<open>
  The backends of the block storage (src/storage): the interface, the in-memory backend
  (inmemory/inmemory.go), the proxying and the encoding layer (proxybackend.go,
  codecbackend.go) and the factory (factory/factory.go). The contract of a backend is the locale
  \<open>block_store\<close>, which every layering of the three backends satisfies.

  A backend value is its implementation together with its state, so an operation returns the
  backend updated; layers recurse into the backend they wrap. Locks serialise the operations
  and have no counterpart. Reference counts are 32-bit: \<open>int32\<close> is the wrap-around. The state
  of the random source that encryption draws nonces from is threaded through \<^verbatim>\<open>StoreBlock\<close>.
\<close>

section \<open>Blocks\<close>

definition int32 :: "int \<Rightarrow> int" where
  "int32 x = (x + 2 ^ 31) mod 2 ^ 32 - 2 ^ 31"

type_synonym blockStatus = byte

definition BS_UNSET :: blockStatus where "BS_UNSET = 0"
definition BS_NORMAL :: blockStatus where "BS_NORMAL = 1"
definition BS_MISSING :: blockStatus where "BS_MISSING = 2"
definition BS_WANT_NORMAL :: blockStatus where "BS_WANT_NORMAL = 3"
definition BS_WEAK :: blockStatus where "BS_WEAK = 4"
definition BS_WANT_WEAK :: blockStatus where "BS_WANT_WEAK = 5"

record blockMetadata =
  RefCount :: int
  Status :: blockStatus

text \<open>The \<^verbatim>\<open>Backend\<close> pointer of a block is nil or the backend it was fetched from, which is the
  outermost one; only whether it is nil is kept. The block's data is lazily fetched.\<close>

record block =
  meta :: blockMetadata
  Id :: gostring
  Data :: "gostring option"
  hasBackend :: bool
  Stored :: "blockMetadata option"
  deps :: "gostring list option"
  storageRefCount :: int
  externalStorageRefCount :: int
  haveDiskRefs :: bool
  haveStorageRefs :: bool

definition new_block :: "gostring \<Rightarrow> block" where
  "new_block i = \<lparr>meta = \<lparr>RefCount = 0, Status = BS_UNSET\<rparr>, Id = i, Data = None, hasBackend = False, Stored = None,
     deps = None, storageRefCount = 0, externalStorageRefCount = 0, haveDiskRefs = False, haveStorageRefs = False\<rparr>"

section \<open>Backends\<close>

record inMemoryBackend =
  id2Block :: "gostring \<Rightarrow> block option"
  name2Id :: "gostring \<Rightarrow> gostring option"

definition NewInMemoryBackend :: inMemoryBackend where
  "NewInMemoryBackend = \<lparr>id2Block = Map.empty, name2Id = Map.empty\<rparr>"

definition im_DeleteBlock :: "block \<Rightarrow> inMemoryBackend \<Rightarrow> inMemoryBackend" where
  "im_DeleteBlock b im = im\<lparr>id2Block := (id2Block im)(Id b := None)\<rparr>"

definition im_GetBlockData :: "block \<Rightarrow> inMemoryBackend \<Rightarrow> gostring res" where
  "im_GetBlockData bl im =
     (case id2Block im (Id bl) of
        None \<Rightarrow> Inl (PanicMsg ''Non-existent block id in GetBlockData'')
      | Some b \<Rightarrow> deref (Data b))"

definition im_GetBlockById :: "gostring \<Rightarrow> inMemoryBackend \<Rightarrow> block option" where
  "im_GetBlockById i im = id2Block im i"

text \<open>Reading a missing key of a Go map of strings gives the empty string.\<close>

definition im_GetBlockIdByName :: "gostring \<Rightarrow> inMemoryBackend \<Rightarrow> gostring" where
  "im_GetBlockIdByName name im = (case name2Id im name of None \<Rightarrow> [] | Some i \<Rightarrow> i)"

definition im_SetNameToBlockId :: "gostring \<Rightarrow> gostring \<Rightarrow> inMemoryBackend \<Rightarrow> inMemoryBackend" where
  "im_SetNameToBlockId name i im = im\<lparr>name2Id := (name2Id im)(name \<mapsto> i)\<rparr>"

definition im_StoreBlock :: "block \<Rightarrow> inMemoryBackend \<Rightarrow> inMemoryBackend res" where
  "im_StoreBlock b im =
     (case id2Block im (Id b) of
        Some _ \<Rightarrow> Inl (PanicMsg ''Existing block id in StoreBlock'')
      | None \<Rightarrow> Inr (im\<lparr>id2Block := (id2Block im)(Id b \<mapsto> b\<lparr>hasBackend := True\<rparr>)\<rparr>))"

definition im_UpdateBlock :: "block \<Rightarrow> inMemoryBackend \<Rightarrow> (int \<times> inMemoryBackend) res" where
  "im_UpdateBlock b im =
     (case id2Block im (Id b) of
        None \<Rightarrow> Inl (PanicMsg ''Non-existent block id in StoreBlock'')
      | Some _ \<Rightarrow> Inr (1, im))"

datatype backend =
    InMemory inMemoryBackend
  | proxyBackend backend
  | codecBackend codec backend

fun DeleteBlock :: "block \<Rightarrow> backend \<Rightarrow> backend" where
  "DeleteBlock b (InMemory im) = InMemory (im_DeleteBlock b im)"
| "DeleteBlock b (proxyBackend be) = proxyBackend (DeleteBlock b be)"
| "DeleteBlock b (codecBackend c be) = codecBackend c (DeleteBlock b be)"

fun GetBlockData :: "('n, 'r) codec_env \<Rightarrow> block \<Rightarrow> backend \<Rightarrow> gostring res" where
  "GetBlockData E bl (InMemory im) = im_GetBlockData bl im"
| "GetBlockData E bl (proxyBackend be) = GetBlockData E bl be"
| "GetBlockData E bl (codecBackend c be) =
     bindE (GetBlockData E bl be) (\<lambda>data.
       case DecodeBytes E c data (Id bl) of
         Inl e \<Rightarrow> Inl (PanicMsg ''Decoding failed'')
       | Inr b \<Rightarrow> Inr b)"

fun GetBlockById :: "gostring \<Rightarrow> backend \<Rightarrow> block option" where
  "GetBlockById i (InMemory im) = im_GetBlockById i im"
| "GetBlockById i (proxyBackend be) =
     (case GetBlockById i be of None \<Rightarrow> None | Some bl \<Rightarrow> Some (bl\<lparr>hasBackend := True\<rparr>))"
| "GetBlockById i (codecBackend c be) =
     (case GetBlockById i be of
        None \<Rightarrow> None
      | Some b \<Rightarrow>
          (let b = b\<lparr>hasBackend := True\<rparr>
           in if Data b = None then Some b else Some (b\<lparr>Data := None\<rparr>)))"

fun GetBlockIdByName :: "gostring \<Rightarrow> backend \<Rightarrow> gostring" where
  "GetBlockIdByName name (InMemory im) = im_GetBlockIdByName name im"
| "GetBlockIdByName name (proxyBackend be) = GetBlockIdByName name be"
| "GetBlockIdByName name (codecBackend c be) = GetBlockIdByName name be"

fun SetNameToBlockId :: "gostring \<Rightarrow> gostring \<Rightarrow> backend \<Rightarrow> backend" where
  "SetNameToBlockId name i (InMemory im) = InMemory (im_SetNameToBlockId name i im)"
| "SetNameToBlockId name i (proxyBackend be) = proxyBackend (SetNameToBlockId name i be)"
| "SetNameToBlockId name i (codecBackend c be) = codecBackend c (SetNameToBlockId name i be)"

fun StoreBlock :: "('n, 'r) codec_env \<Rightarrow> block \<Rightarrow> backend \<Rightarrow> 'r \<Rightarrow> (backend \<times> 'r) res" where
  "StoreBlock E b (InMemory im) r = bindE (im_StoreBlock b im) (\<lambda>im'. Inr (InMemory im', r))"
| "StoreBlock E b (proxyBackend be) r = bindE (StoreBlock E b be r) (\<lambda>(be', r'). Inr (proxyBackend be', r'))"
| "StoreBlock E bl (codecBackend c be) r =
     bindE (deref (Data bl)) (\<lambda>dp.
       case EncodeBytes E c dp (Id bl) r of
         Inl e \<Rightarrow> Inl (PanicMsg ''Encoding failed'')
       | Inr (b, r1) \<Rightarrow>
           bindE (StoreBlock E (bl\<lparr>Data := Some b\<rparr>) be r1) (\<lambda>(be', r2). Inr (codecBackend c be', r2)))"

fun UpdateBlock :: "block \<Rightarrow> backend \<Rightarrow> (int \<times> backend) res" where
  "UpdateBlock b (InMemory im) = bindE (im_UpdateBlock b im) (\<lambda>(n, im'). Inr (n, InMemory im'))"
| "UpdateBlock b (proxyBackend be) = bindE (UpdateBlock b be) (\<lambda>(n, be'). Inr (n, proxyBackend be'))"
| "UpdateBlock b (codecBackend c be) = bindE (UpdateBlock b be) (\<lambda>(n, be'). Inr (n, codecBackend c be'))"

datatype backendFeature = CodecFeature

fun Supports :: "backendFeature \<Rightarrow> backend \<Rightarrow> bool" where
  "Supports f (InMemory im) = False"
| "Supports f (proxyBackend be) = Supports f be"
| "Supports f (codecBackend c be) = Supports f be"

section \<open>Layering\<close>

text \<open>\<^verbatim>\<open>SetBackend\<close> is a method of \<^verbatim>\<open>proxyBackend\<close> with a value receiver: on a \<^verbatim>\<open>codecBackend\<close>,
  which embeds one, it is the promoted method, and returns a pointer to the embedded part.\<close>

definition proxyBackend_SetBackend :: "backend \<Rightarrow> backend" where
  "proxyBackend_SetBackend be = proxyBackend be"

definition codecBackend_SetBackend :: "codec \<Rightarrow> backend \<Rightarrow> backend" where
  "codecBackend_SetBackend c be = proxyBackend_SetBackend be"

definition mapRunnerBackend_SetBackend :: "backend \<Rightarrow> backend" where
  "mapRunnerBackend_SetBackend be = proxyBackend_SetBackend be"

text \<open>The part of \<^verbatim>\<open>Storage.Init\<close> that builds the backend and the codec of the storage.\<close>

definition Storage_backends :: "codec option \<Rightarrow> backend \<Rightarrow> backend \<times> codec" where
  "Storage_backends cd be =
     (let (be1, c) = (case cd of
            Some c \<Rightarrow> (codecBackend_SetBackend c be, c)
          | None \<Rightarrow> (be, CodecChain_Init []))
      in (mapRunnerBackend_SetBackend be1, c))"

section \<open>Factory\<close>

record backendConfiguration =
  DelayPerOp :: int
  Directory :: gostring
  ValueUpdateInterval :: int
  config_Codec :: "codec option"
  CacheSize :: int
  Unsafe :: bool

text \<open>A factory makes a backend and initialises it with a configuration. The table of factories is
  a parameter, since most of the backends in it are not modelled here; what it makes comes with its
  own answer to \<^verbatim>\<open>Supports\<close> (the tree backend, for one, encodes by itself). An unknown name makes
  the code call a nil function.\<close>

type_synonym factory = "backendConfiguration \<Rightarrow> backend \<times> (backendFeature \<Rightarrow> bool)"

definition NewWithConfig ::
  "(gostring \<Rightarrow> factory option) \<Rightarrow> gostring \<Rightarrow> backendConfiguration \<Rightarrow> (backend \<times> (backendFeature \<Rightarrow> bool)) res" where
  "NewWithConfig backendFactories name config = bindE (deref (backendFactories name)) (\<lambda>make. Inr (make config))"

definition factory_New :: "(gostring \<Rightarrow> factory option) \<Rightarrow> gostring \<Rightarrow> gostring \<Rightarrow> (backend \<times> (backendFeature \<Rightarrow> bool)) res" where
  "factory_New backendFactories name dir =
     NewWithConfig backendFactories name
       \<lparr>DelayPerOp = 0, Directory = dir, ValueUpdateInterval = 0, config_Codec = None, CacheSize = 0, Unsafe = False\<rparr>"

record cryptoStorageConfiguration =
  BackendConfiguration :: backendConfiguration
  BackendName :: gostring
  Password :: gostring
  Salt :: gostring
  Iterations :: int
  QueueLength :: int

text \<open>A zero \<^verbatim>\<open>CodecChain\<close> has no codecs. The result is the queue length, and the backend and the
  codec of the storage after \<^verbatim>\<open>Storage.Init\<close>.\<close>

definition NewCryptoStorage ::
  "('n, 'r) codec_env \<Rightarrow> (gostring \<Rightarrow> factory option) \<Rightarrow> cryptoStorageConfiguration \<Rightarrow> (int \<times> backend \<times> codec) res" where
  "NewCryptoStorage E backendFactories config =
     (let iterations = IOr (Iterations config) [12345];
          queuelength = IOr (QueueLength config) [100];
          salt = SOr (Salt config) [bytes_of ''asdf''];
          beconfig = BackendConfiguration config
      in bindE (if Password config \<noteq> []
                then bindE (EncryptingCodec_Init E (Password config) salt iterations) (\<lambda>c1.
                     Inr (CodecChain_Init [c1, CompressingCodec CompressionType_UNSET]))
                else Inr (CodecChain_Init [CompressingCodec CompressionType_UNSET])) (\<lambda>c.
         bindE (NewWithConfig backendFactories (BackendName config) (beconfig\<lparr>config_Codec := Some c\<rparr>)) (\<lambda>(be, supports).
           let c' = (if supports CodecFeature then CodecChain [] [] else c);
               (be', c'') = Storage_backends (Some c') be
           in Inr (queuelength, be', c''))))"

text \<open>\<^verbatim>\<open>Block.GetData\<close> of a block that no storage has adopted: its backend is asked.\<close>

definition Block_GetData_unstored :: "('n, 'r) codec_env \<Rightarrow> backend \<Rightarrow> block \<Rightarrow> gostring res" where
  "Block_GetData_unstored E be b = (case Data b of Some d \<Rightarrow> Inr d | None \<Rightarrow> GetBlockData E b be)"

section \<open>The contract of a backend\<close>

text \<open>What a client of a backend relies on, in terms of the plain data kept under each id. A block
  fits when its encodings do and the random source delivers the nonces they take.\<close>

locale block_store =
  fixes ok :: "('n, 'r) codec_env \<Rightarrow> backend \<Rightarrow> bool"
    and data_of :: "('n, 'r) codec_env \<Rightarrow> backend \<Rightarrow> gostring \<Rightarrow> gostring option"
    and fits :: "('n, 'r) codec_env \<Rightarrow> block \<Rightarrow> backend \<Rightarrow> 'r \<Rightarrow> bool"
  assumes lookup_none: "ok E be \<Longrightarrow> data_of E be i = None \<Longrightarrow> GetBlockById i be = None"
    and lookup_some: "ok E be \<Longrightarrow> data_of E be i = Some d \<Longrightarrow>
      \<exists>b. GetBlockById i be = Some b \<and> Id b = i \<and> Block_GetData_unstored E be b = Inr d"
    and delete: "ok E be \<Longrightarrow> ok E (DeleteBlock b be)"
      "ok E be \<Longrightarrow> data_of E (DeleteBlock b be) = (data_of E be)(Id b := None)"
    and store: "ok E be \<Longrightarrow> fits E b be r \<Longrightarrow> Data b = Some d \<Longrightarrow> data_of E be (Id b) = None \<Longrightarrow>
      \<exists>be' r'. StoreBlock E b be r = Inr (be', r') \<and> ok E be' \<and> data_of E be' = (data_of E be)(Id b \<mapsto> d)"
    and store_twice: "ok E be \<Longrightarrow> data_of E be (Id b) \<noteq> None \<Longrightarrow> isl (StoreBlock E b be r)"
begin

lemma get_after_store:
  assumes "ok E be" "fits E b be r" "Data b = Some d" "data_of E be (Id b) = None"
  shows "\<exists>be' r' b'. StoreBlock E b be r = Inr (be', r') \<and> GetBlockById (Id b) be' = Some b' \<and> Id b' = Id b \<and>
    Block_GetData_unstored E be' b' = Inr d \<and> (\<forall>i. i \<noteq> Id b \<longrightarrow> data_of E be' i = data_of E be i)"
proof -
  obtain be' r' where s: "StoreBlock E b be r = Inr (be', r')" "ok E be'" "data_of E be' = (data_of E be)(Id b \<mapsto> d)"
    using store [OF assms] by blast
  then show ?thesis using lookup_some [OF s(2), of "Id b" d] by auto
qed

lemma get_after_delete: "ok E be \<Longrightarrow> GetBlockById (Id b) (DeleteBlock b be) = None"
  by (intro lookup_none [where E = E]) (simp_all add: delete)

end

fun plain_data :: "('n, 'r) codec_env \<Rightarrow> backend \<Rightarrow> gostring \<Rightarrow> gostring option" where
  "plain_data E (InMemory im) i = (case id2Block im i of None \<Rightarrow> None | Some b \<Rightarrow> Data b)"
| "plain_data E (proxyBackend be) i = plain_data E be i"
| "plain_data E (codecBackend c be) i =
     (case plain_data E be i of
        None \<Rightarrow> None
      | Some x \<Rightarrow> (case DecodeBytes E c x i of Inl e \<Rightarrow> None | Inr d \<Rightarrow> Some d))"

fun layers_ok :: "('n, 'r) codec_env \<Rightarrow> backend \<Rightarrow> bool" where
  "layers_ok E (InMemory im) \<longleftrightarrow> (\<forall>i b. id2Block im i = Some b \<longrightarrow> Id b = i \<and> Data b \<noteq> None)"
| "layers_ok E (proxyBackend be) \<longleftrightarrow> layers_ok E be"
| "layers_ok E (codecBackend c be) \<longleftrightarrow>
     codec_ok c \<and> layers_ok E be \<and> (\<forall>i x. plain_data E be i = Some x \<longrightarrow> \<not> isl (DecodeBytes E c x i))"

definition be_ok :: "('n, 'r) codec_env \<Rightarrow> backend \<Rightarrow> bool" where
  "be_ok E be \<longleftrightarrow> codec_env_ok E \<and> layers_ok E be"

text \<open>Every encoding on the way down succeeds and fits the headers of its format.\<close>

fun store_fits :: "('n, 'r) codec_env \<Rightarrow> block \<Rightarrow> backend \<Rightarrow> 'r \<Rightarrow> bool" where
  "store_fits E b (InMemory im) r \<longleftrightarrow> True"
| "store_fits E b (proxyBackend be) r \<longleftrightarrow> store_fits E b be r"
| "store_fits E b (codecBackend c be) r \<longleftrightarrow>
     (case Data b of
        None \<Rightarrow> False
      | Some d \<Rightarrow> encode_fits E c d (Id b) r \<and>
          (case EncodeBytes E c d (Id b) r of
             Inl e \<Rightarrow> False
           | Inr (x, r1) \<Rightarrow> store_fits E (b\<lparr>Data := Some x\<rparr>) be r1))"

lemma GetBlockById_none: "layers_ok E be \<Longrightarrow> plain_data E be i = None \<Longrightarrow> GetBlockById i be = None"
proof (induction be)
  case (codecBackend c be)
  then have "plain_data E be i = None" by (auto simp: isl_def split: option.splits sum.splits)
  then show ?case using codecBackend by simp
qed (fastforce simp: im_GetBlockById_def split: option.splits)+

text \<open>The data in the block that a lookup returns, if any, and the data the backend returns are
  the plain data.\<close>

lemma GetBlockData_plain: "layers_ok E be \<Longrightarrow> plain_data E be (Id b) = Some d \<Longrightarrow> GetBlockData E b be = Inr d"
  by (induction be arbitrary: d) (auto simp: im_GetBlockData_def deref_def split: option.splits sum.splits)

lemma GetBlockById_some:
  "layers_ok E be \<Longrightarrow> plain_data E be i = Some d \<Longrightarrow> \<exists>b. GetBlockById i be = Some b \<and> Id b = i \<and> Data b \<in> {None, Some d}"
proof (induction be arbitrary: d)
  case (proxyBackend be)
  then show ?case by fastforce
next
  case (codecBackend c be)
  then obtain x where "plain_data E be i = Some x" by (auto split: option.splits)
  then show ?case using codecBackend.IH codecBackend.prems(1) by fastforce
qed (auto simp: im_GetBlockById_def split: option.splits)

lemma layers_delete:
  "plain_data E (DeleteBlock b be) = (plain_data E be)(Id b := None) \<and> (layers_ok E be \<longrightarrow> layers_ok E (DeleteBlock b be))"
  by (induction be) (auto simp: im_DeleteBlock_def fun_eq_iff)

lemma layers_store:
  assumes "codec_env_ok E"
  shows "layers_ok E be \<Longrightarrow> store_fits E b be r \<Longrightarrow> Data b = Some d \<Longrightarrow> plain_data E be (Id b) = None \<Longrightarrow>
    \<exists>be' r'. StoreBlock E b be r = Inr (be', r') \<and> layers_ok E be' \<and> plain_data E be' = (plain_data E be)(Id b \<mapsto> d)"
proof (induction be arbitrary: b r d)
  case (InMemory im)
  then have "id2Block im (Id b) = None" by (fastforce split: option.splits)
  then show ?case using InMemory by (auto simp: im_StoreBlock_def fun_eq_iff)
next
  case (proxyBackend be)
  obtain be1 r1 where "StoreBlock E b be r = Inr (be1, r1)" "layers_ok E be1" "plain_data E be1 = (plain_data E be)(Id b \<mapsto> d)"
    using proxyBackend.IH [of b r d] proxyBackend.prems by (auto simp: fun_upd_def)
  then show ?case by (simp add: fun_eq_iff)
next
  case (codecBackend c be)
  let ?b = "\<lambda>x. b\<lparr>Data := Some x\<rparr>"
  obtain x r1 where x: "EncodeBytes E c d (Id b) r = Inr (x, r1)" "store_fits E (?b x) be r1"
    using codecBackend.prems by (auto split: sum.splits)
  have "plain_data E be (Id b) = None" using codecBackend.prems by (auto simp: isl_def split: option.splits sum.splits)
  then obtain be1 r2 where be1: "StoreBlock E (?b x) be r1 = Inr (be1, r2)" "layers_ok E be1"
      "plain_data E be1 = (plain_data E be)(Id b \<mapsto> x)"
    using codecBackend.IH [of "?b x" r1 x] codecBackend.prems x by (auto simp: fun_upd_def)
  moreover have "DecodeBytes E c x (Id b) = Inr d"
    using codecBackend.prems x by (intro decode_encode [OF assms _ _ x(1)]) simp_all
  ultimately show ?case using codecBackend.prems x by (auto simp: fun_eq_iff deref_def)
qed

lemma layers_store_twice: "layers_ok E be \<Longrightarrow> plain_data E be (Id b) \<noteq> None \<Longrightarrow> isl (StoreBlock E b be r)"
proof (induction be arbitrary: b r)
  case (InMemory im)
  then show ?case by (auto simp: im_StoreBlock_def split: option.splits)
next
  case (proxyBackend be)
  then obtain e where "StoreBlock E b be r = Inl e" by (auto simp: isl_def)
  then show ?case by simp
next
  case (codecBackend c be)
  have "isl (StoreBlock E (b\<lparr>Data := Some x\<rparr>) be r1)" for x r1
    using codecBackend.prems by (intro codecBackend.IH) (auto split: option.splits)
  then have "isl (bindE (StoreBlock E (b\<lparr>Data := Some x\<rparr>) be r1) k)" for x r1 and k :: "backend \<times> 'b \<Rightarrow> (backend \<times> 'b) res"
    by (metis bindE_Inl isl_def)
  then show ?case by (cases "Data b") (auto simp: deref_def split: sum.split)
qed

interpretation layered: block_store be_ok plain_data store_fits
proof
  fix E :: "('a, 'b) codec_env" and be :: backend and i :: gostring and d :: gostring
  assume "be_ok E be" "plain_data E be i = Some d"
  then show "\<exists>b. GetBlockById i be = Some b \<and> Id b = i \<and> Block_GetData_unstored E be b = Inr d"
    using GetBlockById_some [of E be i d] GetBlockData_plain [of E be]
    by (fastforce simp: be_ok_def Block_GetData_unstored_def)
qed (auto simp: be_ok_def layers_delete intro: GetBlockById_none layers_store_twice dest: layers_store)

lemma NewInMemoryBackend_ok: "codec_env_ok E \<Longrightarrow> be_ok E (InMemory NewInMemoryBackend)"
  by (simp add: be_ok_def NewInMemoryBackend_def)

section \<open>Properties\<close>

text \<open>C18: Storing a new block and then looking it up, through any layering of encoding and proxying
  backends over the in-memory backend, works: the store returns, the lookup finds a block of that id whose data is the data
  stored, and every other id keeps its data.\<close>

theorem backend_store_lookup:
  assumes "be_ok E be" "store_fits E b be r" "Data b = Some d" "plain_data E be (Id b) = None"
  shows "\<exists>be' r' b'. StoreBlock E b be r = Inr (be', r') \<and> GetBlockById (Id b) be' = Some b' \<and> Id b' = Id b \<and>
    Block_GetData_unstored E be' b' = Inr d \<and> (\<forall>i. i \<noteq> Id b \<longrightarrow> plain_data E be' i = plain_data E be i)"
  using assms by (rule layered.get_after_store)

definition demo_layers :: backend where
  "demo_layers = codecBackend (CodecChain_Init [EncryptingCodec demo_gcm []]) (proxyBackend (InMemory NewInMemoryBackend))"

lemma demo_layers_ok: "be_ok demo_env demo_layers"
  by (simp add: be_ok_def demo_layers_def NewInMemoryBackend_def demo_env_ok CodecChain_Init_eq demo_gcm_ok)

lemma demo_store: "store_fits demo_env ((new_block [9])\<lparr>Data := Some [5]\<rparr>) demo_layers ()"
  by (simp add: demo_layers_def CodecChain_Init_eq Encrypting_EncodeBytes_def new_block_def encode_fits_chain_last
      del: encode_fits_chain.simps(2))
    (simp add: demo_env_def demo_gcm_def short_def tag_ad_def)

theorem backend_store_lookup_witness:
  "\<exists>be' r' b'. StoreBlock demo_env ((new_block [9])\<lparr>Data := Some [5]\<rparr>) demo_layers () = Inr (be', r') \<and>
     GetBlockById [9] be' = Some b' \<and> Block_GetData_unstored demo_env be' b' = Inr [5]"
proof -
  let ?b = "(new_block [9])\<lparr>Data := Some [5]\<rparr>"
  have "Data ?b = Some [5]" "Id ?b = [9]" "plain_data demo_env demo_layers (Id ?b) = None"
    by (simp_all add: new_block_def demo_layers_def NewInMemoryBackend_def)
  then show ?thesis using backend_store_lookup [OF demo_layers_ok demo_store] by auto
qed

end
