(* ===== verification/StName.thy ===== *)
theory StName
  imports StBackend
begin

text \<open>
  Names kept in a single block (src/storage/nameinblock.go), with the generated serialisation of
  the name map (src/storage/storage\_greenpack\_gen.go).

  A Go map is an association list with distinct keys; its order is the order an iteration
  happens to take. A nil map is \<open>None\<close>: reading and deleting work on it, assigning panics.
\<close>

section \<open>Block metadata\<close>

definition BlockMetadata_MarshalMsg :: "'n msgp_lib \<Rightarrow> blockMetadata \<Rightarrow> gostring \<Rightarrow> gostring" where
  "BlockMetadata_MarshalMsg L z b =
     (let b = b @ [0x92];
          b = AppendInt32 L b (word_of_int (RefCount z))
      in AppendByte L b (Status z))"

definition BlockMetadata_UnmarshalMsg :: "'n msgp_lib \<Rightarrow> gostring \<Rightarrow> msg_err + blockMetadata \<times> gostring" where
  "BlockMetadata_UnmarshalMsg L bts =
     unmarshal_top L
       (rbind (expect_array L 2) (\<lambda>_.
        rbind (ReadInt32Bytes L) (\<lambda>rc.
        rbind (ReadByteBytes L) (\<lambda>st.
        rret \<lparr>RefCount = sint rc, Status = st\<rparr>)))) bts"

definition BlockMetadata_Msgsize :: "msgp_sizes \<Rightarrow> int" where
  "BlockMetadata_Msgsize sz = 1 + Int32Size sz + ByteSize sz"

definition BlockStatus_MarshalMsg :: "'n msgp_lib \<Rightarrow> blockStatus \<Rightarrow> gostring \<Rightarrow> gostring" where
  "BlockStatus_MarshalMsg L z b = AppendByte L b z"

definition BlockStatus_UnmarshalMsg :: "'n msgp_lib \<Rightarrow> gostring \<Rightarrow> msg_err + blockStatus \<times> gostring" where
  "BlockStatus_UnmarshalMsg L bts = unmarshal_top L (ReadByteBytes L) bts"

section \<open>The name map\<close>

type_synonym namemap = "(gostring \<times> gostring) list"

definition NameMapBlock_MarshalMsg :: "'n msgp_lib \<Rightarrow> namemap option \<Rightarrow> gostring \<Rightarrow> gostring" where
  "NameMapBlock_MarshalMsg L z b =
     (let m = (case z of None \<Rightarrow> [] | Some m \<Rightarrow> m);
          b = b @ [0x91];
          b = AppendMapHeader L b (len32 m)
      in foldl (\<lambda>b (k, v). let b = AppendString L b k in AppendString L b v) b m)"

text \<open>Into a fresh \<^verbatim>\<open>NameMapBlock\<close>: the map is only allocated for a positive count.\<close>

definition NameMapBlock_UnmarshalMsg :: "'n msgp_lib \<Rightarrow> gostring \<Rightarrow> msg_err + namemap option \<times> gostring" where
  "NameMapBlock_UnmarshalMsg L bts =
     unmarshal_top L
       (rbind (expect_array L 1) (\<lambda>_. \<lambda>(n, bts).
          if AlwaysNil L n then rret None (n, bts)
          else
            rbind (ReadMapHeaderBytes L) (\<lambda>sz.
            rbind (rtimes (unat sz) (rbind (ReadStringBytes L) (\<lambda>k. rbind (ReadStringBytes L) (\<lambda>v. rret (k, v))))) (\<lambda>kvs.
            rret (if 0 < sz then Some (foldl (\<lambda>m (k, v). AList.update k v m) [] kvs) else None))) (n, bts))) bts"

definition NameMapBlock_Msgsize :: "msgp_sizes \<Rightarrow> namemap option \<Rightarrow> int" where
  "NameMapBlock_Msgsize sz z =
     (case z of
        None \<Rightarrow> 1 + MapHeaderSize sz
      | Some m \<Rightarrow> foldl (\<lambda>s (k, v). s + StringPrefixSize sz + int (length k) + StringPrefixSize sz + int (length v))
                  (1 + MapHeaderSize sz) m)"

section \<open>The backend\<close>

record nameInBlockBackend =
  mapName :: gostring
  bb :: backend
  namedMap :: "namemap option option"
  nblock :: "block option"

definition NameInBlock_Init :: "gostring \<Rightarrow> backend \<Rightarrow> nameInBlockBackend" where
  "NameInBlock_Init name be = \<lparr>mapName = name, bb = be, namedMap = None, nblock = None\<rparr>"

definition nib_getBlock :: "('n, 'r) codec_env \<Rightarrow> nameInBlockBackend \<Rightarrow> (namemap option \<times> nameInBlockBackend) res" where
  "nib_getBlock E s =
     (case namedMap s of
        Some m \<Rightarrow> Inr (m, s)
      | None \<Rightarrow>
          (case GetBlockById (mapName s) (bb s) of
             None \<Rightarrow> Inr (Some [], s\<lparr>namedMap := Some (Some [])\<rparr>)
           | Some v \<Rightarrow>
               bindE (Block_GetData_unstored E (bb s) v) (\<lambda>b.
                 case NameMapBlock_UnmarshalMsg (lib E) b of
                   Inl e \<Rightarrow> Inl (PanicMsg e)
                 | Inr (m, _) \<Rightarrow> Inr (m, s\<lparr>nblock := Some v, namedMap := Some m\<rparr>))))"

definition nib_GetBlockIdByName ::
  "('n, 'r) codec_env \<Rightarrow> gostring \<Rightarrow> nameInBlockBackend \<Rightarrow> (gostring \<times> nameInBlockBackend) res" where
  "nib_GetBlockIdByName E name s =
     bindE (nib_getBlock E s) (\<lambda>(m, s').
       Inr (case m of None \<Rightarrow> [] | Some kvs \<Rightarrow> (case map_of kvs name of None \<Rightarrow> [] | Some v \<Rightarrow> v), s'))"

definition nib_SetNameToBlockId ::
  "('n, 'r) codec_env \<Rightarrow> gostring \<Rightarrow> gostring \<Rightarrow> nameInBlockBackend \<Rightarrow> 'r \<Rightarrow> (nameInBlockBackend \<times> 'r) res" where
  "nib_SetNameToBlockId E name block_id s r =
     bindE (nib_getBlock E s) (\<lambda>(m, s1).
     bindE (if block_id \<noteq> []
            then (case m of
                    None \<Rightarrow> Inl (PanicMsg ''assignment to entry in nil map'')
                  | Some kvs \<Rightarrow> Inr (Some (AList.update name block_id kvs)))
            else Inr (map_option (AList.delete name) m)) (\<lambda>m'.
       let s2 = s1\<lparr>namedMap := Some m'\<rparr>;
           s3 = (case nblock s2 of None \<Rightarrow> s2 | Some bl \<Rightarrow> s2\<lparr>bb := DeleteBlock bl (bb s2)\<rparr>);
           b = NameMapBlock_MarshalMsg (lib E) m' [];
           bl = (new_block (mapName s3))\<lparr>Data := Some b\<rparr>
       in bindE (StoreBlock E bl (bb s3) r) (\<lambda>(be, r').
          Inr (s3\<lparr>bb := be, nblock := Some bl\<rparr>, r'))))"

section \<open>Lemmas\<close>

lemma BlockMetadata_roundtrip:
  assumes "msgp_ok L" "- (2 ^ 31) \<le> RefCount z" "RefCount z < 2 ^ 31"
  shows "BlockMetadata_UnmarshalMsg L (BlockMetadata_MarshalMsg L z [] @ r) = Inr (z, r)"
proof -
  have "sint (word_of_int (RefCount z) :: 32 word) = RefCount z"
    using assms(2,3) by (simp add: sint_sbintrunc' signed_take_bit_int_eq_self)
  then show ?thesis
    unfolding BlockMetadata_UnmarshalMsg_def
    using msgp_nil(3) [OF assms(1)]
    by (intro unmarshal_top_ok [OF assms(1)])
      (simp_all add: BlockMetadata_MarshalMsg_def msgp_append [OF assms(1)] expect_array_ok [OF assms(1)] msgp_read [OF assms(1)])
qed

lemma BlockMetadata_size:
  "msgp_ok L \<Longrightarrow> int (length (BlockMetadata_MarshalMsg L z [])) \<le> BlockMetadata_Msgsize (sizes L)"
  using msgp_bound [of L] by (simp add: BlockMetadata_MarshalMsg_def BlockMetadata_Msgsize_def msgp_append) (smt (verit))

lemma BlockStatus_roundtrip: "msgp_ok L \<Longrightarrow> BlockStatus_UnmarshalMsg L (BlockStatus_MarshalMsg L z [] @ r) = Inr (z, r)"
  unfolding BlockStatus_UnmarshalMsg_def BlockStatus_MarshalMsg_def
  using msgp_nil(3) [of L] prim_okD(4) [OF msgp_prims(6), of L]
  by (intro unmarshal_top_ok) (simp_all add: msgp_read)

definition pair_enc :: "'n msgp_lib \<Rightarrow> gostring \<times> gostring \<Rightarrow> gostring" where
  "pair_enc L p = AppendString L [] (fst p) @ AppendString L [] (snd p)"

definition short_map :: "namemap \<Rightarrow> bool" where
  "short_map m \<longleftrightarrow> short m \<and> (\<forall>p \<in> set m. short (fst p) \<and> short (snd p))"

lemma NameMapBlock_MarshalMsg_eq:
  assumes "msgp_ok L"
  shows "NameMapBlock_MarshalMsg L z [] =
    (let m = (case z of None \<Rightarrow> [] | Some m \<Rightarrow> m)
     in 0x91 # AppendMapHeader L [] (len32 m) @ concat (map (pair_enc L) m))"
proof -
  have "foldl (\<lambda>b (k, v). let b = AppendString L b k in AppendString L b v) a m = a @ concat (map (pair_enc L) m)"
    if "a \<noteq> []" for a m
    using that by (induction m arbitrary: a) (auto simp: pair_enc_def msgp_append [OF assms])
  then show ?thesis by (simp add: NameMapBlock_MarshalMsg_def msgp_append [OF assms] Let_def)
qed

lemma set_AList_update: "distinct (map fst m) \<Longrightarrow> set (AList.update k v m) = insert (k, v) {p \<in> set m. fst p \<noteq> k}"
  by (induction m) (auto simp: image_iff)

lemma AList_update_new: "k \<notin> fst ` set m \<Longrightarrow> AList.update k v m = m @ [(k, v)]"
  by (induction m) auto

lemma foldl_update: "distinct (map fst (m @ kvs)) \<Longrightarrow> foldl (\<lambda>m (k, v). AList.update k v m) m kvs = m @ kvs"
proof (induction kvs arbitrary: m)
  case (Cons p kvs)
  obtain k v where p: "p = (k, v)" by (cases p)
  have "AList.update k v m = m @ [(k, v)]" using Cons.prems by (intro AList_update_new) (auto simp: p)
  then show ?case using Cons.IH [of "m @ [(k, v)]"] Cons.prems by (simp add: p)
qed simp

text \<open>A name map that has entries reads back; an empty one reads back as the nil map.\<close>

lemma NameMapBlock_roundtrip:
  assumes "msgp_ok L" "short_map m" "distinct (map fst m)"
  shows "NameMapBlock_UnmarshalMsg L (NameMapBlock_MarshalMsg L (Some m) [] @ r) =
    Inr (if m = [] then None else Some m, r)"
proof -
  let ?pair = "rbind (ReadStringBytes L) (\<lambda>k. rbind (ReadStringBytes L) (\<lambda>v. rret (k, v)))"
  note live = msgp_nil(3) [OF assms(1)]
  have "?pair (nbs_Init L, pair_enc L p @ r) = Inr (p, nbs_Init L, r)" if "p \<in> set m" for p r
    using that assms(2) live by (auto simp: pair_enc_def short_map_def msgp_read [OF assms(1)])
  then have loop: "rtimes (length m) ?pair (nbs_Init L, concat (map (pair_enc L) m) @ r) = Inr (map id m, nbs_Init L, r)"
    by (intro rtimes_ok) simp
  have len: "unat (len32 m) = length m" using assms(2) by (simp add: short_map_def unat_len32)
  then have "0 < len32 m \<longleftrightarrow> m \<noteq> []" by (auto simp: word_less_nat_alt)
  then show ?thesis
    unfolding NameMapBlock_UnmarshalMsg_def
    using live loop len foldl_update [of "[]" m] assms(3)
    by (intro unmarshal_top_ok [OF assms(1)])
      (simp_all add: NameMapBlock_MarshalMsg_eq [OF assms(1)] Let_def expect_array_ok [OF assms(1)] msgp_read [OF assms(1)])
qed

text \<open>The names a name map holds; a name without an entry has the empty id.\<close>

definition names_of :: "namemap option \<Rightarrow> gostring \<Rightarrow> gostring" where
  "names_of m name = (case m of None \<Rightarrow> [] | Some kvs \<Rightarrow> (case map_of kvs name of None \<Rightarrow> [] | Some v \<Rightarrow> v))"

text \<open>The name map that the block in the backend holds.\<close>

definition stored_map :: "'n msgp_lib \<Rightarrow> gostring option \<Rightarrow> namemap option \<Rightarrow> bool" where
  "stored_map L d m \<longleftrightarrow>
     (case d of None \<Rightarrow> m = Some [] | Some x \<Rightarrow> (\<exists>r. NameMapBlock_UnmarshalMsg L x = Inr (m, r)))"

text \<open>The name map in use is the one in the backend, but for an empty one, which is stored as the
  nil map; the block to delete before the next one is stored is the one that is there.\<close>

definition map_ok :: "namemap option \<Rightarrow> bool" where
  "map_ok m \<longleftrightarrow> (case m of None \<Rightarrow> True | Some kvs \<Rightarrow> distinct (map fst kvs))"

text \<open>The parts of \<^verbatim>\<open>SetNameToBlockId\<close>: the map it writes, the block it stores, and the backend it
  stores it in.\<close>

definition next_map :: "gostring \<Rightarrow> gostring \<Rightarrow> namemap \<Rightarrow> namemap" where
  "next_map name i kvs = (if i \<noteq> [] then AList.update name i kvs else AList.delete name kvs)"

definition name_block :: "'n msgp_lib \<Rightarrow> gostring \<Rightarrow> namemap \<Rightarrow> block" where
  "name_block L nm kvs = (new_block nm)\<lparr>Data := Some (NameMapBlock_MarshalMsg L (Some kvs) [])\<rparr>"

definition cleared :: "nameInBlockBackend \<Rightarrow> backend" where
  "cleared s = (case nblock s of None \<Rightarrow> bb s | Some bl \<Rightarrow> DeleteBlock bl (bb s))"

lemma nib_SetNameToBlockId_eq:
  assumes "namedMap s = Some (Some kvs)"
  shows "nib_SetNameToBlockId E name i s r =
    bindE (StoreBlock E (name_block (lib E) (mapName s) (next_map name i kvs)) (cleared s) r) (\<lambda>(be, r').
      Inr (s\<lparr>namedMap := Some (Some (next_map name i kvs)), bb := be,
             nblock := Some (name_block (lib E) (mapName s) (next_map name i kvs))\<rparr>, r'))"
  using assms by (cases "nblock s")
    (simp_all add: nib_SetNameToBlockId_def nib_getBlock_def next_map_def name_block_def cleared_def Let_def)

lemma names_of_next: "names_of (Some (next_map name i kvs)) = (names_of (Some kvs))(name := i)"
  by (auto simp: names_of_def next_map_def update_conv' delete_conv' fun_eq_iff)

lemma distinct_next: "distinct (map fst kvs) \<Longrightarrow> distinct (map fst (next_map name i kvs))"
  by (simp add: next_map_def distinct_update distinct_delete)

lemma names_of_empty: "names_of (if m = [] then None else Some m) = names_of (Some m)"
  by (auto simp: names_of_def fun_eq_iff)

context block_store
begin

definition nib_inv :: "('n, 'r) codec_env \<Rightarrow> nameInBlockBackend \<Rightarrow> (gostring \<Rightarrow> gostring) \<Rightarrow> bool" where
  "nib_inv E s M \<longleftrightarrow>
     ok E (bb s) \<and>
     (\<exists>m. stored_map (lib E) (data_of E (bb s) (mapName s)) m \<and> map_ok m \<and> names_of m = M) \<and>
     (case namedMap s of
        None \<Rightarrow> nblock s = None
      | Some m \<Rightarrow> map_ok m \<and> names_of m = M \<and>
          (case nblock s of None \<Rightarrow> data_of E (bb s) (mapName s) = None | Some b \<Rightarrow> Id b = mapName s))"

lemma nib_getBlock_ok:
  assumes "nib_inv E s M"
  shows "\<exists>m s'. nib_getBlock E s = Inr (m, s') \<and> nib_inv E s' M \<and> namedMap s' = Some m \<and> mapName s' = mapName s \<and> bb s' = bb s"
proof (cases "namedMap s")
  case None
  obtain m where m: "stored_map (lib E) (data_of E (bb s) (mapName s)) m" "map_ok m" "names_of m = M" and ok: "ok E (bb s)"
    using assms by (auto simp: nib_inv_def)
  show ?thesis
  proof (cases "data_of E (bb s) (mapName s)")
    case no: None
    then have "GetBlockById (mapName s) (bb s) = None" by (rule lookup_none [OF ok])
    then show ?thesis using m ok no None assms by (simp add: nib_getBlock_def nib_inv_def stored_map_def)
  next
    case (Some x)
    then obtain r where r: "NameMapBlock_UnmarshalMsg (lib E) x = Inr (m, r)" using m(1) by (auto simp: stored_map_def)
    obtain b where "GetBlockById (mapName s) (bb s) = Some b" "Id b = mapName s" "Block_GetData_unstored E (bb s) b = Inr x"
      using lookup_some [OF ok Some] by blast
    then show ?thesis using m ok r None Some by (auto simp: nib_getBlock_def nib_inv_def stored_map_def)
  qed
qed (use assms in \<open>simp add: nib_getBlock_def\<close>)

lemma nib_get:
  assumes "nib_inv E s M"
  shows "\<exists>s'. nib_GetBlockIdByName E name s = Inr (M name, s') \<and> nib_inv E s' M"
proof -
  obtain m s' where "nib_getBlock E s = Inr (m, s')" "nib_inv E s' M" "namedMap s' = Some m"
    using nib_getBlock_ok [OF assms] by blast
  then show ?thesis by (auto simp: nib_GetBlockIdByName_def nib_inv_def names_of_def)
qed

lemma nib_set:
  assumes "nib_inv E s M" "msgp_ok (lib E)" "namedMap s = Some (Some kvs)" "short_map (next_map name i kvs)"
    "fits E (name_block (lib E) (mapName s) (next_map name i kvs)) (cleared s) r"
  shows "\<exists>s' r'. nib_SetNameToBlockId E name i s r = Inr (s', r') \<and> nib_inv E s' (M(name := i)) \<and>
    mapName s' = mapName s \<and> namedMap s' = Some (Some (next_map name i kvs)) \<and>
    data_of E (bb s') (mapName s) = Some (NameMapBlock_MarshalMsg (lib E) (Some (next_map name i kvs)) []) \<and>
    (\<forall>j. j \<noteq> mapName s \<longrightarrow> data_of E (bb s') j = data_of E (bb s) j)"
proof -
  let ?m = "next_map name i kvs"
  let ?b = "name_block (lib E) (mapName s) ?m"
  have ok: "ok E (cleared s)" and free: "data_of E (cleared s) (mapName s) = None" and
      other: "\<forall>j. j \<noteq> mapName s \<longrightarrow> data_of E (cleared s) j = data_of E (bb s) j"
    using assms(1,3) by (auto simp: nib_inv_def cleared_def delete split: option.splits)
  have M: "M = names_of (Some kvs)" and dist: "distinct (map fst ?m)"
    using assms(1,3) by (auto simp: nib_inv_def map_ok_def intro: distinct_next)
  have b: "Data ?b = Some (NameMapBlock_MarshalMsg (lib E) (Some ?m) [])" "Id ?b = mapName s"
    by (simp_all add: name_block_def new_block_def)
  obtain be r' where be: "StoreBlock E ?b (cleared s) r = Inr (be, r')" "ok E be"
      "data_of E be = (data_of E (cleared s))(mapName s \<mapsto> NameMapBlock_MarshalMsg (lib E) (Some ?m) [])"
    using store [OF ok assms(5) b(1)] b(2) free by auto
  have "stored_map (lib E) (data_of E be (mapName s)) (if ?m = [] then None else Some ?m)"
    using NameMapBlock_roundtrip [OF assms(2,4) dist, of "[]"] by (simp add: be(3) stored_map_def)
  then have "\<exists>m. stored_map (lib E) (data_of E be (mapName s)) m \<and> map_ok m \<and> names_of m = M(name := i)"
    using dist by (intro exI conjI) (assumption, simp_all add: map_ok_def M names_of_empty names_of_next)
  then show ?thesis
    using be other dist b by (simp add: nib_SetNameToBlockId_eq [OF assms(3)] nib_inv_def map_ok_def names_of_next M)
qed

text \<open>A stored map without names reads back as a nil map, into which the next name cannot be put.\<close>

lemma nib_set_on_nil:
  assumes "ok E be" "msgp_ok (lib E)" "data_of E be nm = Some (NameMapBlock_MarshalMsg (lib E) (Some []) [])" "i \<noteq> []"
  shows "nib_SetNameToBlockId E name i (NameInBlock_Init nm be) r = Inl (PanicMsg ''assignment to entry in nil map'')"
proof -
  have "NameMapBlock_UnmarshalMsg (lib E) (NameMapBlock_MarshalMsg (lib E) (Some []) []) = Inr (None, [])"
    using NameMapBlock_roundtrip [OF assms(2), of "[]" "[]"] by (simp add: short_map_def short_def)
  moreover obtain b where "GetBlockById nm be = Some b"
      "Block_GetData_unstored E be b = Inr (NameMapBlock_MarshalMsg (lib E) (Some []) [])"
    using lookup_some [OF assms(1,3)] by blast
  ultimately show ?thesis using assms(4) by (simp add: nib_SetNameToBlockId_def nib_getBlock_def NameInBlock_Init_def)
qed

text \<open>Opening the backend again.\<close>

lemma nib_reopen: "nib_inv E s M \<Longrightarrow> nib_inv E (NameInBlock_Init (mapName s) (bb s)) M"
  by (simp add: nib_inv_def NameInBlock_Init_def)

lemma nib_init: "ok E be \<Longrightarrow> data_of E be nm = None \<Longrightarrow> nib_inv E (NameInBlock_Init nm be) (\<lambda>_. [])"
  by (auto simp: nib_inv_def NameInBlock_Init_def stored_map_def map_ok_def names_of_def fun_eq_iff intro!: exI [of _ "Some []"])

end

section \<open>Properties\<close>

text \<open>C19: Setting a name, in a name map that is loaded and agrees with the backend, returns; every
  name then has the id last set, in this instance and in one opened anew on the same backend. No
  other block changes.\<close>

theorem names_survive_reopen:
  assumes "layered.nib_inv E s M" "msgp_ok (lib E)" "namedMap s = Some (Some kvs)" "short_map (next_map name i kvs)"
    "store_fits E (name_block (lib E) (mapName s) (next_map name i kvs)) (cleared s) r"
  shows "\<exists>s' r'. nib_SetNameToBlockId E name i s r = Inr (s', r') \<and>
    (\<forall>n. \<exists>t. nib_GetBlockIdByName E n s' = Inr ((M(name := i)) n, t)) \<and>
    (\<forall>n. \<exists>t. nib_GetBlockIdByName E n (NameInBlock_Init (mapName s) (bb s')) = Inr ((M(name := i)) n, t)) \<and>
    (\<forall>j. j \<noteq> mapName s \<longrightarrow> plain_data E (bb s') j = plain_data E (bb s) j)"
proof -
  obtain s' r' where s': "nib_SetNameToBlockId E name i s r = Inr (s', r')" "layered.nib_inv E s' (M(name := i))"
      "mapName s' = mapName s" "\<forall>j. j \<noteq> mapName s \<longrightarrow> plain_data E (bb s') j = plain_data E (bb s) j"
    using layered.nib_set [OF assms] by blast
  then have "layered.nib_inv E (NameInBlock_Init (mapName s) (bb s')) (M(name := i))"
    using layered.nib_reopen [OF s'(2)] by simp
  then show ?thesis using s' layered.nib_get by blast
qed

definition empty_names :: nameInBlockBackend where
  "empty_names = (NameInBlock_Init [1] (InMemory NewInMemoryBackend))\<lparr>namedMap := Some (Some [])\<rparr>"

lemma empty_names_ok: "layered.nib_inv demo_env empty_names (\<lambda>_. [])"
  using NewInMemoryBackend_ok [OF demo_env_ok]
  by (simp add: layered.nib_inv_def empty_names_def NameInBlock_Init_def map_ok_def names_of_def fun_eq_iff)
    (intro conjI exI [of _ "Some []"], simp_all add: stored_map_def NewInMemoryBackend_def)

theorem names_survive_reopen_witness:
  "\<exists>s' r'. nib_SetNameToBlockId demo_env [2] [3] empty_names () = Inr (s', r') \<and>
     (\<exists>t. nib_GetBlockIdByName demo_env [2] (NameInBlock_Init [1] (bb s')) = Inr ([3], t))"
proof -
  have s: "namedMap empty_names = Some (Some [])" "mapName empty_names = [1]" "cleared empty_names = InMemory NewInMemoryBackend"
    by (simp_all add: empty_names_def NameInBlock_Init_def cleared_def)
  have "msgp_ok (lib demo_env)" by (simp add: demo_env_def wire_ok)
  moreover have "short_map (next_map [2] [3] [])" by (simp add: short_map_def next_map_def short_def)
  ultimately obtain s' r' where "nib_SetNameToBlockId demo_env [2] [3] empty_names () = Inr (s', r')"
      "\<forall>n. \<exists>t. nib_GetBlockIdByName demo_env n (NameInBlock_Init [1] (bb s')) = Inr (((\<lambda>_. [])([2] := [3])) n, t)"
    using names_survive_reopen [OF empty_names_ok _ s(1), of "[2]" "[3]" "()"] unfolding s(2,3) store_fits.simps by blast
  then show ?thesis by (metis fun_upd_same)
qed

text \<open>C20: When the only name there is has been removed, which returns, and the backend is opened
  anew, setting any name to any block panics: the stored empty map reads back as a nil map.\<close>

theorem name_set_after_empty_reopen_panics:
  assumes "layered.nib_inv E s M" "msgp_ok (lib E)" "namedMap s = Some (Some [(name, v)])"
    "store_fits E (name_block (lib E) (mapName s) []) (cleared s) r" "i \<noteq> []"
  shows "\<exists>s' r'. nib_SetNameToBlockId E name [] s r = Inr (s', r') \<and>
    (\<forall>b r''. nib_SetNameToBlockId E b i (NameInBlock_Init (mapName s) (bb s')) r'' =
      Inl (PanicMsg ''assignment to entry in nil map''))"
proof -
  have n: "next_map name [] [(name, v)] = []" by (simp add: next_map_def)
  obtain s' r' where s': "nib_SetNameToBlockId E name [] s r = Inr (s', r')" "layered.nib_inv E s' (M(name := []))"
      "plain_data E (bb s') (mapName s) = Some (NameMapBlock_MarshalMsg (lib E) (Some []) [])"
    using layered.nib_set [OF assms(1,2,3), of name "[]" r] assms(4) unfolding n by (auto simp: short_map_def short_def)
  have "be_ok E (bb s')" using s'(2) by (simp add: layered.nib_inv_def)
  then show ?thesis using s'(1) layered.nib_set_on_nil [OF _ assms(2) s'(3) assms(5)] by blast
qed

lemma store_in_memory: "StoreBlock E b (InMemory im) r = Inr (be, r') \<Longrightarrow> \<exists>im'. be = InMemory im'"
  by (auto simp: res_simps)

theorem name_set_after_empty_reopen_panics_witness:
  "\<exists>s1 r1 s2 r2. nib_SetNameToBlockId demo_env [2] [3] empty_names () = Inr (s1, r1) \<and>
     nib_SetNameToBlockId demo_env [2] [] s1 r1 = Inr (s2, r2) \<and>
     nib_SetNameToBlockId demo_env [4] [5] (NameInBlock_Init [1] (bb s2)) r2 = Inl (PanicMsg ''assignment to entry in nil map'')"
proof -
  have s: "namedMap empty_names = Some (Some [])" "mapName empty_names = [1]" "cleared empty_names = InMemory NewInMemoryBackend"
    by (simp_all add: empty_names_def NameInBlock_Init_def cleared_def)
  have ok: "msgp_ok (lib demo_env)" by (simp add: demo_env_def wire_ok)
  have n: "next_map [2] [3] [] = [([2], [3])]" by (simp add: next_map_def)
  have "short_map [([2], [3])]" by (simp add: short_map_def short_def)
  then obtain s1 r1 where s1: "nib_SetNameToBlockId demo_env [2] [3] empty_names () = Inr (s1, r1)"
      "layered.nib_inv demo_env s1 ((\<lambda>_. [])([2] := [3]))" "mapName s1 = [1]" "namedMap s1 = Some (Some [([2], [3])])"
    using layered.nib_set [OF empty_names_ok ok s(1), of "[2]" "[3]" "()"] unfolding n s(2,3) store_fits.simps by blast
  have "\<exists>im. bb s1 = InMemory im"
    using s1(1) store_in_memory unfolding nib_SetNameToBlockId_eq [OF s(1)] s(3) by (auto simp: res_simps)
  then have "store_fits demo_env (name_block (lib demo_env) (mapName s1) []) (cleared s1) r1"
    by (auto simp: cleared_def split: option.split)
  from name_set_after_empty_reopen_panics [OF s1(2) ok s1(4) this, of "[5]"] show ?thesis
    unfolding s1(3) using s1(1) by blast
qed

end
