(* ===== verification/StBlock.thy ===== *)
theory StBlock
  imports StName "HOL-Library.While_Combinator"
begin

text \<open>
  The block cache of the storage: src/storage/block.go, storage.go, storagejob.go and
  storageblock.go.

  Blocks are shared by pointer: the state has a heap from addresses to blocks, the map of cached
  blocks holds addresses, and so do the two sets of blocks that wait for a flush. A Go map from
  strings is an association list. The methods of a block take its address. \<open>'r\<close> is the state of
  the random source that the backend draws nonces from.

  The methods call each other in a circle in the source, from \<^verbatim>\<open>setDependencies\<close> to
  \<^verbatim>\<open>addRefCount\<close> and back to \<^verbatim>\<open>setDependencies\<close>, but the inner call is always for references in
  memory, which stops at \<^verbatim>\<open>addStorageRefCount\<close>. The definitions follow that order:
  \<open>setDependencies_by\<close> and \<open>updateDependencies_by\<close> are the bodies, with the operation on a
  referred block as an argument.
\<close>

section \<open>State\<close>

record oldNewStruct =
  oldValue :: gostring
  newValue :: gostring
  gotStorageRef :: bool

datatype counter = C_READ | C_READBYTES | C_WRITE | C_WRITEBYTES | C_DELETE

record 'r storage =
  Backend :: backend
  heap :: "nat \<Rightarrow> block"
  next_addr :: nat
  blocks :: "(gostring \<times> nat) list"
  dirtyBlocks :: "nat list"
  dirtyStorageRefBlocks :: "nat list"
  names :: "(gostring \<times> oldNewStruct) list"
  counters :: "counter \<Rightarrow> int"
  rnd :: 'r

text \<open>\<^verbatim>\<open>IterateReferencesCallback\<close> is set by the user of the storage: the ids it reports for a
  block, in order.\<close>

record ('n, 'r) storage_env =
  cenv :: "('n, 'r) codec_env"
  IterateReferencesCallback :: "(gostring \<Rightarrow> gostring \<Rightarrow> gostring list) option"

definition Storage_Init :: "codec option \<Rightarrow> backend \<Rightarrow> 'r \<Rightarrow> 'r storage" where
  "Storage_Init cd be r =
     \<lparr>Backend = fst (Storage_backends cd be), heap = (\<lambda>_. new_block []), next_addr = 0, blocks = [], dirtyBlocks = [],
      dirtyStorageRefBlocks = [], names = [], counters = (\<lambda>_. 0), rnd = r\<rparr>"

definition upd_block :: "nat \<Rightarrow> (block \<Rightarrow> block) \<Rightarrow> 'r storage \<Rightarrow> 'r storage" where
  "upd_block a f s = s\<lparr>heap := (heap s)(a := f (heap s a))\<rparr>"

definition AddInt :: "counter \<Rightarrow> int \<Rightarrow> 'r storage \<Rightarrow> 'r storage" where
  "AddInt c n s = s\<lparr>counters := (counters s)(c := counters s c + n)\<rparr>"

abbreviation blk_RefCount :: "block \<Rightarrow> int" where "blk_RefCount b \<equiv> RefCount (meta b)"

abbreviation blk_Status :: "block \<Rightarrow> blockStatus" where "blk_Status b \<equiv> Status (meta b)"

section \<open>Blocks\<close>

definition Block_copy :: "nat \<Rightarrow> 'r storage \<Rightarrow> nat \<times> 'r storage" where
  "Block_copy a s = (next_addr s, s\<lparr>heap := (heap s)(next_addr s := heap s a), next_addr := Suc (next_addr s)\<rparr>)"

definition Block_GetData :: "('n, 'r) storage_env \<Rightarrow> nat \<Rightarrow> 'r storage \<Rightarrow> (gostring \<times> 'r storage) res" where
  "Block_GetData E a s =
     (case Data (heap s a) of
        Some d \<Rightarrow> Inr (d, s)
      | None \<Rightarrow>
          bindE (GetBlockData (cenv E) (heap s a) (Backend s)) (\<lambda>data.
            Inr (data, AddInt C_READBYTES (int (length data)) (AddInt C_READ 1 (upd_block a (\<lambda>b. b\<lparr>Data := Some data\<rparr>) s)))))"

text \<open>A block fetched from the backend is a new object.\<close>

definition getBlockById :: "gostring \<Rightarrow> 'r storage \<Rightarrow> nat option \<times> 'r storage" where
  "getBlockById i s =
     (case map_of (blocks s) i of
        Some a \<Rightarrow> (Some a, s)
      | None \<Rightarrow>
          (case GetBlockById i (Backend s) of
             None \<Rightarrow> (None, s)
           | Some b \<Rightarrow>
               (let a = next_addr s;
                    b' = b\<lparr>storageRefCount := 0, externalStorageRefCount := 0, haveDiskRefs := True,
                           haveStorageRefs := False, Stored := None\<rparr>
                in (Some a, s\<lparr>heap := (heap s)(a := b'), next_addr := Suc a, blocks := AList.update i a (blocks s)\<rparr>))))"

definition addStorageRefCount :: "nat \<Rightarrow> int \<Rightarrow> 'r storage \<Rightarrow> 'r storage res" where
  "addStorageRefCount a v s =
     (let rc = int32 (storageRefCount (heap s a) + v);
          s' = upd_block a (\<lambda>b. b\<lparr>storageRefCount := rc\<rparr>) s
      in if rc < 0 then Inl (PanicMsg ''Negative reference count'')
         else if rc = 0 \<or> (blk_RefCount (heap s a) = 0) \<noteq> haveStorageRefs (heap s a)
         then Inr (s'\<lparr>dirtyStorageRefBlocks := List.insert a (dirtyStorageRefBlocks s')\<rparr>)
         else Inr s')"

definition addExternalStorageRefCount :: "nat \<Rightarrow> int \<Rightarrow> 'r storage \<Rightarrow> (int \<times> 'r storage) res" where
  "addExternalStorageRefCount a v s =
     (let nv = int32 (externalStorageRefCount (heap s a) + v)
      in if nv < 0 then Inl (PanicMsg ''Negative reference count'')
         else Inr (nv, upd_block a (\<lambda>b. b\<lparr>externalStorageRefCount := nv\<rparr>) s))"

definition markDirty :: "nat \<Rightarrow> 'r storage \<Rightarrow> 'r storage res" where
  "markDirty a s =
     (if Stored (heap s a) \<noteq> None then Inr s
      else
        bindE (addStorageRefCount a 1 s) (\<lambda>s1.
        let s2 = upd_block a (\<lambda>b. b\<lparr>Stored := Some (meta b)\<rparr>) s1
        in Inr (s2\<lparr>dirtyBlocks := List.insert a (dirtyBlocks s2)\<rparr>)))"

text \<open>The ids a block refers to, found on first use; the callback puts each at the front.\<close>

definition iterateReferences :: "('n, 'r) storage_env \<Rightarrow> nat \<Rightarrow> 'r storage \<Rightarrow> (gostring list \<times> 'r storage) res" where
  "iterateReferences E a s =
     (case IterateReferencesCallback E of
        None \<Rightarrow> Inr ([], s)
      | Some refs \<Rightarrow>
          (case deps (heap s a) of
             Some ids \<Rightarrow> Inr (ids, s)
           | None \<Rightarrow>
               bindE (Block_GetData E a s) (\<lambda>(d, s1).
                 let ids = rev (refs (Id (heap s a)) d)
                 in Inr (ids, upd_block a (\<lambda>b. b\<lparr>deps := Some ids\<rparr>) s1))))"

definition setDependencies_by ::
  "('n, 'r) storage_env \<Rightarrow> (nat \<Rightarrow> 'r storage \<Rightarrow> 'r storage res) \<Rightarrow> nat \<Rightarrow> blockStatus \<Rightarrow> 'r storage \<Rightarrow> 'r storage res" where
  "setDependencies_by E op a st s =
     (if BS_WANT_NORMAL \<le> st then Inr s
      else
        bindE (iterateReferences E a s) (\<lambda>(ids, s1).
        foldE (\<lambda>i s.
          case getBlockById i s of
            (None, s') \<Rightarrow> Inl (PanicMsg ''Block awol in updateBlockDataDependencies'')
          | (Some b, s') \<Rightarrow> op b s') ids s1))"

text \<open>The one caller that gives no status is the only kind there is.\<close>

definition updateDependencies_by ::
  "(bool \<Rightarrow> bool \<Rightarrow> nat \<Rightarrow> blockStatus \<Rightarrow> 'r storage \<Rightarrow> 'r storage res) \<Rightarrow> bool \<Rightarrow> bool \<Rightarrow> nat \<Rightarrow> 'r storage \<Rightarrow> (bool \<times> 'r storage) res" where
  "updateDependencies_by setdeps add storage a s =
     (let b = heap s a
      in if (if storage then haveStorageRefs b else haveDiskRefs b) = add then Inr (False, s)
         else
           bindE (setdeps add storage a (blk_Status b)
             (upd_block a (\<lambda>b. if storage then b\<lparr>haveStorageRefs := add\<rparr> else b\<lparr>haveDiskRefs := add\<rparr>) s)) (\<lambda>s'.
           Inr (True, s')))"

definition setDependencies_storage ::
  "('n, 'r) storage_env \<Rightarrow> bool \<Rightarrow> nat \<Rightarrow> blockStatus \<Rightarrow> 'r storage \<Rightarrow> 'r storage res" where
  "setDependencies_storage E add a st s = setDependencies_by E (\<lambda>b. addStorageRefCount b (if add then 1 else -1)) a st s"

definition shouldHaveStorageDependencies ::
  "('n, 'r) storage_env \<Rightarrow> bool \<Rightarrow> nat \<Rightarrow> 'r storage \<Rightarrow> (bool \<times> 'r storage) res" where
  "shouldHaveStorageDependencies E value a s =
     updateDependencies_by (\<lambda>add storage. setDependencies_storage E add) value True a s"

definition addRefCount :: "('n, 'r) storage_env \<Rightarrow> nat \<Rightarrow> int \<Rightarrow> 'r storage \<Rightarrow> 'r storage res" where
  "addRefCount E a count s =
     (if count = 0 then Inr s
      else
        bindE (markDirty a s) (\<lambda>s1.
        let rc = int32 (blk_RefCount (heap s1 a) + count);
            s2 = upd_block a (\<lambda>b. b\<lparr>meta := (meta b)\<lparr>RefCount := rc\<rparr>\<rparr>) s1
        in if rc < 0 then Inl (PanicMsg ''RefCount below 0'')
           else if rc = 0
           then bindE (shouldHaveStorageDependencies E True a s2) (\<lambda>(_, s3). Inr s3)
           else Inr s2))"

definition setDependencies ::
  "('n, 'r) storage_env \<Rightarrow> bool \<Rightarrow> bool \<Rightarrow> nat \<Rightarrow> blockStatus \<Rightarrow> 'r storage \<Rightarrow> 'r storage res" where
  "setDependencies E add storage a st s =
     setDependencies_by E (\<lambda>b.
       if storage then addStorageRefCount b (if add then 1 else -1)
       else addRefCount E b (if add then 1 else -1)) a st s"

definition updateDependencies ::
  "('n, 'r) storage_env \<Rightarrow> bool \<Rightarrow> bool \<Rightarrow> nat \<Rightarrow> 'r storage \<Rightarrow> (bool \<times> 'r storage) res" where
  "updateDependencies E add storage a s = updateDependencies_by (setDependencies E) add storage a s"

definition shouldHaveDiskDependencies ::
  "('n, 'r) storage_env \<Rightarrow> bool \<Rightarrow> nat \<Rightarrow> 'r storage \<Rightarrow> (bool \<times> 'r storage) res" where
  "shouldHaveDiskDependencies E value a s = updateDependencies E value False a s"

lemma shouldHaveStorageDependencies_eq:
  "shouldHaveStorageDependencies E value a s = updateDependencies E value True a s"
  by (simp add: Let_def shouldHaveStorageDependencies_def updateDependencies_def updateDependencies_by_def setDependencies_storage_def
      setDependencies_def)

definition flushStorageRef :: "('n, 'r) storage_env \<Rightarrow> nat \<Rightarrow> 'r storage \<Rightarrow> (int \<times> 'r storage) res" where
  "flushStorageRef E a s =
     (let s1 = s\<lparr>dirtyStorageRefBlocks := removeAll a (dirtyStorageRefBlocks s)\<rparr>
      in if storageRefCount (heap s1 a) = 0
         then bindE (shouldHaveStorageDependencies E False a s1) (\<lambda>(_, s2).
              Inr (1, s2\<lparr>blocks := AList.delete (Id (heap s2 a)) (blocks s2)\<rparr>))
         else bindE (shouldHaveStorageDependencies E (blk_RefCount (heap s1 a) = 0) a s1) (\<lambda>(changed, s2).
              Inr (if changed then 1 else 0, s2)))"

text \<open>The write of a dirty block: delete, store or update.\<close>

definition flush_backend :: "('n, 'r) storage_env \<Rightarrow> nat \<Rightarrow> 'r storage \<Rightarrow> (int \<times> 'r storage) res" where
  "flush_backend E a s =
     (if blk_RefCount (heap s a) = 0
      then if hasBackend (heap s a)
           then bindE (Block_GetData E a s) (\<lambda>(_, s1).
                let s2 = AddInt C_DELETE 1 s1;
                    s3 = s2\<lparr>Backend := DeleteBlock (heap s2 a) (Backend s2)\<rparr>
                in Inr (1, upd_block a (\<lambda>b. b\<lparr>hasBackend := False\<rparr>) s3))
           else Inr (1, s)
      else if \<not> hasBackend (heap s a)
      then bindE (Block_GetData E a (AddInt C_WRITE 1 s)) (\<lambda>(data, s1).
           let s2 = AddInt C_WRITEBYTES (int (length data)) s1
           in bindE (StoreBlock (cenv E) (heap s2 a) (Backend s2) (rnd s2)) (\<lambda>(be, r).
              Inr (1, upd_block a (\<lambda>b. b\<lparr>hasBackend := True\<rparr>) (s2\<lparr>Backend := be, rnd := r\<rparr>))))
      else bindE (UpdateBlock (heap s a) (Backend s)) (\<lambda>(n, be). Inr (n, s\<lparr>Backend := be\<rparr>)))"

definition Block_flush :: "('n, 'r) storage_env \<Rightarrow> nat \<Rightarrow> 'r storage \<Rightarrow> (int \<times> 'r storage) res" where
  "Block_flush E a s =
     (case Stored (heap s a) of
        None \<Rightarrow> Inl (PanicMsg ''self.Stored not set?!?'')
      | Some st \<Rightarrow>
          (let hadRefs = (hasBackend (heap s a) \<and> RefCount st \<noteq> 0)
           in bindE (flush_backend E a s) (\<lambda>(ops, s1).
              let haveRefs = (blk_RefCount (heap s1 a) \<noteq> 0)
              in bindE (if hadRefs \<noteq> haveRefs
                        then bindE (shouldHaveDiskDependencies E haveRefs a s1) (\<lambda>(_, s2).
                             if haveRefs
                             then bindE (shouldHaveStorageDependencies E False a s2) (\<lambda>(_, s3). Inr s3)
                             else Inr s2)
                        else Inr s1) (\<lambda>s4.
                 let s5 = upd_block a (\<lambda>b. b\<lparr>Stored := None\<rparr>) s4;
                     s6 = s5\<lparr>dirtyBlocks := removeAll a (dirtyBlocks s5)\<rparr>
                 in bindE (addStorageRefCount a (-1) s6) (\<lambda>s7. Inr (ops, s7))))))"

text \<open>The check of \<^verbatim>\<open>setStatus\<close> that every referred block is there: the blocks found before the
  first that is missing, and whether none is.\<close>

primrec present_refs :: "gostring list \<Rightarrow> 'r storage \<Rightarrow> nat list \<times> bool \<times> 'r storage" where
  "present_refs [] s = ([], True, s)"
| "present_refs (i # ids) s =
     (case getBlockById i s of
        (None, s') \<Rightarrow> ([], False, s')
      | (Some b, s') \<Rightarrow> (case present_refs ids s' of (bs, ok, s'') \<Rightarrow> (b # bs, ok, s'')))"

definition setStatus_change :: "('n, 'r) storage_env \<Rightarrow> nat \<Rightarrow> blockStatus \<Rightarrow> 'r storage \<Rightarrow> 'r storage res" where
  "setStatus_change E a st s =
     bindE (deref (Stored (heap s a))) (\<lambda>sm.
     bindE (if RefCount sm > 0 then bindE (setDependencies E True False a st s) (\<lambda>s'. Inr (True, False, s'))
            else if storageRefCount (heap s a) > 0 then bindE (setDependencies E True True a st s) (\<lambda>s'. Inr (False, True, s'))
            else Inr (False, False, s)) (\<lambda>(disk, storage, s1).
     bindE (shouldHaveStorageDependencies E False a s1) (\<lambda>(_, s2).
     bindE (shouldHaveDiskDependencies E False a s2) (\<lambda>(_, s3).
     Inr (upd_block a (\<lambda>b. b\<lparr>haveDiskRefs := disk, haveStorageRefs := storage\<rparr>) s3)))))"

definition setStatus :: "('n, 'r) storage_env \<Rightarrow> nat \<Rightarrow> blockStatus \<Rightarrow> 'r storage \<Rightarrow> (bool \<times> 'r storage) res" where
  "setStatus E a st s =
     (if blk_Status (heap s a) = st then Inr (True, s)
      else
        (let shouldHaveDeps = st < BS_WANT_NORMAL;
             hadDeps = blk_Status (heap s a) < BS_WANT_NORMAL;
             changingDeps = (shouldHaveDeps \<noteq> hadDeps)
         in bindE (if changingDeps \<and> shouldHaveDeps
                   then bindE (iterateReferences E a s) (\<lambda>(ids, s1). Inr (present_refs ids s1))
                   else Inr ([], True, s)) (\<lambda>(refs, possible, s1).
            bindE (if possible
                   then bindE (markDirty a s1) (\<lambda>s2.
                        bindE (if changingDeps then setStatus_change E a st s2 else Inr s2) (\<lambda>s3.
                        Inr (upd_block a (\<lambda>b. b\<lparr>meta := (meta b)\<lparr>Status := st\<rparr>\<rparr>) s3)))
                   else Inr s1) (\<lambda>s4.
            bindE (foldE (\<lambda>b. addStorageRefCount b 0) refs s4) (\<lambda>s5. Inr (possible, s5))))))"

end
