(* ===== verification/StStorage.thy ===== *)
theory StStorage
  imports StBlock
begin

text \<open>
  The storage proper: names, the flush (src/storage/storage.go), the jobs that its goroutine runs
  (storagejob.go) and the handles its users hold (storageblock.go, blockpointerfuture\_gen.go).

  A \<^verbatim>\<open>range\<close> over a Go map takes the entries in any order, may or may not take an entry that is
  added meanwhile, and does not take one that is removed before its turn. A schedule decides: at
  each step of a loop over a set of blocks it may name any entry that is there and has not been
  taken since it was added; the loop only ends when no entry is left that has been there from
  the start. For the names, which do not change during the loop, it gives an order.

  The world holds the storage, the job queue, the futures and the handles. Users' calls put jobs at
  the end of the queue, and the goroutine takes the first one. The queue has no bound here,
  which allows every behaviour that a channel of any length has.
\<close>

section \<open>Names\<close>

definition getName :: "gostring \<Rightarrow> 'r storage \<Rightarrow> oldNewStruct \<times> 'r storage" where
  "getName name s =
     (case map_of (names s) name of
        Some n \<Rightarrow> (n, s)
      | None \<Rightarrow>
          (let i = GetBlockIdByName name (Backend s);
               n = \<lparr>oldValue = i, newValue = i, gotStorageRef = False\<rparr>
           in (n, s\<lparr>names := AList.update name n (names s)\<rparr>)))"

text \<open>A call of a method that writes a field, on the result of \<^verbatim>\<open>getBlockById\<close>: a nil pointer
  panics.\<close>

definition on_block :: "gostring \<Rightarrow> (nat \<Rightarrow> 'r storage \<Rightarrow> 'r storage res) \<Rightarrow> 'r storage \<Rightarrow> 'r storage res" where
  "on_block i f s = (case getBlockById i s of (p, s') \<Rightarrow> bindE (deref p) (\<lambda>a. f a s'))"

definition setNameToBlockId :: "gostring \<Rightarrow> gostring \<Rightarrow> 'r storage \<Rightarrow> 'r storage res" where
  "setNameToBlockId name bid s =
     (case getName name s of
        (n, s1) \<Rightarrow>
          bindE (if bid \<noteq> [] then on_block bid (\<lambda>a. addStorageRefCount a 1) s1 else Inr s1) (\<lambda>s2.
          bindE (if gotStorageRef n then on_block (newValue n) (\<lambda>a. addStorageRefCount a (-1)) s2 else Inr s2) (\<lambda>s3.
          Inr (s3\<lparr>names := AList.update name (n\<lparr>newValue := bid, gotStorageRef := True\<rparr>) (names s3)\<rparr>))))"

definition flushBlockName :: "('n, 'r) storage_env \<Rightarrow> gostring \<Rightarrow> oldNewStruct \<Rightarrow> 'r storage \<Rightarrow> 'r storage res" where
  "flushBlockName E k v s =
     (let s1 = s\<lparr>Backend := SetNameToBlockId k (newValue v) (Backend s)\<rparr>
      in bindE (if newValue v \<noteq> []
                then bindE (on_block (newValue v) (\<lambda>b s. bindE (addRefCount E b 1 s) (addStorageRefCount b (-1))) s1) (\<lambda>s2.
                     Inr (v\<lparr>gotStorageRef := False\<rparr>, s2))
                else Inr (v, s1)) (\<lambda>(v', s2).
         bindE (if oldValue v \<noteq> [] then on_block (oldValue v) (\<lambda>b. addRefCount E b (-1)) s2 else Inr s2) (\<lambda>s3.
         Inr (s3\<lparr>names := AList.update k (v'\<lparr>oldValue := newValue v\<rparr>) (names s3)\<rparr>))))"

record schedule =
  name_order :: "gostring list"
  picks :: "nat \<Rightarrow> nat option"

definition in_order :: "'a list \<Rightarrow> 'a list \<Rightarrow> 'a list" where
  "in_order p ks = remdups (filter (\<lambda>k. k \<in> set ks) p @ ks)"

definition flushBlockNames :: "('n, 'r) storage_env \<Rightarrow> schedule \<Rightarrow> 'r storage \<Rightarrow> (int \<times> 'r storage) res" where
  "flushBlockNames E \<sigma> s =
     foldE (\<lambda>k (ops, s).
       case map_of (names s) k of
         None \<Rightarrow> Inr (ops, s)
       | Some v \<Rightarrow>
           if oldValue v \<noteq> newValue v
           then bindE (flushBlockName E k v s) (\<lambda>s'. Inr (ops + 1, s'))
           else Inr (ops, s)) (in_order (name_order \<sigma>) (map fst (names s))) (0, s)"

section \<open>Flush\<close>

text \<open>\<^verbatim>\<open>TransientCount\<close> is only used in log messages.\<close>

definition TransientCount :: "'r storage \<Rightarrow> nat" where
  "TransientCount s = length (filter (\<lambda>(i, a). blk_RefCount (heap s a) = 0) (blocks s))"

text \<open>The next entry of a range loop, if any: one of the schedule's choice if it may be taken,
  else the first that has to be.\<close>

definition next_entry :: "nat option \<Rightarrow> nat list \<Rightarrow> nat list \<Rightarrow> nat list \<Rightarrow> nat option" where
  "next_entry p pending taken cur =
     (case filter (\<lambda>a. p = Some a \<and> a \<notin> set taken) cur @ filter (\<lambda>a. a \<in> set cur) pending of
        [] \<Rightarrow> None
      | a # _ \<Rightarrow> Some a)"

datatype 's turn = Skip | Break | Flushed int 's

text \<open>\<^verbatim>\<open>for b, _ := range\<close> over the set \<open>sel\<close>. An entry that is flushed is removed from the set, and
  may be taken again if it is added again; one that is skipped stays and is not taken twice.\<close>

partial_function (option) range_loop ::
  "(nat \<Rightarrow> nat option) \<Rightarrow> ('r storage \<Rightarrow> nat list) \<Rightarrow> (nat \<Rightarrow> 'r storage \<Rightarrow> ('r storage) turn res) \<Rightarrow>
   nat \<Rightarrow> nat list \<Rightarrow> nat list \<Rightarrow> int \<Rightarrow> 'r storage \<Rightarrow> (nat \<times> int \<times> 'r storage) res option" where
  [code]: "range_loop \<sigma> sel body k pending taken ops s =
     (case next_entry (\<sigma> k) pending taken (sel s) of
        None \<Rightarrow> Some (Inr (k, ops, s))
      | Some a \<Rightarrow>
          bindO (Some (body a s)) (\<lambda>t.
            case t of
              Break \<Rightarrow> Some (Inr (Suc k, ops, s))
            | Skip \<Rightarrow> range_loop \<sigma> sel body (Suc k) (removeAll a pending) (a # taken) ops s
            | Flushed n s' \<Rightarrow>
                range_loop \<sigma> sel body (Suc k) (filter (\<lambda>x. x \<in> set (sel s')) (removeAll a pending)) (removeAll a taken) (ops + n) s'))"

text \<open>The two rounds that are repeated until the set is empty: first the blocks with references,
  and if that did nothing, those without, up to the first that has some.\<close>

definition count_turn ::
  "(block \<Rightarrow> int) \<Rightarrow> (nat \<Rightarrow> 'r storage \<Rightarrow> (int \<times> 'r storage) res) \<Rightarrow> bool \<Rightarrow> nat \<Rightarrow> 'r storage \<Rightarrow> ('r storage) turn res" where
  "count_turn cnt fl first a s =
     (if cnt (heap s a) \<noteq> 0
      then if first then bindE (fl a s) (\<lambda>(n, s'). Inr (Flushed n s')) else Inr Break
      else if first then Inr Skip else bindE (fl a s) (\<lambda>(n, s'). Inr (Flushed n s')))"

partial_function (option) flush_rounds ::
  "(nat \<Rightarrow> nat option) \<Rightarrow> ('r storage \<Rightarrow> nat list) \<Rightarrow> (block \<Rightarrow> int) \<Rightarrow> (nat \<Rightarrow> 'r storage \<Rightarrow> (int \<times> 'r storage) res) \<Rightarrow>
   nat \<Rightarrow> int \<Rightarrow> 'r storage \<Rightarrow> (nat \<times> int \<times> 'r storage) res option" where
  [code]: "flush_rounds \<sigma> sel cnt fl k ops s =
     (if sel s = [] then Some (Inr (k, ops, s))
      else
        bindO (range_loop \<sigma> sel (count_turn cnt fl True) k (sel s) [] ops s) (\<lambda>(k1, ops1, s1).
        if ops1 \<noteq> ops then flush_rounds \<sigma> sel cnt fl k1 ops1 s1
        else
          bindO (range_loop \<sigma> sel (count_turn cnt fl False) k1 (sel s1) [] ops1 s1) (\<lambda>(k2, ops2, s2).
          flush_rounds \<sigma> sel cnt fl k2 ops2 s2)))"

text \<open>\<^verbatim>\<open>Backend.Flush\<close> has no effect on the state of the backends; \<open>None\<close> is a flush that does not
  end.\<close>

definition Storage_flush :: "('n, 'r) storage_env \<Rightarrow> schedule \<Rightarrow> 'r storage \<Rightarrow> (int \<times> 'r storage) res option" where
  "Storage_flush E \<sigma> s =
     (let s0 = s\<lparr>counters := (\<lambda>_. 0)\<rparr>
      in bindO (Some (flushBlockNames E \<sigma> s0)) (\<lambda>(ops, s1).
         bindO (flush_rounds (picks \<sigma>) dirtyBlocks blk_RefCount (Block_flush E) 0 ops s1) (\<lambda>(k, ops2, s2).
         bindO (flush_rounds (picks \<sigma>) dirtyStorageRefBlocks storageRefCount (flushStorageRef E) k ops2 s2) (\<lambda>(k3, ops3, s3).
         Some (Inr (ops3, s3))))))"

section \<open>Handles and jobs\<close>

text \<open>A future is unset, or set to nil or to the address of a block; \<^verbatim>\<open>Open\<close> makes a handle that
  shares the future.\<close>

record storageBlock =
  sb_future :: nat
  closed :: bool
  sb_id :: gostring

datatype job =
    jobFlush
  | jobGetBlockById nat gostring
  | jobGetBlockIdByName gostring
  | jobSetNameToBlockId gostring gostring
  | jobSetStorageBlockStatus nat blockStatus
  | jobReferOrStoreBlock nat gostring int gostring "gostring list option" blockStatus
  | jobUpdateBlockIdRefCount gostring int
  | jobUpdateBlockIdStorageRefCount gostring int
  | jobStoreBlock nat gostring int gostring "gostring list option" blockStatus
  | jobQuit

datatype jobOut = NoOut | OutNil | OutId gostring | OutOk bool

record 'r world =
  st :: "'r storage"
  futures :: "nat \<Rightarrow> nat option option"
  sbs :: "storageBlock list"
  queue :: "job list"
  running :: bool

definition setBlock :: "nat \<Rightarrow> nat option \<Rightarrow> 'r world \<Rightarrow> 'r world res" where
  "setBlock f b w =
     bindE (case b of
        None \<Rightarrow> Inr (st w)
      | Some a \<Rightarrow>
          bindE (addExternalStorageRefCount a 1 (st w)) (\<lambda>(nv, s).
            if nv = 1 then addStorageRefCount a 1 s else Inr s)) (\<lambda>s.
     Inr (w\<lparr>st := s, futures := (futures w)(f := Some b)\<rparr>))"

text \<open>The \<^verbatim>\<open>jobStoreBlock\<close> case, which \<^verbatim>\<open>jobReferOrStoreBlock\<close> falls through to.\<close>

definition run_StoreBlock ::
  "('n, 'r) storage_env \<Rightarrow> nat \<Rightarrow> gostring \<Rightarrow> int \<Rightarrow> gostring \<Rightarrow> gostring list option \<Rightarrow> blockStatus \<Rightarrow> 'r world \<Rightarrow> 'r world res" where
  "run_StoreBlock E f i count data ds status w =
     (let s = st w;
          a = next_addr s;
          b = (new_block i)\<lparr>deps := ds, Data := Some data, meta := \<lparr>RefCount = 0, Status = status\<rparr>\<rparr>;
          s1 = s\<lparr>heap := (heap s)(a := b), next_addr := Suc a, blocks := AList.update i a (blocks s)\<rparr>
      in bindE (addRefCount E a count s1) (\<lambda>s2. setBlock f (Some a) (w\<lparr>st := s2\<rparr>)))"

definition run_job :: "('n, 'r) storage_env \<Rightarrow> schedule \<Rightarrow> job \<Rightarrow> 'r world \<Rightarrow> (jobOut \<times> 'r world) res option" where
  "run_job E \<sigma> j w =
     (case j of
        jobQuit \<Rightarrow> Some (Inr (OutNil, w\<lparr>running := False\<rparr>))
      | jobFlush \<Rightarrow>
          bindO (Storage_flush E \<sigma> (st w)) (\<lambda>(_, s). Some (Inr (OutNil, w\<lparr>st := s\<rparr>)))
      | jobGetBlockById f i \<Rightarrow>
          (case getBlockById i (st w) of (b, s) \<Rightarrow>
             Some (bindE (setBlock f b (w\<lparr>st := s\<rparr>)) (\<lambda>w'. Inr (NoOut, w'))))
      | jobGetBlockIdByName name \<Rightarrow>
          (case getName name (st w) of (n, s) \<Rightarrow> Some (Inr (OutId (newValue n), w\<lparr>st := s\<rparr>)))
      | jobReferOrStoreBlock f i count data ds status \<Rightarrow>
          (case getBlockById i (st w) of
             (Some a, s) \<Rightarrow>
               Some (bindE (addRefCount E a count s) (\<lambda>s'.
                     bindE (setBlock f (Some a) (w\<lparr>st := s'\<rparr>)) (\<lambda>w'. Inr (NoOut, w'))))
           | (None, s) \<Rightarrow>
               Some (bindE (run_StoreBlock E f i count data ds status (w\<lparr>st := s\<rparr>)) (\<lambda>w'. Inr (NoOut, w'))))
      | jobStoreBlock f i count data ds status \<Rightarrow>
          Some (bindE (run_StoreBlock E f i count data ds status w) (\<lambda>w'. Inr (NoOut, w')))
      | jobUpdateBlockIdRefCount i count \<Rightarrow>
          (case getBlockById i (st w) of
             (None, s) \<Rightarrow> Some (Inl (PanicMsg ''block id disappeared''))
           | (Some a, s) \<Rightarrow> Some (bindE (addRefCount E a count s) (\<lambda>s'. Inr (NoOut, w\<lparr>st := s'\<rparr>))))
      | jobUpdateBlockIdStorageRefCount i count \<Rightarrow>
          (case getBlockById i (st w) of
             (None, s) \<Rightarrow> Some (Inl (PanicMsg ''block id disappeared''))
           | (Some a, s) \<Rightarrow> Some (bindE (addStorageRefCount a count s) (\<lambda>s'. Inr (NoOut, w\<lparr>st := s'\<rparr>))))
      | jobSetNameToBlockId name i \<Rightarrow>
          Some (bindE (setNameToBlockId name i (st w)) (\<lambda>s. Inr (NoOut, w\<lparr>st := s\<rparr>)))
      | jobSetStorageBlockStatus f status \<Rightarrow>
          (case futures w f of
             None \<Rightarrow> None
           | Some p \<Rightarrow>
               Some (bindE (deref p) (\<lambda>a. bindE (setStatus E a status (st w)) (\<lambda>(ok, s). Inr (OutOk ok, w\<lparr>st := s\<rparr>))))))"

section \<open>Calls of the users\<close>

definition enqueue :: "job \<Rightarrow> 'r world \<Rightarrow> 'r world" where
  "enqueue j w = w\<lparr>queue := queue w @ [j]\<rparr>"

definition newStorageBlock :: "gostring \<Rightarrow> 'r world \<Rightarrow> nat \<times> 'r world" where
  "newStorageBlock i w =
     (length (sbs w), w\<lparr>sbs := sbs w @ [\<lparr>sb_future = length (sbs w), closed = False, sb_id = i\<rparr>],
                        futures := (futures w)(length (sbs w) := None)\<rparr>)"

definition Storage_Flush :: "'r world \<Rightarrow> 'r world" where
  "Storage_Flush w = enqueue jobFlush w"

definition Storage_GetBlockById :: "gostring \<Rightarrow> 'r world \<Rightarrow> nat \<times> 'r world" where
  "Storage_GetBlockById i w =
     (case newStorageBlock i w of (h, w') \<Rightarrow> (h, enqueue (jobGetBlockById (sb_future (sbs w' ! h)) i) w'))"

definition Storage_GetBlockIdByName :: "gostring \<Rightarrow> 'r world \<Rightarrow> 'r world" where
  "Storage_GetBlockIdByName name w = enqueue (jobGetBlockIdByName name) w"

definition storeBlockInternal ::
  "(nat \<Rightarrow> gostring \<Rightarrow> int \<Rightarrow> gostring \<Rightarrow> gostring list option \<Rightarrow> blockStatus \<Rightarrow> job) \<Rightarrow> gostring \<Rightarrow> blockStatus \<Rightarrow> gostring \<Rightarrow>
   gostring list option \<Rightarrow> int \<Rightarrow> 'r world \<Rightarrow> nat \<times> 'r world" where
  "storeBlockInternal jt i status data ds count w =
     (case newStorageBlock i w of (h, w') \<Rightarrow> (h, enqueue (jt (sb_future (sbs w' ! h)) i count data ds status) w'))"

definition Storage_ReferOrStoreBlock :: "gostring \<Rightarrow> blockStatus \<Rightarrow> gostring \<Rightarrow> 'r world \<Rightarrow> nat \<times> 'r world" where
  "Storage_ReferOrStoreBlock i status data w = storeBlockInternal jobReferOrStoreBlock i status data None 1 w"

definition Storage_ReferOrStoreBlock0 ::
  "gostring \<Rightarrow> blockStatus \<Rightarrow> gostring \<Rightarrow> gostring list option \<Rightarrow> 'r world \<Rightarrow> nat \<times> 'r world" where
  "Storage_ReferOrStoreBlock0 i status data ds w = storeBlockInternal jobReferOrStoreBlock i status data ds 0 w"

text \<open>The hash is SHA-256, a parameter.\<close>

definition Storage_ReferOrStoreBlockBytes0 ::
  "(gostring \<Rightarrow> gostring) \<Rightarrow> blockStatus \<Rightarrow> gostring \<Rightarrow> gostring list option \<Rightarrow> 'r world \<Rightarrow> nat \<times> 'r world" where
  "Storage_ReferOrStoreBlockBytes0 sha status b ds w = Storage_ReferOrStoreBlock0 (sha b) status b ds w"

definition Storage_StoreBlock :: "gostring \<Rightarrow> blockStatus \<Rightarrow> gostring \<Rightarrow> 'r world \<Rightarrow> nat \<times> 'r world" where
  "Storage_StoreBlock i status data w = storeBlockInternal jobStoreBlock i status data None 1 w"

definition Storage_StoreBlock0 :: "gostring \<Rightarrow> blockStatus \<Rightarrow> gostring \<Rightarrow> 'r world \<Rightarrow> nat \<times> 'r world" where
  "Storage_StoreBlock0 i status data w = storeBlockInternal jobStoreBlock i status data None 0 w"

definition ReferBlockId :: "gostring \<Rightarrow> 'r world \<Rightarrow> 'r world" where
  "ReferBlockId i w = enqueue (jobUpdateBlockIdRefCount i 1) w"

definition ReleaseBlockId :: "gostring \<Rightarrow> 'r world \<Rightarrow> 'r world" where
  "ReleaseBlockId i w = enqueue (jobUpdateBlockIdRefCount i (-1)) w"

definition ReferStorageBlockId :: "gostring \<Rightarrow> 'r world \<Rightarrow> 'r world" where
  "ReferStorageBlockId i w = enqueue (jobUpdateBlockIdStorageRefCount i 1) w"

definition ReleaseStorageBlockId :: "gostring \<Rightarrow> 'r world \<Rightarrow> 'r world" where
  "ReleaseStorageBlockId i w = enqueue (jobUpdateBlockIdStorageRefCount i (-1)) w"

definition Storage_SetNameToBlockId :: "gostring \<Rightarrow> gostring \<Rightarrow> 'r world \<Rightarrow> 'r world" where
  "Storage_SetNameToBlockId name i w = enqueue (jobSetNameToBlockId name i) w"

definition setStorageBlockStatus :: "nat \<Rightarrow> blockStatus \<Rightarrow> 'r world \<Rightarrow> 'r world" where
  "setStorageBlockStatus h status w = enqueue (jobSetStorageBlockStatus (sb_future (sbs w ! h)) status) w"

definition assertNotClosed :: "nat \<Rightarrow> 'r world \<Rightarrow> unit res" where
  "assertNotClosed h w = (if closed (sbs w ! h) then Inl (PanicMsg ''close already'') else Inr ())"

text \<open>\<^verbatim>\<open>self.block.Get()\<close> waits until the future is set, which is \<open>None\<close>; a nil block panics on use.\<close>

definition sb_block :: "nat \<Rightarrow> 'r world \<Rightarrow> nat res option" where
  "sb_block h w = map_option deref (futures w (sb_future (sbs w ! h)))"

definition StorageBlock_Open :: "nat \<Rightarrow> 'r world \<Rightarrow> (nat \<times> 'r world) res option" where
  "StorageBlock_Open h w =
     (case assertNotClosed h w of
        Inl e \<Rightarrow> Some (Inl e)
      | Inr _ \<Rightarrow>
          map_option (\<lambda>p. bindE p (\<lambda>a.
            bindE (addExternalStorageRefCount a 1 (st w)) (\<lambda>(_, s).
            let sb = \<lparr>sb_future = sb_future (sbs w ! h), closed = False, sb_id = sb_id (sbs w ! h)\<rparr>
            in Inr (length (sbs w), w\<lparr>st := s, sbs := sbs w @ [sb]\<rparr>)))) (sb_block h w))"

definition StorageBlock_Close :: "nat \<Rightarrow> 'r world \<Rightarrow> 'r world res option" where
  "StorageBlock_Close h w =
     (case assertNotClosed h w of
        Inl e \<Rightarrow> Some (Inl e)
      | Inr _ \<Rightarrow>
          map_option (\<lambda>p. bindE p (\<lambda>a.
            bindE (addExternalStorageRefCount a (-1) (st w)) (\<lambda>(nv, s).
            let w' = w\<lparr>st := s, sbs := (sbs w)[h := (sbs w ! h)\<lparr>closed := True\<rparr>]\<rparr>
            in Inr (if nv = 0 then ReleaseStorageBlockId (sb_id (sbs w ! h)) w' else w')))) (sb_block h w))"

definition StorageBlock_Id :: "nat \<Rightarrow> 'r world \<Rightarrow> gostring res" where
  "StorageBlock_Id h w =
     (if closed (sbs w ! h) then Inl (PanicMsg ''use after close of '') else Inr (sb_id (sbs w ! h)))"

definition StorageBlock_Data :: "('n, 'r) storage_env \<Rightarrow> nat \<Rightarrow> 'r world \<Rightarrow> (gostring \<times> 'r world) res option" where
  "StorageBlock_Data E h w =
     (if closed (sbs w ! h) then Some (Inl (PanicMsg ''use after close of ''))
      else map_option (\<lambda>p. bindE p (\<lambda>a. bindE (Block_GetData E a (st w)) (\<lambda>(d, s). Inr (d, w\<lparr>st := s\<rparr>)))) (sb_block h w))"

definition StorageBlock_Status :: "nat \<Rightarrow> 'r world \<Rightarrow> blockStatus res option" where
  "StorageBlock_Status h w =
     (if closed (sbs w ! h) then Some (Inl (PanicMsg ''use after close of ''))
      else map_option (\<lambda>p. bindE p (\<lambda>a. Inr (blk_Status (heap (st w) a)))) (sb_block h w))"

definition StorageBlock_SetStatus :: "nat \<Rightarrow> blockStatus \<Rightarrow> 'r world \<Rightarrow> 'r world res option" where
  "StorageBlock_SetStatus h status w =
     (if closed (sbs w ! h) then Some (Inl (PanicMsg ''use after close of ''))
      else map_option (\<lambda>p. bindE p (\<lambda>a. Inr (setStorageBlockStatus h status w))) (sb_block h w))"

definition StorageBlock_IterateReferences ::
  "('n, 'r) storage_env \<Rightarrow> nat \<Rightarrow> 'r world \<Rightarrow> (gostring list \<times> 'r world) res option" where
  "StorageBlock_IterateReferences E h w =
     map_option (\<lambda>p. bindE p (\<lambda>a. bindE (iterateReferences E a (st w)) (\<lambda>(ids, s). Inr (ids, w\<lparr>st := s\<rparr>)))) (sb_block h w)"

definition Storage_Close :: "'r world \<Rightarrow> 'r world" where
  "Storage_Close w = enqueue jobQuit (Storage_Flush w)"

end
