(* ===== verification/StInv.thy ===== *)
theory StInv
  imports StStorage
begin

text \<open>
  The invariant of the block cache. Every cached block sits under its own id; reference counts are
  32-bit and not negative; the blocks in \<^verbatim>\<open>dirtyBlocks\<close> are those whose stored metadata is
  remembered; and a cached block without references waits in \<^verbatim>\<open>dirtyStorageRefBlocks\<close> to be
  dropped. The last clause has exceptions while an operation runs: blocks just fetched, which
  are not dirty (\<open>X\<close>), and the one being dropped (\<open>Z\<close>).

  The lemmas take each operation of StBlock and StStorage through the invariant: the operation
  panics or the invariant holds of its result.
\<close>

section \<open>The invariant\<close>

definition counts_ok :: "block \<Rightarrow> bool" where
  "counts_ok b \<longleftrightarrow> 0 \<le> storageRefCount b \<and> storageRefCount b < 2 ^ 31 \<and> 0 \<le> blk_RefCount b \<and> blk_RefCount b < 2 ^ 31 \<and>
     0 \<le> externalStorageRefCount b \<and> externalStorageRefCount b < 2 ^ 31"

text \<open>The backend finds blocks under their own id, with counts in range.\<close>

definition be_wf :: "backend \<Rightarrow> bool" where
  "be_wf be \<longleftrightarrow> (\<forall>i b. GetBlockById i be = Some b \<longrightarrow> Id b = i \<and> 0 \<le> blk_RefCount b \<and> blk_RefCount b < 2 ^ 31)"

definition cinv :: "nat set \<Rightarrow> nat set \<Rightarrow> 'r storage \<Rightarrow> bool" where
  "cinv X Z s \<longleftrightarrow>
     be_wf (Backend s) \<and> distinct (map fst (blocks s)) \<and>
     (\<forall>(i, a) \<in> set (blocks s). a < next_addr s \<and> Id (heap s a) = i) \<and>
     (\<forall>a < next_addr s. counts_ok (heap s a) \<and> (a \<in> set (dirtyBlocks s) \<longleftrightarrow> Stored (heap s a) \<noteq> None)) \<and>
     (\<forall>a \<in> set (dirtyBlocks s) \<union> set (dirtyStorageRefBlocks s). a < next_addr s) \<and>
     (\<forall>(i, a) \<in> set (blocks s). storageRefCount (heap s a) = 0 \<longrightarrow>
        a \<in> set (dirtyStorageRefBlocks s) \<or> a \<in> Z \<or> a \<in> X \<and> Stored (heap s a) = None)"

definition after :: "'r storage \<Rightarrow> 'r storage \<Rightarrow> bool" where
  "after s s' \<longleftrightarrow> next_addr s \<le> next_addr s' \<and> (\<forall>a < next_addr s. Id (heap s' a) = Id (heap s a))"

definition good :: "nat set \<Rightarrow> nat set \<Rightarrow> 'r storage \<Rightarrow> 'r storage \<Rightarrow> bool" where
  "good X Z s0 s \<longleftrightarrow> cinv X Z s \<and> after s0 s"

lemma cinvD:
  assumes "cinv X Z s"
  shows "be_wf (Backend s)" "distinct (map fst (blocks s))"
    "(i, a) \<in> set (blocks s) \<Longrightarrow> a < next_addr s \<and> Id (heap s a) = i"
    "a < next_addr s \<Longrightarrow> counts_ok (heap s a) \<and> (a \<in> set (dirtyBlocks s) \<longleftrightarrow> Stored (heap s a) \<noteq> None)"
    "a \<in> set (dirtyBlocks s) \<union> set (dirtyStorageRefBlocks s) \<Longrightarrow> a < next_addr s"
    "(i, a) \<in> set (blocks s) \<Longrightarrow> storageRefCount (heap s a) = 0 \<Longrightarrow>
       a \<in> set (dirtyStorageRefBlocks s) \<or> a \<in> Z \<or> a \<in> X \<and> Stored (heap s a) = None"
  using assms unfolding cinv_def by blast+

lemma cinvI:
  assumes "be_wf (Backend s)" "distinct (map fst (blocks s))"
    "\<And>i a. (i, a) \<in> set (blocks s) \<Longrightarrow> a < next_addr s \<and> Id (heap s a) = i"
    "\<And>a. a < next_addr s \<Longrightarrow> counts_ok (heap s a)"
    "\<And>a. a < next_addr s \<Longrightarrow> a \<in> set (dirtyBlocks s) \<longleftrightarrow> Stored (heap s a) \<noteq> None"
    "\<And>a. a \<in> set (dirtyBlocks s) \<union> set (dirtyStorageRefBlocks s) \<Longrightarrow> a < next_addr s"
    "\<And>i a. (i, a) \<in> set (blocks s) \<Longrightarrow> storageRefCount (heap s a) = 0 \<Longrightarrow>
       a \<in> set (dirtyStorageRefBlocks s) \<or> a \<in> Z \<or> a \<in> X \<and> Stored (heap s a) = None"
  shows "cinv X Z s"
  using assms unfolding cinv_def by blast

lemma good_cinv: "good X Z s0 s \<Longrightarrow> cinv X Z s"
  by (simp add: good_def)

lemma after_refl [simp]: "after s s"
  by (simp add: after_def)

lemma after_trans: "after s s' \<Longrightarrow> after s' s'' \<Longrightarrow> after s s''"
  by (auto simp: after_def)

lemma good_refl: "cinv X Z s \<Longrightarrow> good X Z s s"
  by (simp add: good_def)

lemma good_mono: "good X Z s0 s \<Longrightarrow> X \<subseteq> X' \<Longrightarrow> Z \<subseteq> Z' \<Longrightarrow> good X' Z' s0 s"
  unfolding good_def cinv_def by fastforce

lemma good_insert: "good X Z s0 s \<Longrightarrow> good (insert a X) Z s0 s"
  by (erule good_mono) auto

lemma good_addr: "good X Z s0 s \<Longrightarrow> a < next_addr s0 \<Longrightarrow> a < next_addr s"
  by (auto simp: good_def after_def)

lemma int32_range: "int32 x < 2 ^ 31" "- (2 ^ 31) \<le> int32 x"
  by (simp_all add: int32_def)

section \<open>Changes of one block\<close>

lemma upd_block_simps [simp]:
  "heap (upd_block a f s) = (heap s)(a := f (heap s a))" "next_addr (upd_block a f s) = next_addr s"
  "blocks (upd_block a f s) = blocks s" "dirtyBlocks (upd_block a f s) = dirtyBlocks s"
  "dirtyStorageRefBlocks (upd_block a f s) = dirtyStorageRefBlocks s" "Backend (upd_block a f s) = Backend s"
  "names (upd_block a f s) = names s" "counters (upd_block a f s) = counters s" "rnd (upd_block a f s) = rnd s"
  by (simp_all add: upd_block_def)

lemma AddInt_simps [simp]:
  "heap (AddInt c n s) = heap s" "next_addr (AddInt c n s) = next_addr s" "blocks (AddInt c n s) = blocks s"
  "dirtyBlocks (AddInt c n s) = dirtyBlocks s" "dirtyStorageRefBlocks (AddInt c n s) = dirtyStorageRefBlocks s"
  "Backend (AddInt c n s) = Backend s" "names (AddInt c n s) = names s" "rnd (AddInt c n s) = rnd s"
  by (simp_all add: AddInt_def)

text \<open>States that agree in what the invariant looks at.\<close>

lemma good_cong:
  assumes "good X Z s0 s" "be_wf (Backend s')" "blocks s' = blocks s" "next_addr s' = next_addr s"
    "dirtyBlocks s' = dirtyBlocks s" "set (dirtyStorageRefBlocks s') = set (dirtyStorageRefBlocks s)"
    "\<And>a. a < next_addr s \<Longrightarrow> Id (heap s' a) = Id (heap s a) \<and> counts_ok (heap s' a) \<and>
       storageRefCount (heap s' a) = storageRefCount (heap s a) \<and> Stored (heap s' a) = Stored (heap s a)"
  shows "good X Z s0 s'"
  using assms unfolding good_def cinv_def after_def by (fastforce split: prod.splits)

lemma good_be: "good X Z s0 s \<Longrightarrow> be_wf (Backend s)"
  by (simp add: good_def cinv_def)

lemma good_counts: "good X Z s0 s \<Longrightarrow> a < next_addr s \<Longrightarrow> counts_ok (heap s a)"
  by (simp add: good_def cinv_def)

lemma good_upd:
  assumes "good X Z s0 s" "\<And>b. Id (f b) = Id b \<and> storageRefCount (f b) = storageRefCount b \<and> Stored (f b) = Stored b"
    "\<And>b. counts_ok b \<Longrightarrow> counts_ok (f b)"
  shows "good X Z s0 (upd_block a f s)"
proof (rule good_cong [OF assms(1)])
  fix x assume "x < next_addr s"
  then have "counts_ok (heap s x)" "counts_ok (f (heap s x))" using good_counts [OF assms(1)] assms(3) by blast+
  then show "Id (heap (upd_block a f s) x) = Id (heap s x) \<and> counts_ok (heap (upd_block a f s) x) \<and>
      storageRefCount (heap (upd_block a f s) x) = storageRefCount (heap s x) \<and> Stored (heap (upd_block a f s) x) = Stored (heap s x)"
    using assms(2) by (cases "x = a") simp_all
qed (simp_all add: good_be [OF assms(1)])

lemma good_AddInt: "good X Z s0 s \<Longrightarrow> good X Z s0 (AddInt c n s)"
  by (rule good_cong) (auto simp: good_be good_counts)

lemma good_backend: "good X Z s0 s \<Longrightarrow> be_wf be \<Longrightarrow> good X Z s0 (s\<lparr>Backend := be\<rparr>)"
  by (rule good_cong) (auto simp: good_counts)

lemma good_rnd: "good X Z s0 s \<Longrightarrow> good X Z s0 (s\<lparr>rnd := r\<rparr>)"
  by (rule good_cong) (auto simp: good_counts good_be)

lemma good_names: "good X Z s0 s \<Longrightarrow> good X Z s0 (s\<lparr>names := ns\<rparr>)"
  by (rule good_cong) (auto simp: good_counts good_be)

lemma good_counters: "good X Z s0 s \<Longrightarrow> good X Z s0 (s\<lparr>counters := c\<rparr>)"
  by (rule good_cong) (auto simp: good_counts good_be)

section \<open>Operations on blocks\<close>

lemma good_GetData: "good X Z s0 s \<Longrightarrow> okE (\<lambda>(d, s'). good X Z s0 s') (Block_GetData E a s)"
  unfolding Block_GetData_def
  by (cases "Data (heap s a)")
    (auto intro!: okE_Inr okE_bind_eq good_AddInt good_upd simp: counts_ok_def)

lemma good_getBlockById:
  assumes "good X Z s0 s" "getBlockById i s = (p, s')"
  shows "case p of None \<Rightarrow> s' = s | Some a \<Rightarrow> good (insert a X) Z s0 s' \<and> a < next_addr s' \<and> next_addr s \<le> next_addr s'"
proof (cases "map_of (blocks s) i")
  case (Some a)
  then have "(i, a) \<in> set (blocks s)" by (rule map_of_SomeD)
  then have "a < next_addr s" using assms(1) by (auto simp: good_def cinv_def)
  moreover have "p = Some a" "s' = s" using Some assms(2) by (simp_all add: getBlockById_def)
  ultimately show ?thesis using good_insert [OF assms(1), of a] by simp
next
  case None
  show ?thesis
  proof (cases "GetBlockById i (Backend s)")
    case no: None
    then show ?thesis using None assms(2) by (simp add: getBlockById_def)
  next
    case (Some b)
    let ?a = "next_addr s"
    let ?b = "b\<lparr>storageRefCount := 0, externalStorageRefCount := 0, haveDiskRefs := True, haveStorageRefs := False, Stored := None\<rparr>"
    have p: "p = Some ?a" "s' = s\<lparr>heap := (heap s)(?a := ?b), next_addr := Suc ?a, blocks := AList.update i ?a (blocks s)\<rparr>"
      using assms(2) None Some by (simp_all add: getBlockById_def Let_def)
    have b: "Id ?b = i" "counts_ok ?b"
      using good_be [OF assms(1)] Some by (auto simp: be_wf_def counts_ok_def)
    have i: "i \<notin> fst ` set (blocks s)" using None by (simp add: map_of_eq_None_iff)
    have "cinv (insert ?a X) Z s'" "after s0 s'"
      using assms(1) b i unfolding p(2) good_def cinv_def after_def
      by (auto simp: AList_update_new less_Suc_eq split: prod.splits)
    then show ?thesis by (simp add: p good_def)
  qed
qed

text \<open>A change of one block after which it has references or waits to be dropped.\<close>

lemma good_change:
  assumes g: "good (insert a X) Z s0 s" and a: "a < next_addr s"
    and h: "heap s' = (heap s)(a := b)" "Id b = Id (heap s a)" "counts_ok b"
    and same: "Backend s' = Backend s" "blocks s' = blocks s" "next_addr s' = next_addr s"
    and dirty: "set (dirtyBlocks s') = (if Stored b \<noteq> None then insert a (set (dirtyBlocks s)) else set (dirtyBlocks s) - {a})"
    and refs: "set (dirtyStorageRefBlocks s) \<subseteq> set (dirtyStorageRefBlocks s')"
      "set (dirtyStorageRefBlocks s') \<subseteq> insert a (set (dirtyStorageRefBlocks s))"
      "storageRefCount b = 0 \<Longrightarrow> a \<in> set (dirtyStorageRefBlocks s')"
  shows "good X Z s0 s'"
proof -
  note c = g [THEN good_cinv]
  have "cinv X Z s'"
  proof (rule cinvI)
    show "be_wf (Backend s')" "distinct (map fst (blocks s'))" using cinvD(1,2) [OF c] same by simp_all
  next
    fix i x assume x: "(i, x) \<in> set (blocks s')"
    then have x': "(i, x) \<in> set (blocks s)" by (simp add: same)
    show "x < next_addr s' \<and> Id (heap s' x) = i" using cinvD(3) [OF c x'] h(1,2) same(3) by (cases "x = a") simp_all
    assume z: "storageRefCount (heap s' x) = 0"
    show "x \<in> set (dirtyStorageRefBlocks s') \<or> x \<in> Z \<or> x \<in> X \<and> Stored (heap s' x) = None"
    proof (cases "x = a")
      case False
      then show ?thesis using cinvD(6) [OF c x'] z refs(1) by (auto simp: h(1))
    qed (use z refs(3) h(1) in simp)
  next
    fix x assume "x < next_addr s'"
    then have x: "x < next_addr s" by (simp add: same)
    show "counts_ok (heap s' x)" "x \<in> set (dirtyBlocks s') \<longleftrightarrow> Stored (heap s' x) \<noteq> None"
      using cinvD(4) [OF c x] h(3) unfolding dirty h(1) by simp_all
  next
    fix x assume "x \<in> set (dirtyBlocks s') \<union> set (dirtyStorageRefBlocks s')"
    then have "x = a \<or> x \<in> set (dirtyBlocks s) \<union> set (dirtyStorageRefBlocks s)"
      using refs(2) by (auto simp: dirty split: if_splits)
    then show "x < next_addr s'" using cinvD(5) [OF c] a same(3) by auto
  qed
  moreover have "after s0 s'" using g a by (auto simp: good_def after_def h same)
  ultimately show ?thesis by (simp add: good_def)
qed

lemma good_addStorageRefCount:
  assumes "good (insert a X) Z s0 s" "a < next_addr s"
  shows "okE (good X Z s0) (addStorageRefCount a v s)"
proof -
  define rc where "rc = int32 (storageRefCount (heap s a) + v)"
  let ?s = "upd_block a (\<lambda>b. b\<lparr>storageRefCount := rc\<rparr>) s"
  have rc: "rc < 2 ^ 31" by (simp add: rc_def int32_range(1) [simplified])
  have d: "a \<in> set (dirtyBlocks s) \<longleftrightarrow> Stored (heap s a) \<noteq> None" using assms by (simp add: good_def cinv_def)
  have c: "0 \<le> rc \<Longrightarrow> counts_ok ((heap s a)\<lparr>storageRefCount := rc\<rparr>)"
    using good_counts [OF assms] rc by (simp add: counts_ok_def)
  have "good X Z s0 (?s\<lparr>dirtyStorageRefBlocks := List.insert a (dirtyStorageRefBlocks ?s)\<rparr>)" if "0 \<le> rc"
    by (rule good_change [OF assms]) (use c that d in auto)
  moreover have "good X Z s0 ?s" if "0 < rc"
    by (rule good_change [OF assms]) (use c that d in auto)
  ultimately show ?thesis
    by (auto simp: addStorageRefCount_def Let_def rc_def [symmetric] intro!: okE_if okE_Inl okE_Inr)
qed

lemma good_addExternal:
  "good X Z s0 s \<Longrightarrow> okE (\<lambda>(nv, s'). good X Z s0 s') (addExternalStorageRefCount a v s)"
  using int32_range(1) [of "externalStorageRefCount (heap s a) + v"]
  by (auto intro!: okE_if okE_Inl okE_Inr good_upd simp: counts_ok_def addExternalStorageRefCount_def Let_def)

lemma addStorageRefCount_frame:
  "addStorageRefCount a v s = Inr s' \<Longrightarrow> next_addr s' = next_addr s \<and> Id (heap s' a) = Id (heap s a) \<and>
     dirtyBlocks s' = dirtyBlocks s \<and> (storageRefCount (heap s' a) = 0 \<longrightarrow> a \<in> set (dirtyStorageRefBlocks s'))"
  by (auto simp: addStorageRefCount_def Let_def split: if_splits)

lemma good_markDirty:
  assumes "good (insert a X) Z s0 s" "a < next_addr s"
  shows "okE (good X Z s0) (markDirty a s)"
proof (cases "Stored (heap s a)")
  case None
  have "good X Z s0 (s2\<lparr>dirtyBlocks := List.insert a (dirtyBlocks s2)\<rparr>)"
    if s1: "addStorageRefCount a 1 s = Inr s1" and s2: "s2 = upd_block a (\<lambda>b. b\<lparr>Stored := Some (meta b)\<rparr>) s1" for s1 s2
  proof -
    have g: "good X Z s0 s1" by (rule okE_D [OF good_addStorageRefCount [OF assms] s1])
    note f = addStorageRefCount_frame [OF s1]
    have a: "a < next_addr s1" using f assms(2) by simp
    have "counts_ok (heap s1 a)" by (rule good_counts [OF g a])
    then have "counts_ok ((heap s1 a)\<lparr>Stored := Some (meta (heap s1 a))\<rparr>)" by (simp add: counts_ok_def)
    then show ?thesis using f by (intro good_change [OF good_insert [OF g] a]) (auto simp: s2)
  qed
  then show ?thesis by (auto simp: markDirty_def None Let_def intro!: okE_bind_eq okE_Inr)
next
  case (Some m)
  then have "Stored (heap s a) \<noteq> None" by simp
  then have "good X Z s0 s" using assms(1) unfolding good_def cinv_def by (auto split: prod.splits)
  then show ?thesis by (simp add: markDirty_def Some okE_Inr)
qed

lemma good_iterateReferences: "good X Z s0 s \<Longrightarrow> okE (\<lambda>(ids, s'). good X Z s0 s') (iterateReferences E a s)"
  unfolding iterateReferences_def
  by (auto split: option.split intro!: okE_Inr okE_bind [OF good_GetData] good_upd simp: Let_def counts_ok_def)

lemma good_setDependencies_by:
  assumes "good X Z s0 s" "\<And>b s. good (insert b X) Z s0 s \<Longrightarrow> b < next_addr s \<Longrightarrow> okE (good X Z s0) (op b s)"
  shows "okE (good X Z s0) (setDependencies_by E op a stat s)"
proof -
  have "okE (good X Z s0) (case getBlockById i s of
      (None, s') \<Rightarrow> Inl (PanicMsg ''Block awol in updateBlockDataDependencies'') | (Some b, s') \<Rightarrow> op b s')"
    if "good X Z s0 s" for i s
    using good_getBlockById [OF that, of i] assms(2) by (auto split: prod.split option.splits intro: okE_Inl)
  then show ?thesis
    unfolding setDependencies_by_def using assms(1)
    by (auto intro!: okE_if okE_Inr okE_bind [OF good_iterateReferences] okE_fold)
qed

lemma good_updateDependencies_by:
  assumes "good X Z s0 s"
    "\<And>s stat. good X Z s0 s \<Longrightarrow> okE (good X Z s0) (sd add storage a stat s)"
  shows "okE (\<lambda>(c, s'). good X Z s0 s') (updateDependencies_by sd add storage a s)"
  unfolding updateDependencies_by_def Let_def
  by (intro okE_if okE_Inr okE_bind [OF assms(2)] good_upd [OF assms(1)]) (auto intro: assms(1) simp: counts_ok_def)

lemma good_shouldHaveStorage:
  "good X Z s0 s \<Longrightarrow> okE (\<lambda>(c, s'). good X Z s0 s') (shouldHaveStorageDependencies E v a s)"
  unfolding shouldHaveStorageDependencies_def
  by (rule good_updateDependencies_by) (auto simp: setDependencies_storage_def intro!: good_setDependencies_by good_addStorageRefCount)

lemma good_addRefCount:
  assumes "good (insert a X) Z s0 s" "a < next_addr s" "count = 0 \<longrightarrow> good X Z s0 s"
  shows "okE (good X Z s0) (addRefCount E a count s)"
proof -
  have "good X Z s0 (upd_block a (\<lambda>b. b\<lparr>meta := (meta b)\<lparr>RefCount := rc\<rparr>\<rparr>) s1)" if "good X Z s0 s1" "0 \<le> rc" "rc < 2 ^ 31" for s1 rc
    using that by (auto intro!: good_upd simp: counts_ok_def)
  then show ?thesis
    unfolding addRefCount_def using assms
    by (auto intro!: okE_if okE_Inr okE_Inl okE_bind [OF good_markDirty [OF assms(1,2)]] okE_bind [OF good_shouldHaveStorage]
        simp: Let_def int32_range(1) [simplified])
qed

lemma good_setDependencies: "good X Z s0 s \<Longrightarrow> okE (good X Z s0) (setDependencies E add storage a stat s)"
  unfolding setDependencies_def
  by (rule good_setDependencies_by) (auto intro!: good_addStorageRefCount good_addRefCount)

lemma good_shouldHaveDisk: "good X Z s0 s \<Longrightarrow> okE (\<lambda>(c, s'). good X Z s0 s') (shouldHaveDiskDependencies E v a s)"
  unfolding shouldHaveDiskDependencies_def updateDependencies_def
  by (rule good_updateDependencies_by) (auto intro: good_setDependencies)

section \<open>The backend\<close>

lemma GetBlockById_Delete: "GetBlockById i (DeleteBlock b be) = (if i = Id b then None else GetBlockById i be)"
  by (induction be) (simp_all add: im_GetBlockById_def im_DeleteBlock_def)

lemma GetBlockById_SetName: "GetBlockById i (SetNameToBlockId n j be) = GetBlockById i be"
  by (induction be) (simp_all add: im_GetBlockById_def im_SetNameToBlockId_def)

lemma GetBlockById_Update: "UpdateBlock b be = Inr (n, be') \<Longrightarrow> GetBlockById i be' = GetBlockById i be"
  by (induction be arbitrary: n be') (auto simp: im_UpdateBlock_def res_simps split: option.splits)

text \<open>What a lookup finds after a store, up to the data and the pointer to the backend.\<close>

lemma GetBlockById_Store:
  "StoreBlock E b be r = Inr (be', r') \<Longrightarrow> GetBlockById i be' = Some x \<Longrightarrow>
   if i = Id b then Id x = Id b \<and> meta x = meta b else \<exists>y. GetBlockById i be = Some y \<and> Id y = Id x \<and> meta y = meta x"
proof (induction be arbitrary: b r be' r' x)
  case (InMemory im)
  then show ?case by (auto simp: im_StoreBlock_def im_GetBlockById_def split: option.splits if_splits)
next
  case (proxyBackend be)
  then obtain be1 where be1: "StoreBlock E b be r = Inr (be1, r')" "be' = proxyBackend be1" by (auto simp: res_simps)
  then obtain y where "GetBlockById i be1 = Some y" "x = y\<lparr>hasBackend := True\<rparr>" using proxyBackend.prems(2) by (auto split: option.splits)
  with proxyBackend.IH [OF be1(1)] show ?case by (fastforce split: if_splits)
next
  case (codecBackend c be)
  then obtain d where d: "Data b = Some d" by (auto simp: res_simps)
  then obtain z r1 where "EncodeBytes E c d (Id b) r = Inr (z, r1)" using codecBackend.prems(1) by (auto split: sum.splits)
  then obtain be1 where be1: "StoreBlock E (b\<lparr>Data := Some z\<rparr>) be r1 = Inr (be1, r')" "be' = codecBackend c be1"
    using codecBackend.prems(1) d by (auto simp: res_simps)
  then obtain y where y: "GetBlockById i be1 = Some y" using codecBackend.prems(2) by (auto split: option.splits)
  then have "Id x = Id y \<and> meta x = meta y" using codecBackend.prems(2) be1(2) by (auto simp: Let_def split: if_splits)
  with codecBackend.IH [OF be1(1) y] show ?case by (cases "i = Id b") (auto simp: Let_def)
qed

lemma be_wf_Store:
  assumes "be_wf be" "StoreBlock E b be r = Inr (be', r')" "counts_ok b"
  shows "be_wf be'"
  unfolding be_wf_def
proof (intro allI impI)
  fix i x assume "GetBlockById i be' = Some x"
  note x = GetBlockById_Store [OF assms(2) this]
  show "Id x = i \<and> 0 \<le> blk_RefCount x \<and> blk_RefCount x < 2 ^ 31"
  proof (cases "i = Id b")
    case False
    then obtain y where "GetBlockById i be = Some y" "Id y = Id x" "meta y = meta x" using x by auto
    then show ?thesis using assms(1) unfolding be_wf_def by metis
  qed (use x assms(3) in \<open>simp add: counts_ok_def\<close>)
qed

lemma be_wf_ops:
  assumes "be_wf be"
  shows "be_wf (DeleteBlock b be)" "be_wf (SetNameToBlockId n j be)" "UpdateBlock b be = Inr (k, be') \<Longrightarrow> be_wf be'"
  using assms by (simp_all add: be_wf_def GetBlockById_Delete GetBlockById_SetName GetBlockById_Update)

section \<open>Flushing a block\<close>

text \<open>The block being dropped leaves the cache.\<close>

lemma good_drop:
  assumes "good X {a} s0 s" "a < next_addr s"
  shows "good X {} s0 (s\<lparr>blocks := AList.delete (Id (heap s a)) (blocks s)\<rparr>)"
proof -
  note c = assms(1) [THEN good_cinv]
  have d: "(i, x) \<in> set (AList.delete (Id (heap s a)) (blocks s)) \<longleftrightarrow> (i, x) \<in> set (blocks s) \<and> i \<noteq> Id (heap s a)" for i x
    by (auto simp: AList.delete_eq)
  have "cinv X {} (s\<lparr>blocks := AList.delete (Id (heap s a)) (blocks s)\<rparr>)"
  proof (rule cinvI)
    fix i x assume "(i, x) \<in> set (blocks (s\<lparr>blocks := AList.delete (Id (heap s a)) (blocks s)\<rparr>))"
    then have x: "(i, x) \<in> set (blocks s)" "i \<noteq> Id (heap s a)" by (simp_all add: d)
    then have "x \<noteq> a" using cinvD(3) [OF c x(1)] by auto
    then show "storageRefCount (heap (s\<lparr>blocks := AList.delete (Id (heap s a)) (blocks s)\<rparr>) x) = 0 \<Longrightarrow>
        x \<in> set (dirtyStorageRefBlocks (s\<lparr>blocks := AList.delete (Id (heap s a)) (blocks s)\<rparr>)) \<or> x \<in> {} \<or>
        x \<in> X \<and> Stored (heap (s\<lparr>blocks := AList.delete (Id (heap s a)) (blocks s)\<rparr>) x) = None"
      using cinvD(6) [OF c x(1)] by auto
  qed (use cinvD(1-5) [OF c] d in \<open>auto simp: distinct_delete\<close>)
  then show ?thesis using assms(1) by (simp add: good_def after_def)
qed

lemma good_refs:
  assumes "good X Z s0 s" "set ds \<subseteq> set (dirtyStorageRefBlocks s)" "Z \<subseteq> Z'"
    "\<And>x. x \<in> set (dirtyStorageRefBlocks s) \<Longrightarrow> x \<notin> set ds \<Longrightarrow> x \<in> Z' \<or> storageRefCount (heap s x) \<noteq> 0"
  shows "good X Z' s0 (s\<lparr>dirtyStorageRefBlocks := ds\<rparr>)"
proof -
  note c = assms(1) [THEN good_cinv]
  have "cinv X Z' (s\<lparr>dirtyStorageRefBlocks := ds\<rparr>)"
  proof (rule cinvI)
    fix i x assume "(i, x) \<in> set (blocks (s\<lparr>dirtyStorageRefBlocks := ds\<rparr>))"
      "storageRefCount (heap (s\<lparr>dirtyStorageRefBlocks := ds\<rparr>) x) = 0"
    then have x: "(i, x) \<in> set (blocks s)" "storageRefCount (heap s x) = 0" by simp_all
    from cinvD(6) [OF c this] assms(3) assms(4) [of x] x(2)
    show "x \<in> set (dirtyStorageRefBlocks (s\<lparr>dirtyStorageRefBlocks := ds\<rparr>)) \<or> x \<in> Z' \<or>
        x \<in> X \<and> Stored (heap (s\<lparr>dirtyStorageRefBlocks := ds\<rparr>) x) = None" by auto
  qed (use cinvD(1-5) [OF c] assms(2) in auto)
  then show ?thesis using assms(1) by (simp add: good_def after_def)
qed

lemma good_flushStorageRef:
  assumes "good X {} s0 s" "a < next_addr s0"
  shows "okE (\<lambda>(n, s'). good X {} s0 s') (flushStorageRef E a s)"
proof -
  let ?s = "s\<lparr>dirtyStorageRefBlocks := removeAll a (dirtyStorageRefBlocks s)\<rparr>"
  have z: "good X {a} s0 ?s" by (rule good_refs [OF assms(1)]) auto
  have n: "good X {} s0 ?s" if "storageRefCount (heap ?s a) \<noteq> 0"
    by (rule good_refs [OF assms(1)]) (use that in auto)
  show ?thesis
    unfolding flushStorageRef_def Let_def
    by (intro okE_if okE_bind [OF good_shouldHaveStorage [OF z]] okE_bind [OF good_shouldHaveStorage [OF n]])
      (auto intro!: okE_Inr good_drop good_addr [OF _ assms(2)])
qed

lemma good_flush_backend:
  assumes "good X Z s0 s" "a < next_addr s0"
  shows "okE (\<lambda>(n, s'). good X Z s0 s') (flush_backend E a s)"
proof -
  have up: "good X Z s0 (upd_block a (\<lambda>b. b\<lparr>hasBackend := h\<rparr>) s1)" if "good X Z s0 s1" for s1 h
    using that by (auto intro: good_upd simp: counts_ok_def)
  have st: "good X Z s0 (s1\<lparr>Backend := be, rnd := r\<rparr>)"
    if "good X Z s0 s1" "StoreBlock (cenv E) (heap s1 a) (Backend s1) (rnd s1) = Inr (be, r)" for s1 be r
    using good_rnd [OF good_backend [OF that(1) be_wf_Store [OF good_be [OF that(1)] that(2) good_counts [OF that(1) good_addr [OF that(1) assms(2)]]]], of r]
    by simp
  have u: "good X Z s0 (s\<lparr>Backend := be\<rparr>)" if "UpdateBlock (heap s a) (Backend s) = Inr (n, be)" for n be
    by (rule good_backend [OF assms(1) be_wf_ops(3) [OF good_be [OF assms(1)] that]])
  have d: "okE (\<lambda>(n, s'). good X Z s0 s') (case x of (_, s1) \<Rightarrow>
      let s2 = AddInt C_DELETE 1 s1; s3 = s2\<lparr>Backend := DeleteBlock (heap s2 a) (Backend s2)\<rparr>
      in Inr (1 :: int, upd_block a (\<lambda>b. b\<lparr>hasBackend := False\<rparr>) s3))" if "case x of (d, s') \<Rightarrow> good X Z s0 s'" for x :: "gostring \<times> _"
    using that by (auto simp: Let_def intro!: okE_Inr up good_backend good_AddInt be_wf_ops(1) good_be)
  have w: "okE (\<lambda>(n, s'). good X Z s0 s') (case x of (data, s1) \<Rightarrow>
      let s2 = AddInt C_WRITEBYTES (int (length data)) s1
      in bindE (StoreBlock (cenv E) (heap s2 a) (Backend s2) (rnd s2)) (\<lambda>(be, r).
         Inr (1 :: int, upd_block a (\<lambda>b. b\<lparr>hasBackend := True\<rparr>) (s2\<lparr>Backend := be, rnd := r\<rparr>))))"
    if "case x of (d, s') \<Rightarrow> good X Z s0 s'" for x :: "gostring \<times> _"
  proof -
    obtain data s1 where x: "x = (data, s1)" by (cases x)
    let ?s = "AddInt C_WRITEBYTES (int (length data)) s1"
    have g: "good X Z s0 ?s" using that x by (auto intro: good_AddInt)
    show ?thesis unfolding x Let_def prod.case
      by (rule okE_bind_eq) (auto intro!: okE_Inr up st [OF g] simp del: AddInt_simps)
  qed
  show ?thesis
    unfolding flush_backend_def
    by (intro okE_if okE_bind [OF good_GetData] d w okE_bind_eq good_AddInt assms(1)) (auto intro!: okE_Inr assms(1) u)
qed

lemma good_Block_flush:
  assumes "good X {} s0 s" "a < next_addr s0"
  shows "okE (\<lambda>(n, s'). good X {} s0 s') (Block_flush E a s)"
proof -
  have fin: "okE (good X {} s0) (addStorageRefCount a (-1)
      ((upd_block a (\<lambda>b. b\<lparr>Stored := None\<rparr>) s4)\<lparr>dirtyBlocks := removeAll a (dirtyBlocks s4)\<rparr>))" if "good X {} s0 s4" for s4
  proof -
    let ?s5 = "upd_block a (\<lambda>b. b\<lparr>Stored := None\<rparr>) s4"
    let ?s6 = "?s5\<lparr>dirtyBlocks := removeAll a (dirtyBlocks ?s5)\<rparr>"
    note c = that [THEN good_cinv]
    have "cinv (insert a X) {} ?s6"
    proof (rule cinvI)
      fix i x assume x: "(i, x) \<in> set (blocks ?s6)"
      then have x': "(i, x) \<in> set (blocks s4)" by simp
      show "x < next_addr ?s6 \<and> Id (heap ?s6 x) = i" using cinvD(3) [OF c x'] by auto
      assume "storageRefCount (heap ?s6 x) = 0"
      then have "storageRefCount (heap s4 x) = 0" by (auto split: if_splits)
      from cinvD(6) [OF c x' this]
      show "x \<in> set (dirtyStorageRefBlocks ?s6) \<or> x \<in> {} \<or> x \<in> insert a X \<and> Stored (heap ?s6 x) = None" by auto
    next
      fix x assume "x < next_addr ?s6"
      then have x: "x < next_addr s4" by simp
      show "counts_ok (heap ?s6 x)" "x \<in> set (dirtyBlocks ?s6) \<longleftrightarrow> Stored (heap ?s6 x) \<noteq> None"
        using cinvD(4) [OF c x] by (auto simp: counts_ok_def)
    qed (use cinvD(1,2,5) [OF c] in auto)
    then have "good (insert a X) {} s0 ?s6" using that by (auto simp: good_def after_def)
    moreover have "a < next_addr ?s6" using good_addr [OF that assms(2)] by simp
    ultimately show ?thesis using good_addStorageRefCount [of a X "{}" s0 ?s6 "-1"] by simp
  qed
  show ?thesis
    unfolding Block_flush_def
    by (auto split: option.split simp: Let_def
        intro!: okE_Inl okE_bind [OF good_flush_backend [OF assms]] okE_bind [where Q = "good X {} s0"] okE_bind [OF good_shouldHaveDisk]
          okE_bind [OF good_shouldHaveStorage] okE_Inr okE_bind [OF fin])
qed

section \<open>Status\<close>

lemma good_present_refs:
  assumes "good X Z s0 s" "present_refs ids s = (bs, ok, s')"
  shows "good (set bs \<union> X) Z s0 s' \<and> (\<forall>b \<in> set bs. b < next_addr s')"
  using assms
proof (induction ids arbitrary: X s0 s bs ok)
  case (Cons i ids)
  obtain p s1 where p: "getBlockById i s = (p, s1)" by fastforce
  show ?case
  proof (cases p)
    case None
    then show ?thesis using Cons.prems p good_getBlockById [OF Cons.prems(1) p] by auto
  next
    case (Some b)
    then have g: "good (insert b X) Z s1 s1" "good (insert b X) Z s0 s1" "b < next_addr s1"
      using good_getBlockById [OF Cons.prems(1) p] by (auto simp: good_def)
    obtain bs1 ok1 where r: "present_refs ids s1 = (bs1, ok1, s')" "bs = b # bs1"
      using Cons.prems(2) p Some by (auto split: prod.splits)
    have "b < next_addr s'" using Cons.IH [OF g(1) r(1)] g(3) good_addr by blast
    then show ?thesis using Cons.IH [OF g(2) r(1)] r(2) by auto
  qed
qed auto

lemma good_release_refs:
  assumes "good (set bs \<union> X) Z s0 s" "\<And>b. b \<in> set bs \<Longrightarrow> b < next_addr s"
  shows "okE (good X Z s0) (foldE (\<lambda>b. addStorageRefCount b 0) bs s)"
  using assms
proof (induction bs arbitrary: s)
  case (Cons b bs)
  show ?case
    unfolding foldE.simps
  proof (rule okE_bind_eq)
    fix s1 assume s1: "addStorageRefCount b 0 s = Inr s1"
    have "good (insert b (set bs \<union> X)) Z s0 s" using Cons.prems(1) by simp
    then have "good (set bs \<union> X) Z s0 s1" using okE_D [OF good_addStorageRefCount [OF _ Cons.prems(2)] s1] by simp
    then show "okE (good X Z s0) (foldE (\<lambda>b. addStorageRefCount b 0) bs s1)"
      using Cons.prems(2) addStorageRefCount_frame [OF s1] by (intro Cons.IH) auto
  qed
qed (simp add: okE_Inr)

lemma good_setStatus_change:
  assumes "good X Z s0 s"
  shows "okE (good X Z s0) (setStatus_change E a stat s)"
  unfolding setStatus_change_def
  by (intro okE_bind_eq okE_bind [where Q = "\<lambda>(d, m, s'). good X Z s0 s'"])
    (auto intro!: okE_if okE_bind [OF good_setDependencies] okE_bind [OF good_shouldHaveStorage] okE_bind [OF good_shouldHaveDisk]
      okE_Inr good_upd assms simp: counts_ok_def)

lemma good_setStatus:
  assumes "good X Z s0 s" "a < next_addr s"
  shows "okE (\<lambda>(ok, s'). good X Z s0 s') (setStatus E a stat s)"
proof -
  have start: "okE (\<lambda>(bs, p, s1). good (set bs \<union> X) Z s0 s1 \<and> (\<forall>b \<in> insert a (set bs). b < next_addr s1))
      (if ch then bindE (iterateReferences E a s) (\<lambda>(ids, s1). Inr (present_refs ids s1)) else Inr ([], True, s))" for ch
  proof (intro okE_if okE_bind)
    show "okE (\<lambda>(ids, s'). good X Z s0 s' \<and> a < next_addr s') (iterateReferences E a s)"
      using good_iterateReferences [OF assms(1), of E a] good_iterateReferences [OF good_refl [OF good_cinv [OF assms(1)]], of E a]
        good_addr [OF _ assms(2)] by (auto simp: okE_def)
  next
    fix x :: "gostring list \<times> _" assume "case x of (ids, s') \<Rightarrow> good X Z s0 s' \<and> a < next_addr s'"
    then obtain ids s1 where x: "x = (ids, s1)" "good X Z s0 s1" "a < next_addr s1" by (cases x) auto
    obtain bs p s2 where r: "present_refs ids s1 = (bs, p, s2)" by (cases "present_refs ids s1") auto
    have "good (set bs \<union> X) Z s0 s2 \<and> (\<forall>b \<in> set bs. b < next_addr s2)" by (rule good_present_refs [OF x(2) r])
    moreover have "good (set bs \<union> X) Z s1 s2" using good_present_refs [OF good_refl [OF good_cinv [OF x(2)]] r] by blast
    then have "a < next_addr s2" using x(3) by (rule good_addr)
    ultimately show "okE (\<lambda>(bs, p, s1). good (set bs \<union> X) Z s0 s1 \<and> (\<forall>b \<in> insert a (set bs). b < next_addr s1))
        (case x of (ids, s1) \<Rightarrow> Inr (present_refs ids s1))"
      by (simp add: x(1) r okE_Inr)
  qed (use assms in \<open>simp add: okE_Inr\<close>)
  have main: "okE (\<lambda>s4. good Y Z s0 s4 \<and> next_addr s1 \<le> next_addr s4)
      (if p then bindE (markDirty a s1) (\<lambda>s2. bindE (if ch then setStatus_change E a stat s2 else Inr s2) (\<lambda>s3.
         Inr (upd_block a (\<lambda>b. b\<lparr>meta := (meta b)\<lparr>Status := stat\<rparr>\<rparr>) s3))) else Inr s1)"
    if "good Y Z s0 s1" "a < next_addr s1" for Y s1 p ch
  proof -
    have "okE (good Y Z s) (if p then bindE (markDirty a s1) (\<lambda>s2. bindE (if ch then setStatus_change E a stat s2 else Inr s2) (\<lambda>s3.
         Inr (upd_block a (\<lambda>b. b\<lparr>meta := (meta b)\<lparr>Status := stat\<rparr>\<rparr>) s3))) else Inr s1)" if "good Y Z s s1" for s
      using that \<open>a < next_addr s1\<close>
      by (auto intro!: okE_Inr okE_bind [where Q = "good Y Z s"] good_markDirty [OF good_insert] good_setStatus_change good_upd
          simp: counts_ok_def)
    from this [OF that(1)] this [OF good_refl [OF good_cinv [OF that(1)]]] show ?thesis by (auto simp: okE_def good_def after_def)
  qed
  show ?thesis
    unfolding setStatus_def Let_def
  proof (intro okE_if okE_bind [OF start])
    fix x :: "nat list \<times> bool \<times> _" assume "case x of (bs, p, s1) \<Rightarrow> good (set bs \<union> X) Z s0 s1 \<and> (\<forall>b \<in> insert a (set bs). b < next_addr s1)"
    then obtain bs p s1 where x: "x = (bs, p, s1)" "good (set bs \<union> X) Z s0 s1" "\<forall>b \<in> insert a (set bs). b < next_addr s1"
      by (cases x) auto
    have "okE (good X Z s0) (foldE (\<lambda>b. addStorageRefCount b 0) bs s4)" if "good (set bs \<union> X) Z s0 s4 \<and> next_addr s1 \<le> next_addr s4" for s4
      using that x(3) by (intro good_release_refs) auto
    then show "okE (\<lambda>(ok, s'). good X Z s0 s') (case x of (refs, possible, s1) \<Rightarrow>
        bindE (if possible then bindE (markDirty a s1) (\<lambda>s2.
            bindE (if (stat < BS_WANT_NORMAL) \<noteq> (blk_Status (heap s a) < BS_WANT_NORMAL) then setStatus_change E a stat s2 else Inr s2) (\<lambda>s3.
            Inr (upd_block a (\<lambda>b. b\<lparr>meta := (meta b)\<lparr>Status := stat\<rparr>\<rparr>) s3))) else Inr s1) (\<lambda>s4.
        bindE (foldE (\<lambda>b. addStorageRefCount b 0) refs s4) (\<lambda>s5. Inr (possible, s5))))"
      unfolding x(1) prod.case
      by (intro okE_bind [OF main [OF x(2)]] okE_bind [where Q = "good X Z s0"]) (use x(3) in \<open>auto intro: okE_Inr\<close>)
  qed (use assms in \<open>simp add: okE_Inr\<close>)
qed

section \<open>Names\<close>

lemma good_getName: "good X Z s0 s \<Longrightarrow> getName name s = (n, s') \<Longrightarrow> good X Z s0 s'"
  by (auto simp: getName_def Let_def intro: good_names split: option.splits)

lemma good_on_block:
  assumes "good X Z s0 s" "\<And>a s. good (insert a X) Z s0 s \<Longrightarrow> a < next_addr s \<Longrightarrow> okE (good X Z s0) (f a s)"
  shows "okE (good X Z s0) (on_block i f s)"
  using good_getBlockById [OF assms(1), of i] assms(2)
  by (auto simp: on_block_def split: prod.split intro!: okE_deref)

lemma good_setNameToBlockId: "good X Z s0 s \<Longrightarrow> okE (good X Z s0) (setNameToBlockId name bid s)"
  unfolding setNameToBlockId_def
  by (auto split: prod.split dest: good_getName
      intro!: okE_bind [where Q = "good X Z s0"] okE_Inr good_names good_on_block good_addStorageRefCount)

lemma good_flushBlockName: 
  assumes "good X Z s0 s"
  shows "okE (good X Z s0) (flushBlockName E k v s)"
proof -
  let ?s = "s\<lparr>Backend := SetNameToBlockId k (newValue v) (Backend s)\<rparr>"
  have s: "good X Z s0 ?s" by (rule good_backend [OF assms be_wf_ops(2) [OF good_be [OF assms]]])
  have up: "okE (good X Z s0) (bindE (addRefCount E b 1 s1) (addStorageRefCount b (-1)))"
    if "good (insert b X) Z s0 s1" "b < next_addr s1" for b s1
  proof (rule okE_bind_eq)
    fix s2 assume s2: "addRefCount E b 1 s1 = Inr s2"
    have g: "good X Z s0 s2" by (rule okE_D [OF good_addRefCount [OF that] s2]) simp
    have "good (insert b X) Z s1 s2"
      by (rule okE_D [OF good_addRefCount [OF good_insert that(2)] s2]) (use that(1) in \<open>auto simp: good_def\<close>)
    then have "b < next_addr s2" using that(2) by (rule good_addr)
    then show "okE (good X Z s0) (addStorageRefCount b (-1) s2)" by (rule good_addStorageRefCount [OF good_insert [OF g]])
  qed
  show ?thesis
    unfolding flushBlockName_def Let_def
    by (intro okE_bind [where Q = "\<lambda>(v', s'). good X Z s0 s'"] okE_if okE_bind [OF good_on_block [OF s up]] okE_Inr)
      (use s in \<open>auto intro!: okE_Inr okE_bind [where Q = "good X Z s0"] good_names good_on_block good_addRefCount\<close>)
qed

lemma good_flushBlockNames: "good X Z s0 s \<Longrightarrow> okE (\<lambda>(n, s'). good X Z s0 s') (flushBlockNames E \<sigma> s)"
  unfolding flushBlockNames_def
  by (rule okE_fold) (auto split: option.split intro!: okE_Inr okE_bind [OF good_flushBlockName])

section \<open>Flush\<close>

lemma next_entry_in: "next_entry p pending taken cur = Some a \<Longrightarrow> a \<in> set cur"
  by (auto simp: next_entry_def append_eq_Cons_conv filter_eq_Cons_iff split: list.splits)

text \<open>An invariant of the turns is one of the loops.\<close>

lemma range_loop_inv:
  assumes "range_loop \<sigma> sel body k pending taken ops s = Some r" "I s"
    "\<And>a s n s'. I s \<Longrightarrow> a \<in> set (sel s) \<Longrightarrow> body a s = Inr (Flushed n s') \<Longrightarrow> I s'"
  shows "okE (\<lambda>(k', ops', s'). I s') r"
proof -
  have "(\<forall>a s n s'. I s \<longrightarrow> a \<in> set (sel s) \<longrightarrow> body a s = Inr (Flushed n s') \<longrightarrow> I s') \<longrightarrow> I s \<longrightarrow> okE (\<lambda>(k', ops', s'). I s') r"
  proof (induct rule: range_loop.raw_induct [OF _ assms(1)])
    case (1 loop \<sigma> sel body k pending taken ops s r)
    show ?case
    proof (intro impI)
      assume step: "\<forall>a s n s'. I s \<longrightarrow> a \<in> set (sel s) \<longrightarrow> body a s = Inr (Flushed n s') \<longrightarrow> I s'" and I: "I s"
      show "okE (\<lambda>(k', ops', s'). I s') r"
      proof (cases "next_entry (\<sigma> k) pending taken (sel s)")
        case None
        then show ?thesis using 1(2) I by (auto intro: okE_Inr)
      next
        case (Some a)
        note a = next_entry_in [OF Some]
        show ?thesis
        proof (cases "body a s")
          case (Inl e)
          then show ?thesis using 1(2) Some by (auto intro: okE_Inl)
        next
          case (Inr t)
          note body = 1(2) [unfolded Some Inr option.case bindO_simps]
          show ?thesis
          proof (cases t)
            case Skip
            show ?thesis using 1(1) [OF body [unfolded Skip turn.case]] step I by blast
          next
            case Break
            show ?thesis using body I unfolding Break turn.case by (auto intro: okE_Inr)
          next
            case (Flushed n s1)
            have "I s1" using step I a Inr unfolding Flushed by blast
            then show ?thesis using 1(1) [OF body [unfolded Flushed turn.case]] step by blast
          qed
        qed
      qed
    qed
  qed
  then show ?thesis using assms(2,3) by blast
qed

lemma flush_rounds_inv:
  assumes "flush_rounds \<sigma> sel cnt fl k ops s = Some r" "I s"
    "\<And>a s n s'. I s \<Longrightarrow> a \<in> set (sel s) \<Longrightarrow> fl a s = Inr (n, s') \<Longrightarrow> I s'"
  shows "okE (\<lambda>(k', ops', s'). I s' \<and> sel s' = []) r"
proof -
  have turn: "okE (\<lambda>(k', ops', s'). I s') r" if "range_loop \<sigma> sel (count_turn cnt fl first) k pending taken ops s = Some r" "I s"
      "\<forall>a s n s'. I s \<longrightarrow> a \<in> set (sel s) \<longrightarrow> fl a s = Inr (n, s') \<longrightarrow> I s'"
    for \<sigma> and sel :: "'a storage \<Rightarrow> nat list" and cnt fl first k pending taken ops s r
    using that(1,2)
  proof (rule range_loop_inv)
    fix a s n s' assume "I s" "a \<in> set (sel s)" "count_turn cnt fl first a s = Inr (Flushed n s')"
    then show "I s'" using that(3) by (auto simp: count_turn_def res_simps split: if_splits)
  qed
  have "(\<forall>a s n s'. I s \<longrightarrow> a \<in> set (sel s) \<longrightarrow> fl a s = Inr (n, s') \<longrightarrow> I s') \<longrightarrow>
      I s \<longrightarrow> okE (\<lambda>(k', ops', s'). I s' \<and> sel s' = []) r"
  proof (induct rule: flush_rounds.raw_induct [OF _ assms(1)])
    case (1 loop \<sigma> sel cnt fl k ops s r)
    show ?case
    proof (intro impI)
      assume step: "\<forall>a s n s'. I s \<longrightarrow> a \<in> set (sel s) \<longrightarrow> fl a s = Inr (n, s') \<longrightarrow> I s'" and I: "I s"
      have rec: "okE (\<lambda>(k', ops', s'). I s' \<and> sel s' = []) r" if "loop \<sigma> sel cnt fl k1 ops1 s1 = Some r" "I s1" for k1 ops1 s1
        using 1(1) [OF that(1)] step that(2) by blast
      show "okE (\<lambda>(k', ops', s'). I s' \<and> sel s' = []) r"
      proof (cases "sel s = []")
        case True
        then show ?thesis using 1(2) I by (auto intro: okE_Inr)
      next
        case False
        then obtain r1 where r1: "range_loop \<sigma> sel (count_turn cnt fl True) k (sel s) [] ops s = Some r1"
          using 1(2) by (auto simp: bindO_eq_Some)
        note t1 = turn [OF r1 I step]
        show ?thesis
        proof (cases r1)
          case (Inl e)
          then show ?thesis using 1(2) False r1 by (auto intro: okE_Inl)
        next
          case (Inr x)
          then obtain k1 ops1 s1 where x: "r1 = Inr (k1, ops1, s1)" by (cases x) auto
          have I1: "I s1" using okE_D [OF t1 x] by simp
          show ?thesis
          proof (cases "ops1 = ops")
            case True
            then obtain r2 where r2: "range_loop \<sigma> sel (count_turn cnt fl False) k1 (sel s1) [] ops1 s1 = Some r2"
              using 1(2) False r1 x by (auto simp: bindO_eq_Some)
            note t2 = turn [OF r2 I1 step]
            show ?thesis
            proof (cases r2)
              case (Inl e)
              then show ?thesis using 1(2) False r1 x True r2 by (auto intro: okE_Inl)
            next
              case (Inr y)
              then obtain k2 ops2 s2 where y: "r2 = Inr (k2, ops2, s2)" by (cases y) auto
              show ?thesis using 1(2) False r1 x True r2 y okE_D [OF t2 y] by (auto intro: rec)
            qed
          qed (use 1(2) False r1 x I1 in \<open>auto intro: rec\<close>)
        qed
      qed
    qed
  qed
  then show ?thesis using assms(2,3) by blast
qed

end
