(* ===== verification/StWorld.thy ===== *)
theory StWorld
  imports StInv
begin

text \<open>
  The storage as a transition system: users enqueue jobs and use their handles, the goroutine
  serves the queue. Every world that is reached satisfies the invariant of the cache, and a
  served flush leaves nothing to flush.
\<close>

section \<open>Jobs and the invariant\<close>

text \<open>What a change of dependencies keeps, if the lookups and the operation on each block keep it.\<close>

definition lookup_stable :: "('n, 'r) storage_env \<Rightarrow> ('r storage \<Rightarrow> bool) \<Rightarrow> bool" where
  "lookup_stable E P \<longleftrightarrow>
     (\<forall>s i p s'. P s \<and> getBlockById i s = (p, s') \<longrightarrow> P s') \<and>
     (\<forall>s a ids s'. P s \<and> iterateReferences E a s = Inr (ids, s') \<longrightarrow> P s')"

lemma stable_setDependencies_by:
  assumes "lookup_stable E P" "\<And>b s. P s \<Longrightarrow> okE P (op b s)" "P s"
  shows "okE P (setDependencies_by E op a stat s)"
proof -
  have "okE P (case getBlockById i s of
      (None, s') \<Rightarrow> Inl (PanicMsg ''Block awol in updateBlockDataDependencies'') | (Some b, s') \<Rightarrow> op b s')" if "P s" for i s
  proof -
    obtain p s' where p: "getBlockById i s = (p, s')" by fastforce
    then have "P s'" using assms(1) that unfolding lookup_stable_def by blast
    then show ?thesis using assms(2) p by (cases p) (auto intro: okE_Inl)
  qed
  moreover have "P s'" if "iterateReferences E a s = Inr (ids, s')" for ids s'
    using assms(1,3) that unfolding lookup_stable_def by blast
  ultimately show ?thesis
    unfolding setDependencies_by_def using assms(3)
    by (auto intro!: okE_if okE_Inr okE_bind_eq okE_fold)
qed

lemma stable_shouldHaveStorage:
  assumes "lookup_stable E P" "\<And>b v s. P s \<Longrightarrow> okE P (addStorageRefCount b v s)"
    "\<And>b s. P s \<Longrightarrow> P (upd_block a (\<lambda>b. b\<lparr>haveStorageRefs := v\<rparr>) s)" "P s"
  shows "okE (\<lambda>(c, s'). P s') (shouldHaveStorageDependencies E v a s)"
  unfolding shouldHaveStorageDependencies_def updateDependencies_by_def setDependencies_storage_def Let_def
  by (intro okE_if okE_bind [OF stable_setDependencies_by [OF assms(1)]] assms(2)) (auto intro!: okE_Inr assms(3,4))

lemma stable_dirtyBlocks: "lookup_stable E (\<lambda>s. dirtyBlocks s = D)"
  by (auto simp: lookup_stable_def getBlockById_def iterateReferences_def Block_GetData_def Let_def res_simps split: option.splits)

lemma good_flush_frame:
  fixes E :: "('n, 'r) storage_env"
  shows "okE (\<lambda>(n, s'). dirtyBlocks s' = dirtyBlocks s) (flushStorageRef E a s)"
proof -
  have add: "okE (\<lambda>s'. dirtyBlocks s' = D) (addStorageRefCount b v s)" if "dirtyBlocks s = D" for b v D and s :: "'r storage"
    using that addStorageRefCount_frame [of b v s] by (auto simp: okE_def)
  have should: "okE (\<lambda>(c, s'). dirtyBlocks s' = D) (shouldHaveStorageDependencies E v a s)" if "dirtyBlocks s = D" for v D s
    by (rule stable_shouldHaveStorage [OF stable_dirtyBlocks add]) (use that in auto)
  show ?thesis
    unfolding flushStorageRef_def Let_def
    by (intro okE_if okE_bind [OF should]) (auto intro!: okE_Inr)
qed

text \<open>After a flush that returns, nothing waits to be flushed.\<close>

lemma good_Storage_flush:
  assumes "cinv {} {} s" "Storage_flush E \<sigma> s = Some (Inr (n, s'))"
  shows "good {} {} s s' \<and> dirtyBlocks s' = [] \<and> dirtyStorageRefBlocks s' = []"
proof -
  let ?s0 = "s\<lparr>counters := (\<lambda>_. 0)\<rparr>"
  have g0: "good {} {} s ?s0" by (intro good_counters good_refl assms(1))
  obtain ops1 s1 k2 ops2 s2 k3 where s1: "flushBlockNames E \<sigma> ?s0 = Inr (ops1, s1)"
    and s2: "flush_rounds (picks \<sigma>) dirtyBlocks blk_RefCount (Block_flush E) 0 ops1 s1 = Some (Inr (k2, ops2, s2))"
    and s3: "flush_rounds (picks \<sigma>) dirtyStorageRefBlocks storageRefCount (flushStorageRef E) k2 ops2 s2 = Some (Inr (k3, n, s'))"
    using assms(2) by (auto simp: Storage_flush_def Let_def bindO_eq_Some)
  have step: "good {} {} s t'" if "good {} {} s t" "a \<in> set (dirtyBlocks t) \<union> set (dirtyStorageRefBlocks t)"
    "Block_flush E a t = Inr (m, t') \<or> flushStorageRef E a t = Inr (m, t')" for a t m t'
  proof -
    have a: "a < next_addr t" by (rule cinvD(5) [OF good_cinv [OF that(1)] that(2)])
    have r: "good {} {} t t" by (rule good_refl [OF good_cinv [OF that(1)]])
    have "good {} {} t t'"
      using that(3) okE_D [OF good_Block_flush [OF r a, of E]] okE_D [OF good_flushStorageRef [OF r a, of E]] by fastforce
    then show ?thesis using that(1) after_trans by (auto simp: good_def)
  qed
  have g1: "good {} {} s s1" using okE_D [OF good_flushBlockNames [OF g0] s1] by simp
  have "okE (\<lambda>(k', ops', s'). good {} {} s s' \<and> dirtyBlocks s' = []) (Inr (k2, ops2, s2))"
    by (rule flush_rounds_inv [OF s2, where I = "good {} {} s"]) (rule g1, rule step, auto)
  from okE_D [OF this refl] have g2: "good {} {} s s2 \<and> dirtyBlocks s2 = []" by simp
  have "okE (\<lambda>(k', ops', s'). (good {} {} s s' \<and> dirtyBlocks s' = []) \<and> dirtyStorageRefBlocks s' = []) (Inr (k3, n, s'))"
  proof (rule flush_rounds_inv [OF s3, where I = "\<lambda>t. good {} {} s t \<and> dirtyBlocks t = []", OF g2])
    fix a t m t' assume t: "good {} {} s t \<and> dirtyBlocks t = []" "a \<in> set (dirtyStorageRefBlocks t)" "flushStorageRef E a t = Inr (m, t')"
    have "dirtyBlocks t' = dirtyBlocks t" using okE_D [OF good_flush_frame t(3)] by simp
    then show "good {} {} s t' \<and> dirtyBlocks t' = []" using step [of t a m t'] t by simp
  qed
  from okE_D [OF this refl] show ?thesis by simp
qed

text \<open>A block found is one of the cache, or one that is new and has no handles.\<close>

definition found :: "nat \<Rightarrow> 'r storage \<Rightarrow> 'r storage \<Rightarrow> bool" where
  "found a s0 s \<longleftrightarrow> a < next_addr s \<and>
     (good {} {} s0 s \<or> good {a} {} s0 s \<and> externalStorageRefCount (heap s a) = 0)"

lemma found_getBlockById:
  assumes "good {} {} s0 s" "getBlockById i s = (Some a, s')"
  shows "found a s0 s'"
proof -
  have g: "good {a} {} s0 s'" "a < next_addr s'" using good_getBlockById [OF assms] by auto
  have "s' = s \<or> externalStorageRefCount (heap s' a) = 0"
    using assms(2) by (auto simp: getBlockById_def Let_def split: option.splits)
  then show ?thesis using g assms(1) by (auto simp: found_def)
qed

lemma found_addRefCount:
  assumes "found a s0 s"
  shows "okE (found a s0) (addRefCount E a count s)"
proof (cases "count = 0")
  case True
  then show ?thesis using assms by (simp add: addRefCount_def okE_Inr)
next
  case False
  have a: "a < next_addr s" and g: "good {a} {} s0 s" using assms good_insert by (auto simp: found_def)
  have "okE (good {} {} s0) (addRefCount E a count s)" using g a False by (intro good_addRefCount) simp_all
  moreover have "okE (good {} {} s) (addRefCount E a count s)"
    using good_refl [OF good_cinv [OF g]] a False by (intro good_addRefCount) simp_all
  ultimately show ?thesis using good_addr [OF _ a] by (auto simp: okE_def found_def)
qed

lemma found_setBlock:
  assumes "found a s0 s"
  shows "okE (good {} {} s0) (bindE (addExternalStorageRefCount a 1 s) (\<lambda>(nv, s). if nv = 1 then addStorageRefCount a 1 s else Inr s))"
proof (rule okE_bind_eq, clarify)
  fix nv s1 assume e: "addExternalStorageRefCount a 1 s = Inr (nv, s1)"
  then have s1: "s1 = upd_block a (\<lambda>b. b\<lparr>externalStorageRefCount := nv\<rparr>) s" "nv = int32 (externalStorageRefCount (heap s a) + 1)"
    by (auto simp: addExternalStorageRefCount_def Let_def split: if_splits)
  have g: "good {a} {} s0 s1" using okE_D [OF good_addExternal e] assms good_insert [of "{}" "{}" s0 s a] by (auto simp: found_def)
  have "good {} {} s0 s1" if "nv \<noteq> 1"
  proof -
    have "externalStorageRefCount (heap s a) \<noteq> 0" using that s1(2) by (auto simp: int32_def)
    then show ?thesis using okE_D [OF good_addExternal e] assms by (auto simp: found_def)
  qed
  moreover have "a < next_addr s1" using assms by (simp add: found_def s1)
  ultimately show "okE (good {} {} s0) (if nv = 1 then addStorageRefCount a 1 s1 else Inr s1)"
    using good_addStorageRefCount [OF g] by (auto intro: okE_Inr)
qed

section \<open>Worlds\<close>

definition wgood :: "'r world \<Rightarrow> bool" where
  "wgood w \<longleftrightarrow> cinv {} {} (st w) \<and> (\<forall>f a. futures w f = Some (Some a) \<longrightarrow> a < next_addr (st w))"

lemma wgood_st: "wgood w \<Longrightarrow> good {} {} (st w) s \<Longrightarrow> wgood (w\<lparr>st := s\<rparr>)"
  by (force simp: wgood_def good_def after_def)

lemma wgood_setBlock_none: "wgood w \<Longrightarrow> okE wgood (setBlock f None w)"
  by (auto simp: setBlock_def wgood_def intro!: okE_Inr)

lemma wgood_setBlock_some:
  assumes "wgood w" "found a (st w) s"
  shows "okE wgood (setBlock f (Some a) (w\<lparr>st := s\<rparr>))"
proof -
  have g: "good {a} {} (st w) s" "a < next_addr s" using assms(2) good_insert by (auto simp: found_def)
  then have "found a s s" using assms(2) by (auto simp: found_def good_def)
  note r = okE_D [OF found_setBlock [OF this]] okE_D [OF found_setBlock [OF assms(2)]]
  have "wgood (w\<lparr>st := s', futures := (futures w)(f := Some (Some a))\<rparr>)"
    if "bindE (addExternalStorageRefCount a 1 s) (\<lambda>(nv, s). if nv = 1 then addStorageRefCount a 1 s else Inr s) = Inr s'" for s'
  proof -
    have "a < next_addr s'" by (rule good_addr [OF r(1) [OF that] g(2)])
    moreover have "wgood (w\<lparr>st := s'\<rparr>)" by (rule wgood_st [OF assms(1) r(2) [OF that]])
    ultimately show ?thesis by (auto simp: wgood_def)
  qed
  then show ?thesis unfolding setBlock_def option.case by (auto simp: intro!: okE_bind_eq okE_Inr)
qed

lemma good_new_block:
  assumes "good {} {} s0 s" "Id b = i" "counts_ok b" "Stored b = None" "externalStorageRefCount b = 0"
  shows "found (next_addr s) s0 (s\<lparr>heap := (heap s)(next_addr s := b), next_addr := Suc (next_addr s),
    blocks := AList.update i (next_addr s) (blocks s)\<rparr>)" (is "found ?a s0 ?s")
proof -
  note c = assms(1) [THEN good_cinv]
  have upd: "set (AList.update i ?a (blocks s)) = insert (i, ?a) {p \<in> set (blocks s). fst p \<noteq> i}"
    by (rule set_AList_update [OF cinvD(2) [OF c]])
  have old: "(j, x) \<in> set (blocks s) \<Longrightarrow> x \<noteq> ?a" for j x using cinvD(3) [OF c, of j x] by auto
  have "cinv {?a} {} ?s"
  proof (rule cinvI)
    show "be_wf (Backend ?s)" "distinct (map fst (blocks ?s))" using cinvD(1,2) [OF c] by (simp_all add: distinct_update)
  next
    fix j x assume "(j, x) \<in> set (blocks ?s)"
    then have x: "(j, x) = (i, ?a) \<or> (j, x) \<in> set (blocks s)" by (auto simp: upd)
    then show "x < next_addr ?s \<and> Id (heap ?s x) = j" using cinvD(3) [OF c, of j x] old [of j x] assms(2) by auto
    assume z: "storageRefCount (heap ?s x) = 0"
    show "x \<in> set (dirtyStorageRefBlocks ?s) \<or> x \<in> {} \<or> x \<in> {?a} \<and> Stored (heap ?s x) = None"
      using x z cinvD(6) [OF c, of j x] old [of j x] assms(4) by auto
  next
    fix x assume "x < next_addr ?s"
    then have x: "x = ?a \<or> x < next_addr s" by auto
    show "counts_ok (heap ?s x)" "x \<in> set (dirtyBlocks ?s) \<longleftrightarrow> Stored (heap ?s x) \<noteq> None"
      using x cinvD(4) [OF c, of x] cinvD(5) [OF c, of x] assms(3,4) by auto
  next
    fix x assume "x \<in> set (dirtyBlocks ?s) \<union> set (dirtyStorageRefBlocks ?s)"
    then show "x < next_addr ?s" using cinvD(5) [OF c, of x] by auto
  qed
  moreover have "after s0 ?s" using assms(1) by (auto simp: good_def after_def)
  ultimately show ?thesis using assms(5) by (simp add: found_def good_def)
qed

lemma wgood_run_StoreBlock:
  assumes "wgood w"
  shows "okE wgood (run_StoreBlock E f i count data ds status w)"
proof -
  have g: "good {} {} (st w) (st w)" using assms by (simp add: wgood_def good_refl)
  show ?thesis
    unfolding run_StoreBlock_def Let_def
    by (intro okE_bind [OF found_addRefCount [OF good_new_block [OF g]]] wgood_setBlock_some [OF assms])
      (auto simp: new_block_def counts_ok_def)
qed

text \<open>Serving a job. The users' calls never ask for a change of a reference count by zero, which
  would leave a block that is fetched for it in the cache.\<close>

definition job_ok :: "job \<Rightarrow> bool" where
  "job_ok j \<longleftrightarrow> (case j of jobUpdateBlockIdRefCount i count \<Rightarrow> count \<noteq> 0 | _ \<Rightarrow> True)"

lemma wgood_run_job:
  fixes w :: "'r world"
  assumes "wgood w" "job_ok j" "run_job E \<sigma> j w = Some r"
  shows "okE (\<lambda>(out, w'). wgood w') r"
proof -
  have c: "cinv {} {} (st w)" using assms(1) by (simp add: wgood_def)
  then have g: "good {} {} (st w) (st w)" by (rule good_refl)
  have st: "okE (\<lambda>(out, w'). wgood w') (bindE m (\<lambda>s'. Inr (out, w\<lparr>st := s'\<rparr>)))" if "okE (good {} {} (st w)) m" for m and out :: jobOut
    by (rule okE_bind [OF that]) (auto intro!: okE_Inr wgood_st assms(1))
  have out: "okE (\<lambda>(out, w'). wgood w') (bindE m (\<lambda>w'. Inr (NoOut, w')))" if "okE wgood m" for m :: "'r world res"
    by (rule okE_bind [OF that]) (auto intro!: okE_Inr)
  show ?thesis
  proof (cases j)
    case jobFlush
    show ?thesis
    proof (cases r)
      case (Inr x)
      then obtain n s where "Storage_flush E \<sigma> (st w) = Some (Inr (n, s))" "x = (OutNil, w\<lparr>st := s\<rparr>)"
        using assms(3) jobFlush by (auto simp: run_job_def bindO_eq_Some)
      moreover from this(1) have "wgood (w\<lparr>st := s\<rparr>)" using good_Storage_flush [OF c] by (intro wgood_st [OF assms(1)]) blast
      ultimately show ?thesis using Inr by (simp add: okE_Inr)
    qed (simp add: okE_Inl)
  next
    case (jobGetBlockById f i)
    obtain p s where p: "getBlockById i (st w) = (p, s)" by fastforce
    have "okE wgood (setBlock f p (w\<lparr>st := s\<rparr>))"
    proof (cases p)
      case None
      then show ?thesis using good_getBlockById [OF g p] wgood_setBlock_none assms(1) by simp
    next
      case (Some a)
      then show ?thesis using wgood_setBlock_some [OF assms(1) found_getBlockById [OF g]] p by simp
    qed
    then show ?thesis using assms(3) jobGetBlockById p out by (auto simp: run_job_def)
  next
    case (jobGetBlockIdByName name)
    obtain n s where "getName name (st w) = (n, s)" by fastforce
    then show ?thesis using assms(3) jobGetBlockIdByName good_getName [OF g] wgood_st [OF assms(1)] by (auto simp: run_job_def intro!: okE_Inr)
  next
    case (jobSetNameToBlockId name i)
    then show ?thesis using assms(3) st [OF good_setNameToBlockId [OF g]] by (auto simp: run_job_def)
  next
    case (jobSetStorageBlockStatus f status)
    then obtain p where p: "futures w f = Some p" "r = bindE (deref p) (\<lambda>a. bindE (setStatus E a status (st w)) (\<lambda>(ok, s). Inr (OutOk ok, w\<lparr>st := s\<rparr>)))"
      using assms(3) by (auto simp: run_job_def split: option.splits)
    show ?thesis
      unfolding p(2)
    proof (intro okE_deref okE_bind [OF good_setStatus [OF g]])
      show "a < next_addr (st w)" if "p = Some a" for a using assms(1) p(1) that by (simp add: wgood_def)
    qed (auto intro!: okE_Inr wgood_st [OF assms(1)])
  next
    case (jobReferOrStoreBlock f i count data ds status)
    obtain p s where p: "getBlockById i (st w) = (p, s)" by fastforce
    show ?thesis
    proof (cases p)
      case None
      then have "wgood (w\<lparr>st := s\<rparr>)" using good_getBlockById [OF g p] assms(1) by simp
      then show ?thesis using assms(3) jobReferOrStoreBlock p None out [OF wgood_run_StoreBlock] by (auto simp: run_job_def)
    next
      case (Some a)
      then have "found a (st w) s" using found_getBlockById [OF g] p by simp
      then show ?thesis using assms(3) jobReferOrStoreBlock p Some
        by (auto simp: run_job_def intro!: okE_bind [OF found_addRefCount] out wgood_setBlock_some [OF assms(1)])
    qed
  next
    case (jobUpdateBlockIdRefCount i count)
    obtain p s where p: "getBlockById i (st w) = (p, s)" by fastforce
    show ?thesis
    proof (cases p)
      case (Some a)
      have f: "good {a} {} (st w) s" "a < next_addr s" using good_getBlockById [OF g p] Some by auto
      have "okE (good {} {} (st w)) (addRefCount E a count s)"
        using f assms(2) jobUpdateBlockIdRefCount by (intro good_addRefCount) (auto simp: job_ok_def)
      then show ?thesis using assms(3) jobUpdateBlockIdRefCount p Some st by (auto simp: run_job_def)
    qed (use assms(3) jobUpdateBlockIdRefCount p in \<open>auto simp: run_job_def intro: okE_Inl\<close>)
  next
    case (jobUpdateBlockIdStorageRefCount i count)
    obtain p s where p: "getBlockById i (st w) = (p, s)" by fastforce
    show ?thesis
    proof (cases p)
      case (Some a)
      have f: "good {a} {} (st w) s" "a < next_addr s" using good_getBlockById [OF g p] Some by auto
      then show ?thesis using assms(3) jobUpdateBlockIdStorageRefCount p Some st [OF good_addStorageRefCount] by (auto simp: run_job_def)
    qed (use assms(3) jobUpdateBlockIdStorageRefCount p in \<open>auto simp: run_job_def intro: okE_Inl\<close>)
  next
    case (jobStoreBlock f i count data ds status)
    then show ?thesis using assms(3) out [OF wgood_run_StoreBlock [OF assms(1)]] by (auto simp: run_job_def)
  next
    case jobQuit
    then show ?thesis using assms(1,3) by (auto simp: run_job_def wgood_def intro!: okE_Inr)
  qed
qed

section \<open>Reachable worlds\<close>

definition initial_world :: "codec option \<Rightarrow> backend \<Rightarrow> 'r \<Rightarrow> 'r world" where
  "initial_world cd be r = \<lparr>st = Storage_Init cd be r, futures = (\<lambda>_. None), sbs = [], queue = [], running = True\<rparr>"

text \<open>One step: a call by a user that does not panic, in any order, or the next job.\<close>

inductive wstep :: "('n, 'r) storage_env \<Rightarrow> 'r world \<Rightarrow> 'r world \<Rightarrow> bool" for E where
  flush: "wstep E w (Storage_Flush w)"
| get: "wstep E w (snd (Storage_GetBlockById i w))"
| get_name: "wstep E w (Storage_GetBlockIdByName name w)"
| refer_or_store: "wstep E w (snd (Storage_ReferOrStoreBlock i status data w))"
| refer_or_store0: "wstep E w (snd (Storage_ReferOrStoreBlock0 i status data ds w))"
| store: "wstep E w (snd (Storage_StoreBlock i status data w))"
| store0: "wstep E w (snd (Storage_StoreBlock0 i status data w))"
| refer: "wstep E w (ReferBlockId i w)"
| release: "wstep E w (ReleaseBlockId i w)"
| refer_storage: "wstep E w (ReferStorageBlockId i w)"
| release_storage: "wstep E w (ReleaseStorageBlockId i w)"
| set_name: "wstep E w (Storage_SetNameToBlockId name i w)"
| close_storage: "wstep E w (Storage_Close w)"
| open_handle: "h < length (sbs w) \<Longrightarrow> StorageBlock_Open h w = Some (Inr (h', w')) \<Longrightarrow> wstep E w w'"
| close_handle: "h < length (sbs w) \<Longrightarrow> StorageBlock_Close h w = Some (Inr w') \<Longrightarrow> wstep E w w'"
| data: "h < length (sbs w) \<Longrightarrow> StorageBlock_Data E h w = Some (Inr (d, w')) \<Longrightarrow> wstep E w w'"
| set_status: "h < length (sbs w) \<Longrightarrow> StorageBlock_SetStatus h status w = Some (Inr w') \<Longrightarrow> wstep E w w'"
| references: "h < length (sbs w) \<Longrightarrow> StorageBlock_IterateReferences E h w = Some (Inr (ids, w')) \<Longrightarrow> wstep E w w'"
| serve: "running w \<Longrightarrow> queue w = j # js \<Longrightarrow> run_job E \<sigma> j (w\<lparr>queue := js\<rparr>) = Some (Inr (out, w')) \<Longrightarrow> wstep E w w'"

inductive reachable :: "('n, 'r) storage_env \<Rightarrow> backend \<Rightarrow> 'r world \<Rightarrow> bool" for E be where
  init: "reachable E be (initial_world cd be r)"
| step: "reachable E be w \<Longrightarrow> wstep E w w' \<Longrightarrow> reachable E be w'"

definition winv :: "'r world \<Rightarrow> bool" where
  "winv w \<longleftrightarrow> wgood w \<and> (\<forall>j \<in> set (queue w). job_ok j)"

lemma winv_enqueue: "winv w \<Longrightarrow> job_ok j \<Longrightarrow> winv (enqueue j w)"
  by (auto simp: winv_def wgood_def enqueue_def)

lemma winv_new: "winv w \<Longrightarrow> newStorageBlock i w = (h, w') \<Longrightarrow> winv w'"
  by (auto simp: winv_def wgood_def newStorageBlock_def split: if_splits)

lemma winv_store: "winv w \<Longrightarrow> (\<And>f. job_ok (jt f i count data ds status)) \<Longrightarrow> winv (snd (storeBlockInternal jt i status data ds count w))"
  by (auto simp: storeBlockInternal_def split: prod.split intro: winv_enqueue winv_new)

lemma run_job_queue: "run_job E \<sigma> j w = Some (Inr (out, w')) \<Longrightarrow> queue w' = queue w"
  by (cases j) (auto simp: run_job_def setBlock_def run_StoreBlock_def Let_def res_simps split: prod.splits option.splits)

text \<open>A handle's block, with the storage as the operation on it leaves it.\<close>

lemma sb_block_addr: "wgood w \<Longrightarrow> sb_block h w = Some (Inr a) \<Longrightarrow> a < next_addr (st w)"
  by (auto simp: sb_block_def wgood_def res_simps)

lemma winv_handle:
  assumes "winv w" "okE (\<lambda>(x, s). good {} {} (st w) s) m" "m = Inr (x, s)"
  shows "winv (w\<lparr>st := s\<rparr>)"
  using wgood_st [of w s] assms okE_D [OF assms(2,3)] by (simp add: winv_def)

lemma winv_sbs: "winv w \<Longrightarrow> winv (w\<lparr>sbs := x\<rparr>)"
  by (simp add: winv_def wgood_def)

lemma wgood_running: "wgood w \<Longrightarrow> wgood (w\<lparr>queue := js\<rparr>)"
  by (simp add: wgood_def)

lemma winv_step:
  assumes "winv w" "wstep E w w'"
  shows "winv w'"
proof -
  have g: "good {} {} (st w) (st w)" using assms(1) by (simp add: winv_def wgood_def good_refl)
  from assms(2) show ?thesis
  proof cases
    case (open_handle h h')
    then obtain a nv s where "addExternalStorageRefCount a 1 (st w) = Inr (nv, s)" "\<exists>x. w' = (w\<lparr>st := s\<rparr>)\<lparr>sbs := x\<rparr>"
      by (auto simp: StorageBlock_Open_def Let_def res_simps split: sum.splits)
    then show ?thesis using winv_handle [OF assms(1) good_addExternal [OF g]] winv_sbs by blast
  next
    case (close_handle h)
    then obtain a nv s x where "addExternalStorageRefCount a (-1) (st w) = Inr (nv, s)"
        "w' = (w\<lparr>st := s\<rparr>)\<lparr>sbs := x\<rparr> \<or> w' = ReleaseStorageBlockId (sb_id (sbs w ! h)) ((w\<lparr>st := s\<rparr>)\<lparr>sbs := x\<rparr>)"
      by (auto simp: StorageBlock_Close_def Let_def res_simps split: sum.splits if_splits)
    moreover from this(1) have "winv ((w\<lparr>st := s\<rparr>)\<lparr>sbs := x\<rparr>)" by (intro winv_sbs winv_handle [OF assms(1) good_addExternal [OF g]])
    ultimately show ?thesis using winv_enqueue [of "(w\<lparr>st := s\<rparr>)\<lparr>sbs := x\<rparr>" "jobUpdateBlockIdStorageRefCount (sb_id (sbs w ! h)) (-1)"]
      by (auto simp: ReleaseStorageBlockId_def job_ok_def)
  next
    case (data h d)
    then obtain a s where "Block_GetData E a (st w) = Inr (d, s)" "w' = w\<lparr>st := s\<rparr>"
      by (auto simp: StorageBlock_Data_def res_simps split: if_splits)
    then show ?thesis using winv_handle [OF assms(1) good_GetData [OF g]] by blast
  next
    case (references h ids)
    then obtain a s where "iterateReferences E a (st w) = Inr (ids, s)" "w' = w\<lparr>st := s\<rparr>"
      by (auto simp: StorageBlock_IterateReferences_def res_simps)
    then show ?thesis using winv_handle [OF assms(1) good_iterateReferences [OF g]] by blast
  next
    case (set_status h status)
    then have "w' = setStorageBlockStatus h status w" by (auto simp: StorageBlock_SetStatus_def res_simps split: if_splits)
    then show ?thesis using winv_enqueue [OF assms(1)] by (simp add: setStorageBlockStatus_def job_ok_def)
  next
    case (serve j js \<sigma> out)
    have "wgood (w\<lparr>queue := js\<rparr>)" "job_ok j" using assms(1) serve(2) by (auto simp: winv_def wgood_running)
    from okE_D [OF wgood_run_job [OF this serve(3)] refl] have "wgood w'" by simp
    moreover have "queue w' = js" using run_job_queue [OF serve(3)] by simp
    ultimately show ?thesis using assms(1) serve(2) by (simp add: winv_def)
  qed (auto intro!: winv_enqueue winv_store assms(1) dest: winv_new [OF assms(1)]
      simp: Storage_Flush_def Storage_GetBlockById_def Storage_GetBlockIdByName_def Storage_ReferOrStoreBlock_def
        Storage_ReferOrStoreBlock0_def Storage_StoreBlock_def Storage_StoreBlock0_def ReferBlockId_def ReleaseBlockId_def
        ReferStorageBlockId_def ReleaseStorageBlockId_def Storage_SetNameToBlockId_def Storage_Close_def job_ok_def split: prod.split)
qed

lemma winv_initial:
  assumes "be_wf be"
  shows "winv (initial_world cd be r)"
proof -
  have "be_wf (proxyBackend be)" if "be_wf be" for be using that by (auto simp: be_wf_def split: option.splits)
  then have "be_wf (fst (Storage_backends cd be))"
    using assms by (cases cd) (simp_all add: Storage_backends_def codecBackend_SetBackend_def mapRunnerBackend_SetBackend_def
        proxyBackend_SetBackend_def)
  then show ?thesis by (simp add: winv_def wgood_def cinv_def initial_world_def Storage_Init_def)
qed

lemma winv_reachable: "reachable E be w \<Longrightarrow> be_wf be \<Longrightarrow> winv w"
  by (induction rule: reachable.induct) (auto intro: winv_initial winv_step)

section \<open>Properties\<close>

text \<open>C21: Start with a backend that gives each block it has its own id and a reference count that
  is not negative and below \<^verbatim>\<open>2^31\<close>. In every world that the users' calls and the served jobs
  reach from there, in any order and with any order of the flush loops, each cached block sits
  under its own id; the three reference counts of every block are not negative and below
  \<^verbatim>\<open>2^31\<close>; the dirty blocks are exactly those that remember stored metadata; and a cached block
  without references waits to be dropped.\<close>

theorem storage_cache_invariant:
  assumes "reachable E be w" "be_wf be"
  shows "(\<forall>(i, a) \<in> set (blocks (st w)). Id (heap (st w) a) = i \<and>
      (storageRefCount (heap (st w) a) = 0 \<longrightarrow> a \<in> set (dirtyStorageRefBlocks (st w)))) \<and>
    (\<forall>a < next_addr (st w). 0 \<le> storageRefCount (heap (st w) a) \<and> storageRefCount (heap (st w) a) < 2 ^ 31 \<and>
      0 \<le> RefCount (meta (heap (st w) a)) \<and> RefCount (meta (heap (st w) a)) < 2 ^ 31 \<and>
      0 \<le> externalStorageRefCount (heap (st w) a) \<and> externalStorageRefCount (heap (st w) a) < 2 ^ 31 \<and>
      (a \<in> set (dirtyBlocks (st w)) \<longleftrightarrow> Stored (heap (st w) a) \<noteq> None))"
proof -
  have c: "cinv {} {} (st w)" using winv_reachable [OF assms] by (simp add: winv_def wgood_def)
  show ?thesis
  proof (intro conjI ballI allI impI, clarify)
    fix i a assume "(i, a) \<in> set (blocks (st w))"
    from cinvD(3,6) [OF c this] show "Id (heap (st w) a) = i \<and> (storageRefCount (heap (st w) a) = 0 \<longrightarrow> a \<in> set (dirtyStorageRefBlocks (st w)))"
      by auto
  next
    fix a assume "a < next_addr (st w)"
    from cinvD(4) [OF c this] show "0 \<le> storageRefCount (heap (st w) a)" "storageRefCount (heap (st w) a) < 2 ^ 31"
        "0 \<le> blk_RefCount (heap (st w) a)" "blk_RefCount (heap (st w) a) < 2 ^ 31"
        "0 \<le> externalStorageRefCount (heap (st w) a)" "externalStorageRefCount (heap (st w) a) < 2 ^ 31" "a \<in> set (dirtyBlocks (st w)) \<longleftrightarrow> Stored (heap (st w) a) \<noteq> None"
      unfolding counts_ok_def by blast+
  qed
qed

definition demo_senv :: "(gostring option, unit) storage_env" where
  "demo_senv = \<lparr>cenv = demo_env, IterateReferencesCallback = None\<rparr>"

definition demo_start :: "unit world" where
  "demo_start = initial_world None (InMemory NewInMemoryBackend) ()"

definition demo_sched :: schedule where
  "demo_sched = \<lparr>name_order = [], picks = (\<lambda>_. None)\<rparr>"

text \<open>A block is stored, and the job served.\<close>

definition demo_stored :: "unit world" where
  "demo_stored =
     (case run_job demo_senv demo_sched (jobStoreBlock 0 [7] 1 [5] None BS_NORMAL) ((snd (Storage_StoreBlock [7] BS_NORMAL [5] demo_start))\<lparr>queue := []\<rparr>) of
        Some (Inr (out, w)) \<Rightarrow> w
      | _ \<Rightarrow> demo_start)"

lemma demo_be_wf: "be_wf (InMemory NewInMemoryBackend)"
  by (simp add: be_wf_def NewInMemoryBackend_def im_GetBlockById_def)

lemma demo_run:
  "run_job demo_senv demo_sched (jobStoreBlock 0 [7] 1 [5] None BS_NORMAL) ((snd (Storage_StoreBlock [7] BS_NORMAL [5] demo_start))\<lparr>queue := []\<rparr>) =
     Some (Inr (NoOut, demo_stored))"
proof -
  have "case run_job demo_senv demo_sched (jobStoreBlock 0 [7] 1 [5] None BS_NORMAL) ((snd (Storage_StoreBlock [7] BS_NORMAL [5] demo_start))\<lparr>queue := []\<rparr>) of
      Some (Inr (out, w)) \<Rightarrow> out = NoOut | _ \<Rightarrow> False"
    by code_simp
  then show ?thesis by (auto simp: demo_stored_def split: option.splits sum.splits)
qed

lemma demo_reachable: "reachable demo_senv (InMemory NewInMemoryBackend) demo_stored"
proof -
  let ?w = "snd (Storage_StoreBlock [7] BS_NORMAL [5] demo_start)"
  have "reachable demo_senv (InMemory NewInMemoryBackend) ?w"
    unfolding demo_start_def by (rule reachable.step [OF reachable.init wstep.store])
  moreover have "running ?w" "queue ?w = jobStoreBlock 0 [7] 1 [5] None BS_NORMAL # []"
    by (simp_all add: Storage_StoreBlock_def storeBlockInternal_def newStorageBlock_def enqueue_def demo_start_def initial_world_def)
  ultimately show ?thesis by (blast intro: reachable.step wstep.serve [OF _ _ demo_run])
qed

theorem storage_cache_invariant_witness:
  "([7], 0) \<in> set (blocks (st demo_stored)) \<and> Id (heap (st demo_stored) 0) = [7] \<and> 0 \<le> storageRefCount (heap (st demo_stored) 0)"
proof -
  have *: "([7], 0) \<in> set (blocks (st demo_stored))" "0 < next_addr (st demo_stored)" by code_simp+
  note kept = storage_cache_invariant [OF demo_reachable demo_be_wf]
  from * show ?thesis using bspec [OF conjunct1 [OF kept] *(1)] conjunct2 [OF kept] by simp
qed

text \<open>C22: When the goroutine has served a flush, whatever the order of its loops, no block is dirty,
  no block waits to be dropped, and every block in the cache has a reference.\<close>

theorem flush_leaves_nothing:
  assumes "reachable E be w" "be_wf be" "queue w = jobFlush # js"
    "run_job E \<sigma> jobFlush (w\<lparr>queue := js\<rparr>) = Some (Inr (out, w'))"
  shows "dirtyBlocks (st w') = [] \<and> dirtyStorageRefBlocks (st w') = [] \<and>
    (\<forall>(i, a) \<in> set (blocks (st w')). 0 < storageRefCount (heap (st w') a) \<and> Stored (heap (st w') a) = None)"
proof -
  have c: "cinv {} {} (st w)" using winv_reachable [OF assms(1,2)] by (simp add: winv_def wgood_def)
  obtain n where "Storage_flush E \<sigma> (st w) = Some (Inr (n, st w'))" using assms(4) by (auto simp: run_job_def bindO_eq_Some)
  then have f: "cinv {} {} (st w')" "dirtyBlocks (st w') = []" "dirtyStorageRefBlocks (st w') = []"
    using good_Storage_flush [OF c] good_cinv by blast+
  have "0 < storageRefCount (heap (st w') a) \<and> Stored (heap (st w') a) = None" if "(i, a) \<in> set (blocks (st w'))" for i a
  proof -
    have "counts_ok (heap (st w') a)" "Stored (heap (st w') a) = None" "storageRefCount (heap (st w') a) \<noteq> 0"
      using cinvD(3,6) [OF f(1) that] cinvD(4) [OF f(1), of a] f(2,3) by auto
    then show ?thesis by (simp add: counts_ok_def)
  qed
  then show ?thesis using f by blast
qed

text \<open>The stored block is flushed.\<close>

definition demo_flushed :: "unit world" where
  "demo_flushed =
     (case run_job demo_senv demo_sched jobFlush ((Storage_Flush demo_stored)\<lparr>queue := []\<rparr>) of
        Some (Inr (out, w)) \<Rightarrow> w
      | _ \<Rightarrow> demo_start)"

text \<open>The two loops, unfolded as often as they turn here: the block is written, and keeps the
  reference of its handle.\<close>

lemma demo_flush_run: "run_job demo_senv demo_sched jobFlush ((Storage_Flush demo_stored)\<lparr>queue := []\<rparr>) = Some (Inr (OutNil, demo_flushed))"
proof -
  let ?s = "(st demo_stored)\<lparr>counters := (\<lambda>_. 0)\<rparr>"
  have "case flushBlockNames demo_senv demo_sched ?s of Inl e \<Rightarrow> False | Inr (n, s1) \<Rightarrow> n = 0 \<and> dirtyBlocks s1 = [0] \<and> blk_RefCount (heap s1 0) \<noteq> 0 \<and>
      (case Block_flush demo_senv 0 s1 of Inl e \<Rightarrow> False | Inr (m, s2) \<Rightarrow> m = 1 \<and> dirtyBlocks s2 = [] \<and> dirtyStorageRefBlocks s2 = [0] \<and>
        storageRefCount (heap s2 0) \<noteq> 0 \<and>
        (case flushStorageRef demo_senv 0 s2 of Inl e \<Rightarrow> False | Inr (l, s3) \<Rightarrow> l = 0 \<and> dirtyStorageRefBlocks s3 = []))"
    by code_simp
  then obtain s1 where s1: "flushBlockNames demo_senv demo_sched ?s = Inr (0, s1)" "dirtyBlocks s1 = [0]" "blk_RefCount (heap s1 0) \<noteq> 0"
      "case Block_flush demo_senv 0 s1 of Inl e \<Rightarrow> False | Inr (m, s2) \<Rightarrow> m = 1 \<and> dirtyBlocks s2 = [] \<and> dirtyStorageRefBlocks s2 = [0] \<and>
        storageRefCount (heap s2 0) \<noteq> 0 \<and>
        (case flushStorageRef demo_senv 0 s2 of Inl e \<Rightarrow> False | Inr (l, s3) \<Rightarrow> l = 0 \<and> dirtyStorageRefBlocks s3 = [])"
    by (cases "flushBlockNames demo_senv demo_sched ?s") (simp, case_tac b, simp)
  from s1(4) obtain s2 where s2: "Block_flush demo_senv 0 s1 = Inr (1, s2)" "dirtyBlocks s2 = []" "dirtyStorageRefBlocks s2 = [0]"
      "storageRefCount (heap s2 0) \<noteq> 0"
      "case flushStorageRef demo_senv 0 s2 of Inl e \<Rightarrow> False | Inr (l, s3) \<Rightarrow> l = 0 \<and> dirtyStorageRefBlocks s3 = []"
    by (cases "Block_flush demo_senv 0 s1") (simp, case_tac b, simp)
  from s2(5) obtain s3 where s3: "flushStorageRef demo_senv 0 s2 = Inr (0, s3)" "dirtyStorageRefBlocks s3 = []"
    by (cases "flushStorageRef demo_senv 0 s2") (simp, case_tac b, simp)
  have next1: "next_entry (picks demo_sched k) [0] [] [0] = Some 0" for k by (simp add: next_entry_def demo_sched_def)
  have stop: "range_loop (picks demo_sched) sel body k [] [] n s = Some (Inr (k, n, s))" if "sel s = []" for sel body k n s
    by (subst range_loop.simps) (simp add: that next_entry_def)
  have fin: "flush_rounds (picks demo_sched) sel cnt fl k n s = Some (Inr (k, n, s))" if "sel s = []" for sel cnt fl k n s
    by (subst flush_rounds.simps) (simp add: that)
  have turn: "range_loop (picks demo_sched) sel (count_turn cnt fl True) k [0] [] n s = Some (Inr (Suc k, n + m, s'))"
    if "sel s = [0]" "cnt (heap s 0) \<noteq> 0" "fl 0 s = Inr (m, s')" "sel s' = []" for sel cnt fl k n s m s'
    by (subst range_loop.simps) (simp add: that next1 count_turn_def stop)
  have "flush_rounds (picks demo_sched) dirtyBlocks blk_RefCount (Block_flush demo_senv) 0 0 s1 = Some (Inr (1, 1, s2))"
    by (subst flush_rounds.simps) (simp add: s1(2) turn [of dirtyBlocks s1 blk_RefCount "Block_flush demo_senv", OF s1(2,3) s2(1,2)] fin [of dirtyBlocks, OF s2(2)])
  moreover have "flush_rounds (picks demo_sched) dirtyStorageRefBlocks storageRefCount (flushStorageRef demo_senv) 1 1 s2 = Some (Inr (2, 1, s3))"
    by (subst flush_rounds.simps)
      (simp add: s2(3) turn [of dirtyStorageRefBlocks s2 storageRefCount "flushStorageRef demo_senv", OF s2(3,4) s3(1,2)] stop [of dirtyStorageRefBlocks, OF s3(2)] fin [of dirtyStorageRefBlocks, OF s3(2)] s3(2) numeral_2_eq_2)
  ultimately have "Storage_flush demo_senv demo_sched (st demo_stored) = Some (Inr (1, s3))"
    by (simp add: Storage_flush_def s1(1))
  then show ?thesis by (simp add: demo_flushed_def run_job_def Storage_Flush_def enqueue_def)
qed

theorem flush_leaves_nothing_witness: "dirtyBlocks (st demo_flushed) = [] \<and> dirtyStorageRefBlocks (st demo_flushed) = []"
proof -
  have "reachable demo_senv (InMemory NewInMemoryBackend) (Storage_Flush demo_stored)"
    by (rule reachable.step [OF demo_reachable wstep.flush])
  moreover have "queue (Storage_Flush demo_stored) = jobFlush # []"
    using run_job_queue [OF demo_run] by (simp add: Storage_Flush_def enqueue_def)
  ultimately show ?thesis using flush_leaves_nothing [OF _ demo_be_wf _ demo_flush_run] by blast
qed

text \<open>C23: Removing a name and then setting it again panics: the removal notes a reference to the
  block with the empty id, which the next call looks up and does not find.\<close>

theorem name_removed_then_set_panics:
  assumes "setNameToBlockId name [] s = Inr s'" "map_of (blocks s') [] = None" "GetBlockById [] (Backend s') = None"
    "map_of (blocks s') i = Some a" "i \<noteq> []" "addStorageRefCount a 1 s' = Inr s2"
  shows "setNameToBlockId name i s' = Inl NilPointer"
proof -
  obtain v where v: "map_of (names s') name = Some v" "newValue v = []" "gotStorageRef v"
    using assms(1) by (auto simp: setNameToBlockId_def res_simps update_conv' split: prod.splits)
  have "blocks s2 = blocks s'" "Backend s2 = Backend s'"
    using assms(6) by (auto simp: addStorageRefCount_def Let_def split: if_splits)
  then show ?thesis
    using v assms by (simp add: setNameToBlockId_def getName_def on_block_def getBlockById_def)
qed

theorem name_removed_then_set_panics_witness:
  "(case setNameToBlockId [1] [] (st demo_stored) of Inl e \<Rightarrow> False
    | Inr s' \<Rightarrow> setNameToBlockId [1] [7] s' = Inl NilPointer)"
proof -
  have "case setNameToBlockId [1] [] (st demo_stored) of Inl e \<Rightarrow> False
     | Inr s' \<Rightarrow> map_of (blocks s') [] = None \<and> GetBlockById [] (Backend s') = None \<and> map_of (blocks s') [7] = Some 0 \<and>
         \<not> isl (addStorageRefCount 0 1 s')"
    by code_simp
  then obtain s' s2 where "setNameToBlockId [1] [] (st demo_stored) = Inr s'" "addStorageRefCount 0 1 s' = Inr s2"
      "map_of (blocks s') [] = None" "GetBlockById [] (Backend s') = None" "map_of (blocks s') [7] = Some 0"
    by (auto split: sum.splits simp: isl_def) (metis old.sum.exhaust)
  then show ?thesis using name_removed_then_set_panics [of "[1]" "st demo_stored" s' "[7]" 0 s2] by simp
qed

end
