(* ===== verification/TreeMsg.thy ===== *)
theory TreeMsg
  imports StName
begin

text \<open>
  The data structures of the tree backend (src/storage/tree/tree\_greenpack.go), their generated
  serialisation (tree\_greenpack\_gen.go), and the keys and block ids that locations are packed
  into (locationentry.go, locationslice.go). Offsets and sizes are 64-bit words.
\<close>

section \<open>Types\<close>

record locationEntry =
  Offset :: "64 word"
  Size :: "64 word"

type_synonym locationSlice = "locationEntry list"

record blockData =
  bd_meta :: blockMetadata
  bd_Location :: locationSlice

record opEntry =
  op_Location :: locationEntry
  Free :: bool

type_synonym opSlice = "opEntry list"

record superblock =
  Generation :: "64 word"
  BytesUsed :: "64 word"
  BytesTotal :: "64 word"
  RootLocation :: locationSlice
  Pending :: opSlice
  PendingLocation :: locationSlice

section \<open>Serialisation\<close>

definition LocationEntry_MarshalMsg :: "'n msgp_lib \<Rightarrow> locationEntry \<Rightarrow> gostring \<Rightarrow> gostring" where
  "LocationEntry_MarshalMsg L z b =
     (let b = b @ [0x92];
          b = AppendUint64 L b (Offset z)
      in AppendUint64 L b (Size z))"

text \<open>The body of the reader, which the generated code repeats for each field of this type.\<close>

definition LocationEntry_body :: "'n msgp_lib \<Rightarrow> ('n, locationEntry) rd" where
  "LocationEntry_body L =
     rbind (expect_array L 2) (\<lambda>_.
     rbind (ReadUint64Bytes L) (\<lambda>ofs.
     rbind (ReadUint64Bytes L) (\<lambda>sz.
     rret \<lparr>Offset = ofs, Size = sz\<rparr>)))"

definition LocationEntry_UnmarshalMsg :: "'n msgp_lib \<Rightarrow> gostring \<Rightarrow> msg_err + locationEntry \<times> gostring" where
  "LocationEntry_UnmarshalMsg L bts = unmarshal_top L (LocationEntry_body L) bts"

definition LocationEntry_Msgsize :: "msgp_sizes \<Rightarrow> int" where
  "LocationEntry_Msgsize sz = 1 + Uint64Size sz + Uint64Size sz"

text \<open>The loop over the entries, which the generated code repeats for each field of this type.\<close>

definition append_locations :: "'n msgp_lib \<Rightarrow> gostring \<Rightarrow> locationSlice \<Rightarrow> gostring" where
  "append_locations L b z =
     foldl (\<lambda>b le. let b = b @ [0x92]; b = AppendUint64 L b (Offset le) in AppendUint64 L b (Size le)) b z"

definition LocationSlice_MarshalMsg :: "'n msgp_lib \<Rightarrow> locationSlice \<Rightarrow> gostring \<Rightarrow> gostring" where
  "LocationSlice_MarshalMsg L z b =
     (let b = AppendArrayHeader L b (len32 z)
      in append_locations L b z)"

definition LocationSlice_UnmarshalMsg :: "'n msgp_lib \<Rightarrow> gostring \<Rightarrow> msg_err + locationSlice \<times> gostring" where
  "LocationSlice_UnmarshalMsg L bts = unmarshal_top L (read_slice L (LocationEntry_body L)) bts"

definition LocationSlice_Msgsize :: "msgp_sizes \<Rightarrow> locationSlice \<Rightarrow> int" where
  "LocationSlice_Msgsize sz z = ArrayHeaderSize sz + int (length z) * (33 + Uint64Size sz + Uint64Size sz)"

definition BlockData_MarshalMsg :: "'n msgp_lib \<Rightarrow> blockData \<Rightarrow> gostring \<Rightarrow> gostring" where
  "BlockData_MarshalMsg L z b =
     (let b = b @ [0x92];
          b = BlockMetadata_MarshalMsg L (bd_meta z) b;
          b = AppendArrayHeader L b (len32 (bd_Location z))
      in append_locations L b (bd_Location z))"

definition BlockData_UnmarshalMsg :: "'n msgp_lib \<Rightarrow> gostring \<Rightarrow> msg_err + blockData \<times> gostring" where
  "BlockData_UnmarshalMsg L bts =
     unmarshal_top L
       (rbind (expect_array L 2) (\<lambda>_.
        rbind (nested (BlockMetadata_UnmarshalMsg L)) (\<lambda>m.
        rbind (read_slice L (LocationEntry_body L)) (\<lambda>ls.
        rret \<lparr>bd_meta = m, bd_Location = ls\<rparr>)))) bts"

definition BlockData_Msgsize :: "msgp_sizes \<Rightarrow> blockData \<Rightarrow> int" where
  "BlockData_Msgsize sz z =
     1 + BlockMetadata_Msgsize sz + ArrayHeaderSize sz + int (length (bd_Location z)) * (33 + Uint64Size sz + Uint64Size sz)"

definition OpEntry_MarshalMsg :: "'n msgp_lib \<Rightarrow> opEntry \<Rightarrow> gostring \<Rightarrow> gostring" where
  "OpEntry_MarshalMsg L z b =
     (let b = b @ [0x92, 0x92];
          b = AppendUint64 L b (Offset (op_Location z));
          b = AppendUint64 L b (Size (op_Location z))
      in AppendBool L b (Free z))"

definition OpEntry_UnmarshalMsg :: "'n msgp_lib \<Rightarrow> gostring \<Rightarrow> msg_err + opEntry \<times> gostring" where
  "OpEntry_UnmarshalMsg L bts =
     unmarshal_top L
       (rbind (expect_array L 2) (\<lambda>_.
        rbind (LocationEntry_body L) (\<lambda>le.
        rbind (ReadBoolBytes L) (\<lambda>f.
        rret \<lparr>op_Location = le, Free = f\<rparr>)))) bts"

definition OpEntry_Msgsize :: "msgp_sizes \<Rightarrow> int" where
  "OpEntry_Msgsize sz = 1 + 1 + Uint64Size sz + Uint64Size sz + BoolSize sz"

definition OpSlice_MarshalMsg :: "'n msgp_lib \<Rightarrow> opSlice \<Rightarrow> gostring \<Rightarrow> gostring" where
  "OpSlice_MarshalMsg L z b =
     (let b = AppendArrayHeader L b (len32 z)
      in foldl (\<lambda>b e. OpEntry_MarshalMsg L e b) b z)"

definition OpSlice_UnmarshalMsg :: "'n msgp_lib \<Rightarrow> gostring \<Rightarrow> msg_err + opSlice \<times> gostring" where
  "OpSlice_UnmarshalMsg L bts = unmarshal_top L (read_slice L (nested (OpEntry_UnmarshalMsg L))) bts"

definition OpSlice_Msgsize :: "msgp_sizes \<Rightarrow> opSlice \<Rightarrow> int" where
  "OpSlice_Msgsize sz z = foldl (\<lambda>s e. s + OpEntry_Msgsize sz) (ArrayHeaderSize sz) z"

definition Superblock_MarshalMsg :: "'n msgp_lib \<Rightarrow> superblock \<Rightarrow> gostring \<Rightarrow> gostring" where
  "Superblock_MarshalMsg L z b =
     (let b = b @ [0x96];
          b = AppendUint64 L b (Generation z);
          b = AppendUint64 L b (BytesUsed z);
          b = AppendUint64 L b (BytesTotal z);
          b = AppendArrayHeader L b (len32 (RootLocation z));
          b = append_locations L b (RootLocation z);
          b = AppendArrayHeader L b (len32 (Pending z));
          b = foldl (\<lambda>b e. OpEntry_MarshalMsg L e b) b (Pending z);
          b = AppendArrayHeader L b (len32 (PendingLocation z))
      in append_locations L b (PendingLocation z))"

definition Superblock_UnmarshalMsg :: "'n msgp_lib \<Rightarrow> gostring \<Rightarrow> msg_err + superblock \<times> gostring" where
  "Superblock_UnmarshalMsg L bts =
     unmarshal_top L
       (rbind (expect_array L 6) (\<lambda>_.
        rbind (ReadUint64Bytes L) (\<lambda>g.
        rbind (ReadUint64Bytes L) (\<lambda>u.
        rbind (ReadUint64Bytes L) (\<lambda>t.
        rbind (read_slice L (LocationEntry_body L)) (\<lambda>root.
        rbind (read_slice L (nested (OpEntry_UnmarshalMsg L))) (\<lambda>pd.
        rbind (read_slice L (LocationEntry_body L)) (\<lambda>pl.
        rret \<lparr>Generation = g, BytesUsed = u, BytesTotal = t, RootLocation = root, Pending = pd, PendingLocation = pl\<rparr>)))))))) bts"

definition Superblock_Msgsize :: "msgp_sizes \<Rightarrow> superblock \<Rightarrow> int" where
  "Superblock_Msgsize sz z =
     (let s = 1 + Uint64Size sz + Uint64Size sz + Uint64Size sz + ArrayHeaderSize sz +
              int (length (RootLocation z)) * (33 + Uint64Size sz + Uint64Size sz) + ArrayHeaderSize sz;
          s = foldl (\<lambda>s e. s + OpEntry_Msgsize sz) s (Pending z)
      in s + (ArrayHeaderSize sz + int (length (PendingLocation z)) * (33 + Uint64Size sz + Uint64Size sz)))"

section \<open>Keys and block ids\<close>

definition blockSize :: "64 word" where "blockSize = 512"

text \<open>Sizes are rounded up to whole blocks; the sum wraps near the top of the range.\<close>

definition BlockSize :: "locationEntry \<Rightarrow> 64 word" where
  "BlockSize le = (let s = Size le in if s mod blockSize \<noteq> 0 then s + (blockSize - s mod blockSize) else s)"

definition ToKeySO :: "locationEntry \<Rightarrow> gostring" where
  "ToKeySO le = ConcatBytes [Uint64Bytes (BlockSize le), Uint64Bytes (Offset le)]"

definition ToKeyOS :: "locationEntry \<Rightarrow> gostring" where
  "ToKeyOS le = ConcatBytes [Uint64Bytes (Offset le), Uint64Bytes (BlockSize le)]"

definition NewLocationEntryFromKeySO :: "gostring \<Rightarrow> locationEntry res" where
  "NewLocationEntryFromKeySO b =
     bindE (BigEndian_Uint64 b) (\<lambda>s.
     bindE (slice_from b 8) (\<lambda>b8.
     bindE (BigEndian_Uint64 b8) (\<lambda>off. Inr \<lparr>Offset = off, Size = s\<rparr>)))"

definition locationEntryEncodedLength :: int where "locationEntryEncodedLength = 16"

definition ToBlockId :: "locationSlice \<Rightarrow> gostring res" where
  "ToBlockId ls =
     foldE (\<lambda>(ofs, le) b. copy_at b (int ofs * locationEntryEncodedLength) (take (nat locationEntryEncodedLength) (ToKeySO le)))
       (enumerate 0 ls) (replicate (length ls * nat locationEntryEncodedLength) 0)"

text \<open>The loop takes sixteen bytes at a time.\<close>

fun NewLocationSliceFromBlockId_loop :: "gostring \<Rightarrow> locationSlice res" where
  "NewLocationSliceFromBlockId_loop b =
     (if b = [] then Inr []
      else bindE (NewLocationEntryFromKeySO (take 16 b)) (\<lambda>le.
           bindE (NewLocationSliceFromBlockId_loop (drop 16 b)) (\<lambda>ls. Inr (le # ls))))"

declare NewLocationSliceFromBlockId_loop.simps [simp del]

definition NewLocationSliceFromBlockId :: "gostring \<Rightarrow> locationSlice res" where
  "NewLocationSliceFromBlockId bid =
     (if length bid mod 16 \<noteq> 0 then Inl (PanicMsg ''Invalid BlockId'')
      else NewLocationSliceFromBlockId_loop bid)"

section \<open>Round trips\<close>

definition location_enc :: "'n msgp_lib \<Rightarrow> locationEntry \<Rightarrow> gostring" where
  "location_enc L le = 0x92 # AppendUint64 L [] (Offset le) @ AppendUint64 L [] (Size le)"

definition op_enc :: "'n msgp_lib \<Rightarrow> opEntry \<Rightarrow> gostring" where
  "op_enc L e = 0x92 # location_enc L (op_Location e) @ AppendBool L [] (Free e)"

definition slice_enc :: "'n msgp_lib \<Rightarrow> ('a \<Rightarrow> gostring) \<Rightarrow> 'a list \<Rightarrow> gostring" where
  "slice_enc L enc xs = AppendArrayHeader L [] (len32 xs) @ concat (map enc xs)"

lemma location_loop:
  assumes "msgp_ok L" "b \<noteq> []"
  shows "append_locations L b ls = b @ concat (map (location_enc L) ls)"
  unfolding append_locations_def
  by (rule foldl_append) (simp_all add: assms location_enc_def msgp_append [OF assms(1)])

lemma op_loop:
  assumes "msgp_ok L" "b \<noteq> []"
  shows "foldl (\<lambda>b e. OpEntry_MarshalMsg L e b) b es = b @ concat (map (op_enc L) es)"
  by (rule foldl_append)
    (simp_all add: assms op_enc_def location_enc_def OpEntry_MarshalMsg_def msgp_append [OF assms(1)])

lemma LocationEntry_body_ok:
  assumes "msgp_ok L" "\<not> AlwaysNil L n"
  shows "LocationEntry_body L (n, location_enc L le @ r) = Inr (le, n, r)"
  using assms by (simp add: LocationEntry_body_def location_enc_def expect_array_ok msgp_read)

lemma OpEntry_ok: "msgp_ok L \<Longrightarrow> OpEntry_UnmarshalMsg L (op_enc L e @ r) = Inr (e, r)"
  unfolding OpEntry_UnmarshalMsg_def
  using msgp_nil(3) [of L]
  by (intro unmarshal_top_ok) (simp_all add: op_enc_def expect_array_ok LocationEntry_body_ok msgp_read)

lemma read_locations:
  assumes "msgp_ok L" "\<not> AlwaysNil L n" "short ls"
  shows "read_slice L (LocationEntry_body L) (n, slice_enc L (location_enc L) ls @ r) = Inr (ls, n, r)"
  using read_slice_ok [OF assms, of "LocationEntry_body L" "location_enc L" r] LocationEntry_body_ok [OF assms(1,2)]
  by (simp add: slice_enc_def)

lemma read_ops:
  assumes "msgp_ok L" "\<not> AlwaysNil L n" "short es"
  shows "read_slice L (nested (OpEntry_UnmarshalMsg L)) (n, slice_enc L (op_enc L) es @ r) = Inr (es, n, r)"
  using read_slice_ok [OF assms, of "nested (OpEntry_UnmarshalMsg L)" "op_enc L" r] OpEntry_ok [OF assms(1)]
  by (simp add: slice_enc_def nested_ok)

lemma header_not_nil: "msgp_ok L \<Longrightarrow> \<not> nil_byte (slice_enc L enc xs @ r)"
  using prim_okD(4) [OF msgp_prims(2), of L "len32 xs"] by (simp add: slice_enc_def)

lemma LocationSlice_MarshalMsg_eq: "msgp_ok L \<Longrightarrow> LocationSlice_MarshalMsg L ls [] = slice_enc L (location_enc L) ls"
  using prim_okD(3) [OF msgp_prims(2), of L "len32 ls"]
  by (simp add: LocationSlice_MarshalMsg_def slice_enc_def location_loop)

lemma OpSlice_MarshalMsg_eq: "msgp_ok L \<Longrightarrow> OpSlice_MarshalMsg L es [] = slice_enc L (op_enc L) es"
  using prim_okD(3) [OF msgp_prims(2), of L "len32 es"] by (simp add: OpSlice_MarshalMsg_def slice_enc_def op_loop)

lemma LocationSlice_roundtrip:
  "msgp_ok L \<Longrightarrow> short ls \<Longrightarrow> LocationSlice_UnmarshalMsg L (LocationSlice_MarshalMsg L ls [] @ r) = Inr (ls, r)"
  unfolding LocationSlice_UnmarshalMsg_def
  using msgp_nil(3) [of L] by (intro unmarshal_top_ok) (simp_all add: LocationSlice_MarshalMsg_eq read_locations header_not_nil)

lemma OpSlice_roundtrip: "msgp_ok L \<Longrightarrow> short es \<Longrightarrow> OpSlice_UnmarshalMsg L (OpSlice_MarshalMsg L es [] @ r) = Inr (es, r)"
  unfolding OpSlice_UnmarshalMsg_def
  using msgp_nil(3) [of L] by (intro unmarshal_top_ok) (simp_all add: OpSlice_MarshalMsg_eq read_ops header_not_nil)

lemma BlockMetadata_append: "msgp_ok L \<Longrightarrow> BlockMetadata_MarshalMsg L m b = b @ BlockMetadata_MarshalMsg L m []"
  by (simp add: BlockMetadata_MarshalMsg_def msgp_append)

lemma BlockMetadata_nonempty: "msgp_ok L \<Longrightarrow> BlockMetadata_MarshalMsg L m [] \<noteq> []"
  by (simp add: BlockMetadata_MarshalMsg_def msgp_append)

lemma BlockData_roundtrip:
  assumes "msgp_ok L" "short (bd_Location z)" "- (2 ^ 31) \<le> RefCount (bd_meta z)" "RefCount (bd_meta z) < 2 ^ 31"
  shows "BlockData_UnmarshalMsg L (BlockData_MarshalMsg L z [] @ r) = Inr (z, r)"
proof -
  have "BlockData_MarshalMsg L z [] @ r = 0x92 # BlockMetadata_MarshalMsg L (bd_meta z) [] @ slice_enc L (location_enc L) (bd_Location z) @ r"
    using assms(1) BlockMetadata_append [OF assms(1), of "bd_meta z" "[0x92]"]
    by (simp add: BlockData_MarshalMsg_def location_loop msgp_append slice_enc_def)
  then show ?thesis
    unfolding BlockData_UnmarshalMsg_def
    using msgp_nil(3) [OF assms(1)] BlockMetadata_roundtrip [OF assms(1,3,4)]
    by (intro unmarshal_top_ok [OF assms(1)]) (simp_all add: expect_array_ok assms(1,2) nested_ok read_locations)
qed

lemma Superblock_MarshalMsg_eq:
  assumes "msgp_ok L"
  shows "Superblock_MarshalMsg L z [] =
    0x96 # AppendUint64 L [] (Generation z) @ AppendUint64 L [] (BytesUsed z) @ AppendUint64 L [] (BytesTotal z) @
      slice_enc L (location_enc L) (RootLocation z) @ slice_enc L (op_enc L) (Pending z) @
      slice_enc L (location_enc L) (PendingLocation z)"
  by (simp add: Superblock_MarshalMsg_def location_loop op_loop msgp_append slice_enc_def assms)

lemma Superblock_roundtrip:
  assumes "msgp_ok L" "short (RootLocation z)" "short (Pending z)" "short (PendingLocation z)"
  shows "Superblock_UnmarshalMsg L (Superblock_MarshalMsg L z [] @ r) = Inr (z, r)"
  unfolding Superblock_UnmarshalMsg_def
  using msgp_nil(3) [OF assms(1)]
  by (intro unmarshal_top_ok [OF assms(1)])
    (simp_all add: Superblock_MarshalMsg_eq assms expect_array_ok msgp_read read_locations read_ops)

section \<open>Keys\<close>

lemma length_ToKeySO [simp]: "length (ToKeySO le) = 16"
  by (simp add: ToKeySO_def)

lemma NewLocationEntryFromKeySO_ToKeySO:
  "NewLocationEntryFromKeySO (ToKeySO le) = Inr \<lparr>Offset = Offset le, Size = BlockSize le\<rparr>"
  by (simp add: NewLocationEntryFromKeySO_def ToKeySO_def slice_from_def BigEndian_Uint64_def be_nat_Uint64Bytes)

text \<open>The order of the keys is the order of the sizes in blocks, then of the offsets.\<close>

lemma ToKeySO_less:
  "ToKeySO a < ToKeySO b \<longleftrightarrow> BlockSize a < BlockSize b \<or> BlockSize a = BlockSize b \<and> Offset a < Offset b"
  by (simp add: ToKeySO_def append_less_same_length Uint64Bytes_less_iff)

lemma ToKeyOS_inject: "ToKeyOS a = ToKeyOS b \<longleftrightarrow> Offset a = Offset b \<and> BlockSize a = BlockSize b"
  by (auto simp: ToKeyOS_def)

text \<open>The block id of a slice is the sequence of its keys.\<close>

lemma ToBlockId_loop:
  "length dst = (k + length ls) * 16 \<Longrightarrow>
   foldE (\<lambda>(ofs, le) b. copy_at b (int ofs * locationEntryEncodedLength) (take (nat locationEntryEncodedLength) (ToKeySO le)))
     (enumerate k ls) dst = Inr (take (k * 16) dst @ concat (map ToKeySO ls))"
proof (induction ls arbitrary: k dst)
  case (Cons le ls)
  let ?d = "take (k * 16) dst @ ToKeySO le @ drop (k * 16 + 16) dst"
  have "copy_at dst (int k * locationEntryEncodedLength) (take (nat locationEntryEncodedLength) (ToKeySO le)) = Inr ?d"
    using copy_at_fits [of dst "k * 16" "ToKeySO le" "length ls * 16" "int k * 16"] Cons.prems by (simp add: locationEntryEncodedLength_def)
  moreover have "length ?d = (Suc k + length ls) * 16" using Cons.prems by simp
  moreover have "take (Suc k * 16) ?d = take (k * 16) dst @ ToKeySO le" using Cons.prems by simp
  ultimately show ?case using Cons.IH [of ?d "Suc k"] by simp
qed simp

lemma ToBlockId_eq: "ToBlockId ls = Inr (concat (map ToKeySO ls))"
  using ToBlockId_loop [of _ 0 ls] by (simp add: ToBlockId_def locationEntryEncodedLength_def)

lemma length_keys: "length (concat (map ToKeySO ls)) = 16 * length ls"
  by (induction ls) simp_all

definition rounded :: "locationEntry \<Rightarrow> locationEntry" where
  "rounded le = le\<lparr>Size := BlockSize le\<rparr>"

lemma from_block_id_loop: "NewLocationSliceFromBlockId_loop (concat (map ToKeySO ls)) = Inr (map rounded ls)"
proof (induction ls)
  case (Cons le ls)
  have "ToKeySO le @ concat (map ToKeySO ls) \<noteq> []" using length_ToKeySO [of le] by force
  then show ?case
    using Cons NewLocationEntryFromKeySO_ToKeySO [of le]
    by (subst NewLocationSliceFromBlockId_loop.simps) (simp add: rounded_def)
qed (simp add: NewLocationSliceFromBlockId_loop.simps)

lemma from_block_id: "NewLocationSliceFromBlockId (concat (map ToKeySO ls)) = Inr (map rounded ls)"
  by (simp add: NewLocationSliceFromBlockId_def length_keys from_block_id_loop)

text \<open>Away from the top of the range, sizes are rounded up to the next multiple of the block size.\<close>

lemma unat_mod_block: "unat (s mod blockSize) = unat s mod 512"
  by (simp add: unat_mod_distrib blockSize_def)

lemma unat_gap: "unat (blockSize - s mod blockSize) = 512 - unat s mod 512"
proof -
  have "s mod blockSize \<le> blockSize" by (simp add: word_le_nat_alt unat_mod_block) (simp add: blockSize_def)
  from unat_sub [OF this] show ?thesis by (simp add: unat_mod_block) (simp add: blockSize_def)
qed

lemma round_up_nat: "n mod 512 \<noteq> 0 \<Longrightarrow> n + (512 - n mod 512) = (n + 511) div 512 * (512 :: nat)"
proof -
  assume n0: "n mod 512 \<noteq> 0"
  let ?r = "n mod 512" and ?q = "n div 512"
  have r: "?r < 512" "n = ?q * 512 + ?r" by simp_all
  have "(?r + 511) div 512 = 1" using n0 r(1) by (intro div_nat_eqI) simp_all
  moreover have "(n + 511) div 512 = ?q + (?r + 511) div 512" using r(2) by (metis add.assoc div_mult_self3 zero_neq_numeral)
  ultimately have e: "(n + 511) div 512 * 512 = ?q * 512 + 512" by simp
  have "n + (512 - ?r) = ?q * 512 + 512" using r by linarith
  with e show ?thesis by simp
qed

lemma unat_BlockSize:
  assumes "unat (Size le) + 512 \<le> 2 ^ 64"
  shows "unat (BlockSize le) = (unat (Size le) + 511) div 512 * 512"
proof (cases "Size le mod blockSize = 0")
  case True
  then obtain q where q: "unat (Size le) = 512 * q" using unat_mod_block [of "Size le"] by auto
  have "(512 * q + 511) div 512 = q" by simp
  with True q show ?thesis by (simp add: BlockSize_def)
next
  case False
  then have n0: "unat (Size le) mod 512 \<noteq> 0" using unat_mod_block [of "Size le"] by (metis unat_eq_zero)
  let ?g = "blockSize - Size le mod blockSize"
  have "unat (Size le) + unat ?g < 2 ^ LENGTH(64)" using assms n0 unat_gap [of "Size le"] by simp
  then have "unat (Size le + ?g) = unat (Size le) + unat ?g" by (rule unat_add_lem [THEN iffD1])
  then have "unat (BlockSize le) = unat (Size le) + (512 - unat (Size le) mod 512)"
    using False unat_gap [of "Size le"] by (simp only: BlockSize_def Let_def if_True simp_thms)
  with round_up_nat [OF n0] show ?thesis by simp
qed

lemma BlockSize_mod: "BlockSize le mod blockSize = 0"
proof (cases "Size le mod blockSize = 0")
  case False
  let ?g = "blockSize - Size le mod blockSize"
  have n0: "unat (Size le) mod 512 \<noteq> 0" using False unat_mod_block [of "Size le"] by (metis unat_eq_zero)
  have "unat ((Size le + ?g) mod blockSize) = (unat (Size le) + unat ?g) mod 2 ^ LENGTH(64) mod 512"
    by (simp only: unat_mod_block unat_word_ariths(1))
  also have "\<dots> = (unat (Size le) + unat ?g) mod 512" by (rule mod_mod_cancel) simp
  also have "\<dots> = 0" unfolding unat_gap round_up_nat [OF n0] by simp
  finally have "(Size le + ?g) mod blockSize = 0" by (simp only: unat_eq_zero)
  with False show ?thesis by (simp only: BlockSize_def Let_def if_True simp_thms)
qed (simp add: BlockSize_def)

lemma BlockSize_rounded: "BlockSize (le\<lparr>Size := BlockSize le\<rparr>) = BlockSize le"
  using BlockSize_mod [of le] by (simp add: BlockSize_def [of "le\<lparr>Size := BlockSize le\<rparr>"])

section \<open>Bounds of the encodings\<close>

lemma location_enc_bound: "msgp_ok L \<Longrightarrow> int (length (location_enc L le)) \<le> LocationEntry_Msgsize (sizes L)"
  using msgp_bound(9) [of L "Offset le"] msgp_bound(9) [of L "Size le"] by (simp add: location_enc_def LocationEntry_Msgsize_def)

lemma op_enc_bound: "msgp_ok L \<Longrightarrow> int (length (op_enc L e)) \<le> OpEntry_Msgsize (sizes L)"
  using location_enc_bound [of L "op_Location e"] msgp_bound(1) [of L "Free e"]
  by (simp add: op_enc_def OpEntry_Msgsize_def LocationEntry_Msgsize_def)

lemma concat_bound:
  assumes "\<And>x. int (length (enc x)) \<le> m"
  shows "int (length (concat (map enc xs))) \<le> int (length xs) * m"
  using assms by (induction xs) (simp_all add: algebra_simps add_mono)

lemma slice_enc_bound:
  assumes "msgp_ok L" "\<And>x. int (length (enc x)) \<le> m"
  shows "int (length (slice_enc L enc xs)) \<le> ArrayHeaderSize (sizes L) + int (length xs) * m"
  using concat_bound [of enc m xs, OF assms(2)] msgp_bound(2) [OF assms(1), of "len32 xs"] by (simp add: slice_enc_def)

lemma foldl_const: "foldl (\<lambda>s e. s + m) (s :: int) xs = s + int (length xs) * m"
  by (induction xs arbitrary: s) (simp_all add: algebra_simps)

lemma locations_bound:
  assumes "msgp_ok L"
  shows "int (length (slice_enc L (location_enc L) ls)) \<le>
    ArrayHeaderSize (sizes L) + int (length ls) * (33 + Uint64Size (sizes L) + Uint64Size (sizes L))"
proof (rule slice_enc_bound [OF assms])
  show "int (length (location_enc L le)) \<le> 33 + Uint64Size (sizes L) + Uint64Size (sizes L)" for le
    using location_enc_bound [OF assms, of le] by (simp add: LocationEntry_Msgsize_def)
qed

lemma Superblock_bound:
  assumes "msgp_ok L"
  shows "int (length (Superblock_MarshalMsg L z [])) \<le> Superblock_Msgsize (sizes L) z"
  using locations_bound [OF assms, of "RootLocation z"] locations_bound [OF assms, of "PendingLocation z"]
    slice_enc_bound [OF assms, of "op_enc L" "OpEntry_Msgsize (sizes L)" "Pending z", OF op_enc_bound [OF assms]] msgp_bound(9) [OF assms, of "Generation z"]
    msgp_bound(9) [OF assms, of "BytesUsed z"] msgp_bound(9) [OF assms, of "BytesTotal z"]
  unfolding Superblock_MarshalMsg_eq [OF assms] Superblock_Msgsize_def Let_def foldl_const length_append length_Cons of_nat_add of_nat_Suc
  by linarith

section \<open>Properties\<close>

text \<open>C24: A superblock fits the size that \<^verbatim>\<open>Msgsize\<close> reserves for it, and reads back from an area
  that holds it followed by any other bytes, such as the unused end of the superblock area.\<close>

theorem superblock_roundtrip:
  assumes "msgp_ok L" "short (RootLocation z)" "short (Pending z)" "short (PendingLocation z)"
  shows "int (length (Superblock_MarshalMsg L z [])) \<le> Superblock_Msgsize (sizes L) z \<and>
    Superblock_UnmarshalMsg L (Superblock_MarshalMsg L z [] @ padding) = Inr (z, padding)"
  using Superblock_bound [OF assms(1)] Superblock_roundtrip [OF assms] by blast

definition demo_superblock :: superblock where
  "demo_superblock = \<lparr>Generation = 3, BytesUsed = 66048, BytesTotal = 66560, RootLocation = [\<lparr>Offset = 65536, Size = 512\<rparr>],
     Pending = [\<lparr>op_Location = \<lparr>Offset = 66048, Size = 512\<rparr>, Free = True\<rparr>], PendingLocation = []\<rparr>"

theorem superblock_roundtrip_witness:
  "Superblock_UnmarshalMsg wire (Superblock_MarshalMsg wire demo_superblock [] @ [0, 0]) = Inr (demo_superblock, [0, 0])"
  by (rule conjunct2 [OF superblock_roundtrip [OF wire_ok]]) (simp_all add: demo_superblock_def short_def)

text \<open>C25: A slice of locations packed into a block id, sixteen bytes for each, reads back with the
  same offsets and with every size rounded up to the next multiple of 512, as long as that does
  not exceed 64 bits; packing the result again gives the same block id.\<close>

theorem block_id_roundtrip:
  assumes "\<forall>le \<in> set ls. unat (Size le) + 511 < 2 ^ 64"
  shows "\<exists>bid ls'. ToBlockId ls = Inr bid \<and> length bid = 16 * length ls \<and> NewLocationSliceFromBlockId bid = Inr ls' \<and>
    map Offset ls' = map Offset ls \<and> map (\<lambda>le. unat (Size le)) ls' = map (\<lambda>le. (unat (Size le) + 511) div 512 * 512) ls \<and>
    ToBlockId ls' = Inr bid"
proof -
  let ?bid = "concat (map ToKeySO ls)" and ?ls = "map rounded ls"
  have "map (\<lambda>le. unat (Size le)) ?ls = map (\<lambda>le. (unat (Size le) + 511) div 512 * 512) ls"
    using assms unat_BlockSize by (auto simp: rounded_def)
  moreover have "map ToKeySO ?ls = map ToKeySO ls" using BlockSize_rounded by (simp add: ToKeySO_def rounded_def)
  then have "ToBlockId ?ls = Inr ?bid" by (simp only: ToBlockId_eq)
  moreover have "map Offset ?ls = map Offset ls" by (simp add: rounded_def)
  ultimately show ?thesis using ToBlockId_eq [of ls] from_block_id [of ls] length_keys [of ls] by blast
qed

theorem block_id_roundtrip_witness:
  "\<exists>bid ls'. ToBlockId [\<lparr>Offset = 65536, Size = 700\<rparr>] = Inr bid \<and> length bid = 16 \<and> NewLocationSliceFromBlockId bid = Inr ls' \<and>
     map Offset ls' = [65536] \<and> map (\<lambda>le. unat (Size le)) ls' = [1024]"
  using block_id_roundtrip [of "[\<lparr>Offset = 65536, Size = 700\<rparr>]"] by auto

text \<open>C26: A block of the backend is described in the tree by its metadata and its locations, which
  read back from their encoding.\<close>

theorem block_data_roundtrip:
  assumes "msgp_ok L" "short (bd_Location z)" "- (2 ^ 31) \<le> RefCount (bd_meta z)" "RefCount (bd_meta z) < 2 ^ 31"
  shows "BlockData_UnmarshalMsg L (BlockData_MarshalMsg L z []) = Inr (z, [])"
  using BlockData_roundtrip [OF assms, of "[]"] by simp

theorem block_data_roundtrip_witness:
  "BlockData_UnmarshalMsg wire (BlockData_MarshalMsg wire
     \<lparr>bd_meta = \<lparr>RefCount = 1, Status = BS_NORMAL\<rparr>, bd_Location = [\<lparr>Offset = 65536, Size = 512\<rparr>]\<rparr> []) =
   Inr (\<lparr>bd_meta = \<lparr>RefCount = 1, Status = BS_NORMAL\<rparr>, bd_Location = [\<lparr>Offset = 65536, Size = 512\<rparr>]\<rparr>, [])"
  by (rule block_data_roundtrip [OF wire_ok]) (simp_all add: short_def)

end
