(* ===== verification/Spec2Isabelle.thy ===== *)
theory Spec2Isabelle
  imports StoreProps StWorld TreeMsg
begin

text \<open>
  A verification library for tfhfs, a file system whose metadata lives in a copy-on-write B+ tree
  over a reference-counted block storage. File and function names below are those of the Go
  sources under \<^verbatim>\<open>src/\<close>.

  \<^bold>\<open>Parts of the program.\<close> The file system (\<^verbatim>\<open>fs\<close>) keeps inodes, directory entries and file
  contents as entries of one B+ tree (\<^verbatim>\<open>ibtree\<close>). A tree is changed inside a transaction; when
  the transaction is committed, every node in memory becomes a block. Blocks go to the storage
  (\<^verbatim>\<open>storage\<close>), which caches them, counts references to them, and writes them to a backend when it
  is flushed. Backends can be layered: a codec layer (\<^verbatim>\<open>codec\<close>) encrypts and compresses, the
  in-memory backend keeps blocks in maps, and the tree backend (\<^verbatim>\<open>storage/tree\<close>) lays blocks out
  in a flat file and uses an \<^verbatim>\<open>ibtree\<close> of its own for free space and block locations.

  \<^bold>\<open>Conventions of the model.\<close> Go strings and byte slices are lists of bytes (\<open>gostring\<close>). A
  function that can panic returns a value of \<open>'a res\<close>, with the panic on the left; a pointer
  that may be nil is an option and is dereferenced with \<open>deref\<close>. Errors of the language (nil
  dereference, index out of range) are such panics. Fixed-width integers are words, or
  integers with the wrap-around written out (\<open>int32\<close>). Loops are structural or have a
  termination proof, except the loops of \<^verbatim>\<open>Storage.flush\<close>, which are \<open>partial_function (option)\<close>:
  not returning is the value \<open>None\<close>. The order in which Go ranges over a map is a parameter
  (a schedule), so that the theorems hold for every order. No fuel is used.

  \<^bold>\<open>Code that is not part of the repository\<close> is a parameter: the serialisation primitives of
  the msgp package (record \<open>msgp_lib\<close>, documented behaviour in \<open>msgp_ok\<close>, instance \<open>wire\<close>), the
  hash function of the dummy backend, and the ciphers, the compressors and the source of random
  bytes of the codecs (record \<open>codec_env\<close>, documented behaviour in \<open>codec_env_ok\<close>, instance
  \<open>demo_env\<close>). That a cipher rejects other additional data (\<open>aead_binds\<close>) is an idealisation and
  a hypothesis of one property only. The table of backends of the factory is a parameter too. Each property that relies on such behaviour has a witness at the instance.

  \<^bold>\<open>Theories.\<close>

  \<^item> \<open>Prelude\<close>: panics as values, slices, loops that stop at a panic (\<open>mapE\<close>, \<open>foldE\<close>), the rule
    collection for "panics or the result satisfies" (\<open>okE\<close>), sorted association lists.

  \<^item> \<open>Util\<close> (\<^verbatim>\<open>util/util.go\<close>): byte and integer helpers; big-endian encodings keep the order.

  \<^item> \<open>Greenpack\<close>: the readers and writers that the generated code of \<^verbatim>\<open>*_greenpack_gen.go\<close> is made
    of, over the parameter \<open>msgp_lib\<close>, with round-trip and size lemmas for each primitive.

  \<^item> \<open>IbNode\<close>, \<open>IbStack\<close>, \<open>IbTree\<close> (\<^verbatim>\<open>ibtree/ibtree.go\<close>, \<^verbatim>\<open>ibstack.go\<close>, \<^verbatim>\<open>ibtransaction.go\<close>,
    \<^verbatim>\<open>nodedata.go\<close>): nodes, the stack that holds the path from the root to the current entry,
    splitting, borrowing and merging nodes on the way up (\<open>commit\<close>), and transactions and
    subtrees on top of it. The code copies a node before it changes it, so the model has no
    addresses: a stack holds nodes, and rewriting one makes a new one. That the copy is made is
    read off the code and not proved; comparisons of node pointers compare nodes.

  \<^item> \<open>IbInv\<close>, \<open>IbSearch\<close>, \<open>IbUpdate\<close>, \<open>IbRebalance\<close>, \<open>IbCommit\<close>, \<open>IbMap\<close>, \<open>IbRange\<close>: the
    invariant of a stack (\<open>stack_inv\<close>, \<open>clean\<close>) with the sorted entries it stands for, and that
    every operation of the stack keeps it: searching, walking to the neighbouring leaf,
    rewriting, rebalancing, deleting ranges. No operation panics on a well-formed stack whose
    entries are smaller than half a node, below the depth the stack has room for.

  \<^item> \<open>IbOps\<close>: the interface of a transaction as an ordered map with string keys (locale
    \<open>ordered_map\<close>), facts about subtrees proved in it, and its interpretation (\<open>trmap\<close>) on the
    transactions of the model. \<open>TreeProps\<close>: the properties of transactions and subtrees.

  \<^item> \<open>IbStore\<close>, \<open>IbKept\<close>, \<open>StoreProps\<close> (\<^verbatim>\<open>CommitTo\<close>, \<^verbatim>\<open>dummybackend.go\<close>, generated serialisation):
    nodes as blocks, saving and loading (locale \<open>node_store\<close>, interpreted on the dummy backend);
    a committed tree reads back; a block id that a node carries in memory is never stale (rule
    collection of \<open>IbKept\<close>), so that a commit misses no change.

  \<^item> \<open>Codec\<close> (\<^verbatim>\<open>codec/codec.go\<close>): encrypting and compressing codecs and chains of them.

  \<^item> \<open>StBackend\<close> (\<^verbatim>\<open>proxybackend.go\<close>, \<^verbatim>\<open>codecbackend.go\<close>, \<^verbatim>\<open>inmemory.go\<close>, \<^verbatim>\<open>factory.go\<close>): the layers
    of backends as a datatype; the contract of a backend (locale \<open>block_store\<close>) and its
    interpretation for every layering (\<open>layered\<close>). \<open>StName\<close> (\<^verbatim>\<open>nameinblock.go\<close>): names kept in a
    block of the backend, a client of that contract.

  \<^item> \<open>StBlock\<close>, \<open>StStorage\<close> (\<^verbatim>\<open>block.go\<close>, \<^verbatim>\<open>storage.go\<close>, \<^verbatim>\<open>storagejob.go\<close>, \<^verbatim>\<open>storageblock.go\<close>): the cache
    of blocks as a heap with the three reference counts of each block, its dependencies, names,
    flushing, the queue of jobs and the goroutine that serves it, and the handles of users.
    \<open>StInv\<close>: the invariant of the cache (\<open>cinv\<close>), with a set of blocks exempted while an operation
    is under way, and that every operation keeps it. \<open>StWorld\<close>: the transition system of users'
    calls and served jobs (\<open>wstep\<close>, \<open>reachable\<close>); the invariant holds in every reachable state.

  \<^item> \<open>TreeMsg\<close> (\<^verbatim>\<open>storage/tree\<close>: \<^verbatim>\<open>tree_greenpack.go\<close>, \<^verbatim>\<open>tree_greenpack_gen.go\<close>, \<^verbatim>\<open>locationentry.go\<close>,
    \<^verbatim>\<open>locationslice.go\<close>): locations, superblocks and block data, their serialisation, and the keys
    and block ids they are packed into. Sizes are rounded up to whole blocks on 64-bit words.

  \<^bold>\<open>Bounds.\<close> The depth of a tree is at most \<open>maximumTreeDepth\<close>, the size of the arrays of the
  stack in the code. Lengths are below \<^verbatim>\<open>2^32\<close> where the code casts them to 32 bits (\<open>short\<close>).
  Reference counts wrap at 32 bits in the model as in the code.

  \<^bold>\<open>Not modelled.\<close>

  \<^item> \<^verbatim>\<open>fs\<close>, \<^verbatim>\<open>server\<close>, \<^verbatim>\<open>connector\<close>, \<^verbatim>\<open>cmd\<close>: the file system proper serves requests of the kernel through
    a third-party FUSE package and of remote peers through generated RPC code, and its
    operations are mostly calls of that package.

  \<^item> \<^verbatim>\<open>pb\<close>: generated by the protobuf and twirp compilers. The stream variants \<^verbatim>\<open>EncodeMsg\<close> and
    \<^verbatim>\<open>DecodeMsg\<close> of the greenpack code have no callers.

  \<^item> \<^verbatim>\<open>storage/badger\<close>: every operation is a transaction of the badger database.
    \<^verbatim>\<open>storage/file\<close> and \<^verbatim>\<open>directory.go\<close>: files and directories of the operating system.

  \<^item> \<^verbatim>\<open>storage/tree/tree.go\<close> and \<^verbatim>\<open>persist.go\<close>: the tree backend's allocation of space, its
    operations on blocks and its flush; only the data they store (\<open>TreeMsg\<close>) is covered.

  \<^item> \<^verbatim>\<open>ibtree/delta.go\<close>, \<^verbatim>\<open>ibtree/hugger\<close>: the differences of two trees, and the retries of
    concurrent users' transactions. \<^verbatim>\<open>xxx\<close> and its instances, and the locks, atomic values and
    channels of \<^verbatim>\<open>util\<close>: containers and wrappers of the standard library.

  \<^item> \<^verbatim>\<open>mapRunnerBackend\<close> beyond its construction: it is never part of the backend that
    \<^verbatim>\<open>Storage.Init\<close> installs, because \<^verbatim>\<open>SetBackend\<close> is the method promoted from the embedded
    proxy and returns the proxy (\<open>Storage_backends\<close> in \<open>StBackend\<close>). \<^verbatim>\<open>mlog\<close> and the statistics of \<^verbatim>\<open>String\<close> methods:
    they do not change the state.
\<close>

end
